(* ===== verification/Prelude.thy ===== *)
theory Prelude
  imports Main "HOL-Library.Word" "HOL-Library.AList" "HOL-Library.Multiset"
    "HOL-Library.Monad_Syntax"
begin

unbundle bit_operations_syntax

text \<open>
  Shared types and lemmas of the Pensieve development.

  \<^item> Machine integers are words of the width the C++ code declares. A \<open>size_t\<close> is 64 bits wide;
    it is a \<open>nat\<close> where it counts elements of a container that fits in memory, and a word where
    the code does arithmetic on it that can wrap.
  \<^item> A \<open>std::string\<close> is an Isabelle \<open>string\<close> (a list of 8-bit characters, no terminator), a
    \<open>std::vector<uint8_t>\<close> or a raw buffer is a list of bytes. The casts between
    \<open>char*\<close> and \<open>uint8_t*\<close> of the source are \<open>bytes_of\<close> and \<open>string_of\<close>.
  \<^item> \<open>memcpy\<close> of an integer is its little-endian byte list (\<open>le_bytes\<close>, \<open>le_word\<close>): the code
    targets x86-64 and ARM64 Linux and documents its wire format as little-endian.
  \<^item> A read through a pointer is bounds checked (\<open>read_at\<close>): \<open>None\<close> is an access outside the
    buffer, which is undefined behaviour in C++.
  \<^item> A \<open>std::unordered_map\<close> is an association list with distinct keys, in the order in which the
    container iterates. The standard leaves that order open, and no theorem depends on it.
\<close>

type_synonym u8 = "8 word"
type_synonym u16 = "16 word"
type_synonym u32 = "32 word"
type_synonym u64 = "64 word"
type_synonym bytes = "u8 list"

named_theorems std_simps \<open>behaviour of the C++ standard library operations the model uses\<close>
named_theorems wire_simps \<open>encoders and decoders applied to each other's output\<close>

section \<open>Characters and bytes\<close>

definition byte_of :: "char \<Rightarrow> u8" where
  "byte_of c = word_of_nat (of_char c)"

definition char_of_byte :: "u8 \<Rightarrow> char" where
  "char_of_byte b = char_of (unat b)"

definition bytes_of :: "string \<Rightarrow> bytes" where
  "bytes_of s = map byte_of s"

definition string_of :: "bytes \<Rightarrow> string" where
  "string_of bs = map char_of_byte bs"

lemma char_of_byte_of [simp]: "char_of_byte (byte_of c) = c"
  by (simp add: char_of_byte_def byte_of_def unat_of_nat)

lemma byte_of_char_of [simp]: "byte_of (char_of_byte b) = b"
proof -
  have "unat b < 256" using unsigned_less [of b] by simp
  then show ?thesis by (simp add: char_of_byte_def byte_of_def)
qed

lemma byte_of_eq_iff [simp]: "byte_of c = byte_of d \<longleftrightarrow> c = d"
  by (metis char_of_byte_of)

lemma string_of_bytes_of [simp]: "string_of (bytes_of s) = s"
  by (simp add: string_of_def bytes_of_def comp_def)

lemma bytes_of_string_of [simp]: "bytes_of (string_of bs) = bs"
  by (simp add: string_of_def bytes_of_def comp_def)

lemma length_bytes_of [simp]: "length (bytes_of s) = length s"
  by (simp add: bytes_of_def)

lemma length_string_of [simp]: "length (string_of bs) = length bs"
  by (simp add: string_of_def)

lemma bytes_of_eq_iff [simp]: "bytes_of s = bytes_of t \<longleftrightarrow> s = t"
  by (metis string_of_bytes_of)

lemma bytes_of_Nil_iff [simp]: "bytes_of s = [] \<longleftrightarrow> s = []"
  by (simp add: bytes_of_def)

lemma bytes_of_append [simp]: "bytes_of (s @ t) = bytes_of s @ bytes_of t"
  by (simp add: bytes_of_def)

section \<open>Little-endian images of integers\<close>

definition le_bytes :: "nat \<Rightarrow> 'a::len word \<Rightarrow> bytes" where
  "le_bytes n w = map (\<lambda>i. ucast (drop_bit (8 * i) w)) [0..<n]"

fun le_word :: "bytes \<Rightarrow> 'a::len word" where
  "le_word [] = 0"
| "le_word (b # bs) = ucast b OR push_bit 8 (le_word bs)"

lemma length_le_bytes [simp]: "length (le_bytes n w) = n"
  by (simp add: le_bytes_def)

lemma bit_le_word:
  "bit (le_word bs :: 'a::len word) k \<longleftrightarrow>
     k < LENGTH('a) \<and> k div 8 < length bs \<and> bit (bs ! (k div 8)) (k mod 8)"
proof (induction bs arbitrary: k)
  case Nil
  then show ?case by simp
next
  case (Cons b bs)
  show ?case
  proof (cases "k < 8")
    case True
    then show ?thesis by (auto simp: bit_simps)
  next
    case False
    then have "k div 8 = Suc ((k - 8) div 8)" and "k mod 8 = (k - 8) mod 8"
      by (simp_all add: div_if le_mod_geq)
    moreover have "\<not> bit b k" using False bit_imp_le_length [of b k] by auto
    ultimately show ?thesis using False Cons.IH [of "k - 8"] by (auto simp: bit_simps)
  qed
qed

lemma bit_le_bytes:
  "i < n \<Longrightarrow> bit (le_bytes n (w :: 'a::len word) ! i) j \<longleftrightarrow> j < 8 \<and> bit w (8 * i + j)"
  by (auto simp: le_bytes_def bit_simps)

lemma le_word_le_bytes [simp, wire_simps]:
  assumes "LENGTH('a) \<le> 8 * n"
  shows "le_word (le_bytes n (w :: 'a::len word)) = w"
proof (rule bit_word_eqI)
  fix k assume "k < LENGTH('a)"
  with assms have "k div 8 < n" by auto
  then show "bit (le_word (le_bytes n w) :: 'a word) k = bit w k"
    using \<open>k < LENGTH('a)\<close> by (simp add: bit_le_word bit_le_bytes)
qed

lemma le_bytes_le_word [simp, wire_simps]:
  assumes "length bs = n" and "8 * n \<le> LENGTH('a)"
  shows "le_bytes n (le_word bs :: 'a::len word) = bs"
proof (rule nth_equalityI)
  show "length (le_bytes n (le_word bs :: 'a word)) = length bs" using assms by simp
  fix i assume "i < length (le_bytes n (le_word bs :: 'a word))"
  then have i: "i < n" by simp
  show "le_bytes n (le_word bs :: 'a word) ! i = bs ! i"
  proof (rule bit_word_eqI)
    fix j assume "j < LENGTH(8)"
    then have "j < 8" by simp
    moreover have "8 * i + j < LENGTH('a)" using i assms(2) \<open>j < 8\<close> by linarith
    ultimately show "bit (le_bytes n (le_word bs :: 'a word) ! i) j = bit (bs ! i) j"
      using i assms(1) by (simp add: bit_le_bytes bit_le_word)
  qed
qed

section \<open>Bounds-checked reads\<close>

definition read_at :: "bytes \<Rightarrow> nat \<Rightarrow> nat \<Rightarrow> bytes option" where
  "read_at buf off n = (if off + n \<le> length buf then Some (take n (drop off buf)) else None)"

lemma read_at_append [simp, wire_simps]:
  "length xs = off \<Longrightarrow> length ys = n \<Longrightarrow> read_at (xs @ ys @ zs) off n = Some ys"
  by (simp add: read_at_def)

lemma read_at_None_iff: "read_at buf off n = None \<longleftrightarrow> length buf < off + n"
  by (auto simp: read_at_def)

lemma read_at_SomeD: "read_at buf off n = Some bs \<Longrightarrow> length bs = n \<and> off + n \<le> length buf"
  by (auto simp: read_at_def split: if_splits)

definition byte_at :: "bytes \<Rightarrow> nat \<Rightarrow> u8 option" where
  "byte_at buf off = (if off < length buf then Some (buf ! off) else None)"

lemma byte_at_Some [simp]: "off < length buf \<Longrightarrow> byte_at buf off = Some (buf ! off)"
  by (simp add: byte_at_def)

lemma byte_at_None_iff: "byte_at buf off = None \<longleftrightarrow> length buf \<le> off"
  by (auto simp: byte_at_def)

section \<open>Words and natural numbers\<close>

lemma unat_of_nat_u16 [simp]: "n < 65536 \<Longrightarrow> unat (word_of_nat n :: u16) = n"
  by (simp add: unat_of_nat)

lemma unat_of_nat_u32 [simp]: "n < 4294967296 \<Longrightarrow> unat (word_of_nat n :: u32) = n"
  by (simp add: unat_of_nat)

lemma unat_u16_less [simp]: "unat (w :: u16) < 65536"
  using unsigned_less [of w] by simp

lemma unat_u32_less [simp]: "unat (w :: u32) < 4294967296"
  using unsigned_less [of w] by simp

section \<open>Association lists as unordered maps\<close>

definition um_find :: "'k \<Rightarrow> ('k \<times> 'v) list \<Rightarrow> 'v option" where
  "um_find k m = map_of m k"

definition um_set :: "'k \<Rightarrow> 'v \<Rightarrow> ('k \<times> 'v) list \<Rightarrow> ('k \<times> 'v) list" where
  "um_set k v m = AList.update k v m"

definition um_erase :: "'k \<Rightarrow> ('k \<times> 'v) list \<Rightarrow> ('k \<times> 'v) list" where
  "um_erase k m = AList.delete k m"

definition um_ok :: "('k \<times> 'v) list \<Rightarrow> bool" where
  "um_ok m = distinct (map fst m)"

lemma um_ok_Nil [simp]: "um_ok []"
  by (simp add: um_ok_def)

lemma um_ok_set [simp, std_simps]: "um_ok m \<Longrightarrow> um_ok (um_set k v m)"
  by (simp add: um_ok_def um_set_def distinct_update)

lemma um_ok_erase [simp, std_simps]: "um_ok m \<Longrightarrow> um_ok (um_erase k m)"
  by (simp add: um_ok_def um_erase_def distinct_delete)

lemma um_find_Nil [simp, std_simps]: "um_find k [] = None"
  by (simp add: um_find_def)

lemma um_find_set [simp, std_simps]: "um_find j (um_set k v m) = (if j = k then Some v else um_find j m)"
  by (simp add: um_find_def um_set_def update_conv')

lemma um_find_erase [simp, std_simps]: "um_find j (um_erase k m) = (if j = k then None else um_find j m)"
  by (simp add: um_find_def um_erase_def delete_conv')

lemma um_find_mem: "um_ok m \<Longrightarrow> (k, v) \<in> set m \<longleftrightarrow> um_find k m = Some v"
  by (auto simp: um_ok_def um_find_def)

lemma um_find_SomeD: "um_find k m = Some v \<Longrightarrow> (k, v) \<in> set m"
  by (simp add: um_find_def map_of_SomeD)

lemma um_find_None_iff: "um_find k m = None \<longleftrightarrow> k \<notin> fst ` set m"
  by (simp add: um_find_def map_of_eq_None_iff)

lemma keys_um_set [simp, std_simps]: "fst ` set (um_set k v m) = insert k (fst ` set m)"
  by (simp add: um_set_def dom_update)

lemma keys_um_erase [simp, std_simps]: "fst ` set (um_erase k m) = fst ` set m - {k}"
  by (auto simp: um_erase_def AList.delete_eq)

section \<open>Decimal numbers\<close>

text \<open>\<open>std::format("{}", n)\<close> and \<open>std::to_string(n)\<close> on an unsigned integer.\<close>

definition digit_char :: "nat \<Rightarrow> char" where
  "digit_char d = char_of (48 + d)"

fun dec_string :: "nat \<Rightarrow> string" where
  "dec_string n = (if n < 10 then [digit_char n] else dec_string (n div 10) @ [digit_char (n mod 10)])"

declare dec_string.simps [simp del]

lemma of_char_digit_char: "d < 10 \<Longrightarrow> of_char (digit_char d) = 48 + d"
  by (simp add: digit_char_def)

lemma digit_char_eq_iff: "a < 10 \<Longrightarrow> b < 10 \<Longrightarrow> digit_char a = digit_char b \<longleftrightarrow> a = b"
  by (metis add_left_cancel of_char_digit_char)

lemma dec_string_not_Nil [simp]: "dec_string n \<noteq> []"
  by (subst dec_string.simps) simp

lemmas Nil_not_dec_string [simp] = dec_string_not_Nil [symmetric]

lemma dec_string_digits: "c \<in> set (dec_string n) \<Longrightarrow> \<exists>d<10. c = digit_char d"
proof (induction n rule: dec_string.induct)
  case (1 n)
  show ?case
  proof (cases "n < 10")
    case True
    with "1.prems" show ?thesis by (auto simp: dec_string.simps [of n])
  next
    case False
    with "1.prems" consider "c \<in> set (dec_string (n div 10))" | "c = digit_char (n mod 10)"
      by (auto simp: dec_string.simps [of n])
    then show ?thesis
    proof cases
      case 1
      with "1.IH" False show ?thesis by blast
    next
      case 2
      then show ?thesis by (intro exI [of _ "n mod 10"]) simp
    qed
  qed
qed

lemma dec_string_inj: "dec_string m = dec_string n \<Longrightarrow> m = n"
proof (induction m arbitrary: n rule: dec_string.induct)
  case (1 m)
  have eq: "dec_string m = dec_string n" by (rule "1.prems")
  consider "m < 10" "n < 10" | "m < 10" "\<not> n < 10" | "\<not> m < 10" "n < 10" | "\<not> m < 10" "\<not> n < 10"
    by blast
  then show ?case
  proof cases
    case 1
    with eq show ?thesis by (simp add: dec_string.simps [of m] dec_string.simps [of n] digit_char_eq_iff)
  next
    case 2
    with eq show ?thesis by (simp add: dec_string.simps [of m] dec_string.simps [of n])
  next
    case 3
    with eq show ?thesis by (simp add: dec_string.simps [of m] dec_string.simps [of n])
  next
    case 4
    with eq have "dec_string (m div 10) = dec_string (n div 10)" and "m mod 10 = n mod 10"
      by (simp_all add: dec_string.simps [of m] dec_string.simps [of n] digit_char_eq_iff)
    moreover from this(1) have "m div 10 = n div 10" using "1.IH" 4 by blast
    ultimately show ?thesis by (metis div_mult_mod_eq)
  qed
qed

lemma notin_dec_string:
  assumes "of_char c < (48 :: nat) \<or> (58 :: nat) \<le> of_char c"
  shows "c \<notin> set (dec_string n)"
proof
  assume "c \<in> set (dec_string n)"
  then obtain d where "d < 10" and "c = digit_char d" using dec_string_digits by blast
  with assms show False by (simp add: of_char_digit_char)
qed

lemma separators_notin_dec_string [simp]:
  "CHR '':'' \<notin> set (dec_string n)" "CHR ''#'' \<notin> set (dec_string n)"
  by (rule notin_dec_string, simp)+

end
