(* ===== verification/Murmur.thy ===== *)
theory Murmur
  imports Prelude
begin

unbundle bit_operations_syntax

text \<open>
  MurmurHash3 (\<open>src/hash/murmurhash3.cpp\<close>) and the two users of it in \<open>src/hash/hasher.h\<close>:
  \<open>hash_key\<close>, which places a key on the ring and picks its shard, and \<open>hash_node_token\<close>, which
  places a virtual node on the ring.

  The input is a readable buffer and a length. Every load of the code is bounds checked against the
  buffer, so that a hash is \<open>None\<close> exactly when the code reads outside it. The theorems show that the
  32-bit and the 64-bit variants stay inside the buffer, that the 32-bit variant is the textbook
  definition over 4-byte blocks, that the finalizers are permutations and short keys of equal length
  never collide, and that the 128-bit x86 variant reads past the key as soon as there is a block.
\<close>

section \<open>Mixing functions\<close>

definition rotl32 :: "u32 \<Rightarrow> nat \<Rightarrow> u32" where
  "rotl32 x r = (push_bit r x OR drop_bit (32 - r) x)"

definition rotl64 :: "u64 \<Rightarrow> nat \<Rightarrow> u64" where
  "rotl64 x r = (push_bit r x OR drop_bit (64 - r) x)"

definition fmix32 :: "u32 \<Rightarrow> u32" where
  "fmix32 h =
     (let h = h XOR drop_bit 16 h;
          h = h * 0x85ebca6b;
          h = h XOR drop_bit 13 h;
          h = h * 0xc2b2ae35;
          h = h XOR drop_bit 16 h
      in h)"

definition fmix64 :: "u64 \<Rightarrow> u64" where
  "fmix64 k =
     (let k = k XOR drop_bit 33 k;
          k = k * 0xff51afd7ed558ccd;
          k = k XOR drop_bit 33 k;
          k = k * 0xc4ceb9fe1a85ec53;
          k = k XOR drop_bit 33 k
      in k)"

section \<open>Loads\<close>

text \<open>A pointer is an offset \<open>p\<close> into the buffer; \<open>i\<close> counts elements of the pointee's width.\<close>

definition getblock32 :: "bytes \<Rightarrow> nat \<Rightarrow> nat \<Rightarrow> u32 option" where
  "getblock32 buf p i = map_option le_word (read_at buf (p + 4 * i) 4)"

definition getblock64 :: "bytes \<Rightarrow> nat \<Rightarrow> nat \<Rightarrow> u64 option" where
  "getblock64 buf p i = map_option le_word (read_at buf (p + 8 * i) 8)"

text \<open>The loops of \<open>tail_word32\<close> and \<open>tail_word64\<close>: \<open>n\<close> iterations are left, \<open>i\<close> is the counter.\<close>

fun tail_loop :: "bytes \<Rightarrow> nat \<Rightarrow> nat \<Rightarrow> nat \<Rightarrow> 'a::len word \<Rightarrow> 'a word option" where
  "tail_loop buf p 0 i k = Some k"
| "tail_loop buf p (Suc n) i k =
     do {
       b \<leftarrow> byte_at buf (p + i);
       tail_loop buf p n (Suc i) (k XOR push_bit (i * 8) (ucast b))
     }"

definition tail_word32 :: "bytes \<Rightarrow> nat \<Rightarrow> nat \<Rightarrow> nat \<Rightarrow> u32 option" where
  "tail_word32 buf tail start cnt = tail_loop buf (tail + start) cnt 0 0"

definition tail_word64 :: "bytes \<Rightarrow> nat \<Rightarrow> nat \<Rightarrow> nat \<Rightarrow> u64 option" where
  "tail_word64 buf tail start cnt = tail_loop buf (tail + start) cnt 0 0"

section \<open>The 32-bit variant\<close>

definition x86_32_k1 :: "u32 \<Rightarrow> u32" where
  "x86_32_k1 k1 =
     (let k1 = k1 * 0xcc9e2d51;
          k1 = rotl32 k1 15;
          k1 = k1 * 0x1b873593
      in k1)"

definition x86_32_h1 :: "u32 \<Rightarrow> u32 \<Rightarrow> u32" where
  "x86_32_h1 h1 k1 =
     (let h1 = h1 XOR x86_32_k1 k1;
          h1 = rotl32 h1 13;
          h1 = h1 * 5 + 0xe6546b64
      in h1)"

fun x86_32_body :: "bytes \<Rightarrow> nat \<Rightarrow> nat \<Rightarrow> u32 \<Rightarrow> u32 option" where
  "x86_32_body buf 0 i h1 = Some h1"
| "x86_32_body buf (Suc n) i h1 =
     do {
       k1 \<leftarrow> getblock32 buf 0 i;
       x86_32_body buf n (Suc i) (x86_32_h1 h1 k1)
     }"

text \<open>The \<open>switch (len & 3)\<close>: each case falls through to the next.\<close>

definition x86_32_tail :: "bytes \<Rightarrow> nat \<Rightarrow> nat \<Rightarrow> u32 \<Rightarrow> u32 option" where
  "x86_32_tail buf tail rem h1 =
     do {
       k1 \<leftarrow> (if rem = 3 then
                do { b \<leftarrow> byte_at buf (tail + 2); Some (0 XOR push_bit 16 (ucast b)) }
              else Some 0);
       k1 \<leftarrow> (if rem = 3 \<or> rem = 2 then
                do { b \<leftarrow> byte_at buf (tail + 1); Some (k1 XOR push_bit 8 (ucast b)) }
              else Some k1);
       if rem = 3 \<or> rem = 2 \<or> rem = 1 then
         do { b \<leftarrow> byte_at buf tail; Some (h1 XOR x86_32_k1 (k1 XOR ucast b)) }
       else Some h1
     }"

definition murmurhash3_x86_32 :: "bytes \<Rightarrow> nat \<Rightarrow> u32 \<Rightarrow> u32 option" where
  "murmurhash3_x86_32 buf len seed =
     (let nblocks = len div 4 in
      do {
        h1 \<leftarrow> x86_32_body buf nblocks 0 seed;
        h1 \<leftarrow> x86_32_tail buf (nblocks * 4) (len mod 4) h1;
        Some (fmix32 (h1 XOR word_of_nat len))
      })"

section \<open>The 128-bit variant for x86\<close>

type_synonym x86_128_state = "u32 \<times> u32 \<times> u32 \<times> u32"

definition x86_128_k1 :: "u32 \<Rightarrow> u32" where
  "x86_128_k1 k1 = rotl32 (k1 * 0x239b961b) 15 * 0xab0e9789"

definition x86_128_k2 :: "u32 \<Rightarrow> u32" where
  "x86_128_k2 k2 = rotl32 (k2 * 0xab0e9789) 16 * 0x38b34ae5"

definition x86_128_k3 :: "u32 \<Rightarrow> u32" where
  "x86_128_k3 k3 = rotl32 (k3 * 0x38b34ae5) 17 * 0xa1e38b93"

definition x86_128_k4 :: "u32 \<Rightarrow> u32" where
  "x86_128_k4 k4 = rotl32 (k4 * 0xa1e38b93) 18 * 0x239b961b"

definition x86_128_round :: "x86_128_state \<Rightarrow> u32 \<Rightarrow> u32 \<Rightarrow> u32 \<Rightarrow> u32 \<Rightarrow> x86_128_state" where
  "x86_128_round h k1 k2 k3 k4 =
     (case h of (h1, h2, h3, h4) \<Rightarrow>
        let h1 = h1 XOR x86_128_k1 k1;
            h1 = (rotl32 h1 19 + h2) * 5 + 0x561ccd1b;
            h2 = h2 XOR x86_128_k2 k2;
            h2 = (rotl32 h2 17 + h3) * 5 + 0x0bcaa747;
            h3 = h3 XOR x86_128_k3 k3;
            h3 = (rotl32 h3 15 + h4) * 5 + 0x96cd1c35;
            h4 = h4 XOR x86_128_k4 k4;
            h4 = (rotl32 h4 13 + h1) * 5 + 0x32ac3b17
        in (h1, h2, h3, h4))"

fun x86_128_body :: "bytes \<Rightarrow> nat \<Rightarrow> nat \<Rightarrow> nat \<Rightarrow> x86_128_state \<Rightarrow> x86_128_state option" where
  "x86_128_body buf blocks 0 i h = Some h"
| "x86_128_body buf blocks (Suc n) i h =
     (let base = i * 4 in
      do {
        k1 \<leftarrow> getblock32 buf blocks (base + 0);
        k2 \<leftarrow> getblock32 buf blocks (base + 1);
        k3 \<leftarrow> getblock32 buf blocks (base + 2);
        k4 \<leftarrow> getblock32 buf blocks (base + 3);
        x86_128_body buf blocks n (Suc i) (x86_128_round h k1 k2 k3 k4)
      })"

definition x86_128_tail :: "bytes \<Rightarrow> nat \<Rightarrow> nat \<Rightarrow> x86_128_state \<Rightarrow> x86_128_state option" where
  "x86_128_tail buf tail rem h =
     (case h of (h1, h2, h3, h4) \<Rightarrow>
        do {
          h4 \<leftarrow> (if rem > 12 then
                   do { k4 \<leftarrow> tail_word32 buf tail 12 (rem - 12); Some (h4 XOR x86_128_k4 k4) }
                 else Some h4);
          h3 \<leftarrow> (if rem > 8 then
                   do { k3 \<leftarrow> tail_word32 buf tail 8 (min rem 12 - 8); Some (h3 XOR x86_128_k3 k3) }
                 else Some h3);
          h2 \<leftarrow> (if rem > 4 then
                   do { k2 \<leftarrow> tail_word32 buf tail 4 (min rem 8 - 4); Some (h2 XOR x86_128_k2 k2) }
                 else Some h2);
          h1 \<leftarrow> (if rem > 0 then
                   do { k1 \<leftarrow> tail_word32 buf tail 0 (min rem 4); Some (h1 XOR x86_128_k1 k1) }
                 else Some h1);
          Some (h1, h2, h3, h4)
        })"

definition x86_128_add :: "x86_128_state \<Rightarrow> x86_128_state" where
  "x86_128_add h =
     (case h of (h1, h2, h3, h4) \<Rightarrow>
        let h1 = h1 + h2 + h3 + h4
        in (h1, h2 + h1, h3 + h1, h4 + h1))"

definition x86_128_final :: "nat \<Rightarrow> x86_128_state \<Rightarrow> x86_128_state" where
  "x86_128_final len h =
     (let l = word_of_nat len :: u32;
          (h1, h2, h3, h4) = h;
          (h1, h2, h3, h4) = x86_128_add (h1 XOR l, h2 XOR l, h3 XOR l, h4 XOR l)
      in x86_128_add (fmix32 h1, fmix32 h2, fmix32 h3, fmix32 h4))"

text \<open>The block pointer starts at the END of the blocks and is indexed upwards, as the source has it.\<close>

definition murmurhash3_x86_128 :: "bytes \<Rightarrow> nat \<Rightarrow> u32 \<Rightarrow> x86_128_state option" where
  "murmurhash3_x86_128 buf len seed =
     (let nblocks = len div 16; blocks = nblocks * 16 in
      do {
        h \<leftarrow> x86_128_body buf blocks nblocks 0 (seed, seed, seed, seed);
        h \<leftarrow> x86_128_tail buf (nblocks * 16) (len mod 16) h;
        Some (x86_128_final len h)
      })"

section \<open>The 128-bit variant for x64\<close>

definition x64_128_k1 :: "u64 \<Rightarrow> u64" where
  "x64_128_k1 k1 = rotl64 (k1 * 0x87c37b91114253d5) 31 * 0x4cf5ad432745937f"

definition x64_128_k2 :: "u64 \<Rightarrow> u64" where
  "x64_128_k2 k2 = rotl64 (k2 * 0x4cf5ad432745937f) 33 * 0x87c37b91114253d5"

definition x64_128_round :: "u64 \<times> u64 \<Rightarrow> u64 \<Rightarrow> u64 \<Rightarrow> u64 \<times> u64" where
  "x64_128_round h k1 k2 =
     (case h of (h1, h2) \<Rightarrow>
        let h1 = h1 XOR x64_128_k1 k1;
            h1 = (rotl64 h1 27 + h2) * 5 + 0x52dce729;
            h2 = h2 XOR x64_128_k2 k2;
            h2 = (rotl64 h2 31 + h1) * 5 + 0x38495ab5
        in (h1, h2))"

fun x64_128_body :: "bytes \<Rightarrow> nat \<Rightarrow> nat \<Rightarrow> u64 \<times> u64 \<Rightarrow> (u64 \<times> u64) option" where
  "x64_128_body buf 0 i h = Some h"
| "x64_128_body buf (Suc n) i h =
     do {
       k1 \<leftarrow> getblock64 buf 0 (i * 2);
       k2 \<leftarrow> getblock64 buf 0 (i * 2 + 1);
       x64_128_body buf n (Suc i) (x64_128_round h k1 k2)
     }"

definition x64_128_tail :: "bytes \<Rightarrow> nat \<Rightarrow> nat \<Rightarrow> u64 \<times> u64 \<Rightarrow> (u64 \<times> u64) option" where
  "x64_128_tail buf tail rem h =
     (case h of (h1, h2) \<Rightarrow>
        do {
          h2 \<leftarrow> (if rem > 8 then
                   do { k2 \<leftarrow> tail_word64 buf tail 8 (rem - 8); Some (h2 XOR x64_128_k2 k2) }
                 else Some h2);
          h1 \<leftarrow> (if rem > 0 then
                   do { k1 \<leftarrow> tail_word64 buf tail 0 (min rem 8); Some (h1 XOR x64_128_k1 k1) }
                 else Some h1);
          Some (h1, h2)
        })"

definition x64_128_final :: "nat \<Rightarrow> u64 \<times> u64 \<Rightarrow> u64 \<times> u64" where
  "x64_128_final len h =
     (let (h1, h2) = h;
          h1 = h1 XOR word_of_nat len;
          h2 = h2 XOR word_of_nat len;
          h1 = h1 + h2;
          h2 = h2 + h1;
          h1 = fmix64 h1;
          h2 = fmix64 h2;
          h1 = h1 + h2;
          h2 = h2 + h1
      in (h1, h2))"

definition murmurhash3_x64_128 :: "bytes \<Rightarrow> nat \<Rightarrow> u32 \<Rightarrow> (u64 \<times> u64) option" where
  "murmurhash3_x64_128 buf len seed =
     (let nblocks = len div 16 in
      do {
        h \<leftarrow> x64_128_body buf nblocks 0 (ucast seed, ucast seed);
        h \<leftarrow> x64_128_tail buf (nblocks * 16) (len mod 16) h;
        Some (x64_128_final len h)
      })"

section \<open>The reference definition\<close>

fun murmur3_ref_blocks :: "u32 \<Rightarrow> bytes \<Rightarrow> u32" where
  "murmur3_ref_blocks h (b0 # b1 # b2 # b3 # bs) =
     murmur3_ref_blocks (x86_32_h1 h (le_word [b0, b1, b2, b3])) bs"
| "murmur3_ref_blocks h [] = h"
| "murmur3_ref_blocks h bs = h XOR x86_32_k1 (le_word bs)"

definition murmur3_ref :: "u32 \<Rightarrow> bytes \<Rightarrow> u32" where
  "murmur3_ref seed bs = fmix32 (murmur3_ref_blocks seed bs XOR word_of_nat (length bs))"

section \<open>The mixing functions are permutations\<close>

lemma xor_drop_bit_inj:
  fixes x y :: "'a::len word"
  assumes "0 < s" and "x XOR drop_bit s x = y XOR drop_bit s y"
  shows "x = y"
proof -
  define z where "z = x XOR y"
  have "z = drop_bit s z"
  proof (rule bit_word_eqI)
    fix n assume "n < LENGTH('a)"
    have "bit (x XOR drop_bit s x) n = bit (y XOR drop_bit s y) n" using assms(2) by simp
    then show "bit z n = bit (drop_bit s z) n" by (auto simp: z_def bit_simps)
  qed
  then have step: "bit z n = bit z (s + n)" for n by (metis bit_drop_bit_eq comp_apply)
  have "bit z n = bit z (k * s + n)" for n k
    by (induction k) (use step in \<open>simp_all add: add.assoc\<close>)
  then have "bit z n = bit z (LENGTH('a) * s + n)" for n by blast
  moreover have "\<not> bit z (LENGTH('a) * s + n)" for n
    using assms(1) bit_imp_le_length [of z "LENGTH('a) * s + n"]
    by (metis One_nat_def Suc_leI mult_le_mono2 mult.right_neutral not_less trans_le_add1)
  ultimately have "z = 0" by (simp add: bit_word_eqI)
  then have "x XOR y = 0" by (simp add: z_def)
  then show ?thesis by (metis xor.assoc xor.left_neutral xor.right_neutral xor_self_eq)
qed

lemma xor_drop_bit_eq_iff [simp]:
  fixes x y :: "'a::len word"
  shows "0 < s \<Longrightarrow> x XOR drop_bit s x = y XOR drop_bit s y \<longleftrightarrow> x = y"
  using xor_drop_bit_inj by blast

lemma mult_unit_eq_iff:
  fixes x y c d :: "'a::len word"
  assumes "c * d = 1"
  shows "x * c = y * c \<longleftrightarrow> x = y"
  by (metis assms mult.assoc mult.right_neutral)

lemma bit_rotl32:
  "n < 32 \<Longrightarrow> r \<le> 32 \<Longrightarrow> bit (rotl32 x r) n \<longleftrightarrow> bit x (if r \<le> n then n - r else n + 32 - r)"
  using bit_imp_le_length [of x "n + 32 - r"] by (auto simp: rotl32_def bit_simps add.commute)

lemma rotl32_inj:
  assumes "r \<le> 32" and "rotl32 x r = rotl32 y r"
  shows "x = y"
proof (rule bit_word_eqI)
  fix n assume "n < LENGTH(32)"
  then have n: "n < 32" by simp
  define m where "m = (if n + r < 32 then n + r else n + r - 32)"
  have "m < 32" and "(if r \<le> m then m - r else m + 32 - r) = n"
    using n assms(1) by (auto simp: m_def)
  then have "bit (rotl32 x r) m = bit x n" and "bit (rotl32 y r) m = bit y n"
    using assms(1) by (simp_all only: bit_rotl32)
  with assms(2) show "bit x n = bit y n" by simp
qed

lemma rotl32_eq_iff [simp]: "r \<le> 32 \<Longrightarrow> rotl32 x r = rotl32 y r \<longleftrightarrow> x = y"
  using rotl32_inj by blast

lemma xor_left_eq_iff [simp]: "h XOR a = h XOR b \<longleftrightarrow> a = (b :: 'a::len word)"
  by (metis xor.assoc xor.left_neutral xor_self_eq)

lemmas fmix_units =
  mult_unit_eq_iff [where c = "0x85ebca6b :: u32" and d = "0xa5cb9243"]
  mult_unit_eq_iff [where c = "0xc2b2ae35 :: u32" and d = "0x7ed1b41d"]
  mult_unit_eq_iff [where c = "0xff51afd7ed558ccd :: u64" and d = "0x4f74430c22a54005"]
  mult_unit_eq_iff [where c = "0xc4ceb9fe1a85ec53 :: u64" and d = "0x9cb4b2f8129337db"]

lemmas x86_32_units =
  mult_unit_eq_iff [where c = "0xcc9e2d51 :: u32" and d = "0xdee13bb1"]
  mult_unit_eq_iff [where c = "0x1b873593 :: u32" and d = "0x56ed309b"]
  mult_unit_eq_iff [where c = "5 :: u32" and d = "0xcccccccd"]

lemma fmix32_eq_iff [simp]: "fmix32 x = fmix32 y \<longleftrightarrow> x = y"
  by (simp add: fmix32_def Let_def fmix_units)

lemma fmix64_eq_iff [simp]: "fmix64 x = fmix64 y \<longleftrightarrow> x = y"
  by (simp add: fmix64_def Let_def fmix_units)

lemma x86_32_k1_eq_iff [simp]: "x86_32_k1 x = x86_32_k1 y \<longleftrightarrow> x = y"
  by (simp add: x86_32_k1_def Let_def x86_32_units)

lemma x86_32_h1_eq_iff [simp]: "x86_32_h1 h x = x86_32_h1 h y \<longleftrightarrow> x = y"
  by (simp add: x86_32_h1_def Let_def x86_32_units)

section \<open>Equivalence with the reference definition\<close>

lemma ucast_or_push_bit: "ucast (b :: u8) OR push_bit 8 w = ucast b XOR push_bit 8 (w :: 'a::len word)"
proof (rule bit_word_eqI)
  fix n
  show "bit (ucast b OR push_bit 8 w) n = bit (ucast b XOR push_bit 8 w) n"
    using bit_imp_le_length [of b n] by (auto simp: bit_simps)
qed

lemma tail_loop_eq:
  "p + i + n \<le> length buf \<Longrightarrow>
   tail_loop buf p n i k = Some (k XOR push_bit (i * 8) (le_word (take n (drop (p + i) buf))))"
proof (induction n arbitrary: i k)
  case 0
  then show ?case by simp
next
  case (Suc n)
  then have "drop (p + i) buf = buf ! (p + i) # drop (Suc (p + i)) buf"
    by (simp add: Cons_nth_drop_Suc)
  with Suc show ?case
    by (simp add: ucast_or_push_bit push_bit_xor xor.assoc add.commute mult.commute)
qed

lemma le_word_3:
  "le_word [b0, b1, b2] = ucast b0 XOR push_bit 8 (ucast b1) XOR push_bit 16 (ucast b2 :: 'a::len word)"
  by (simp only: le_word.simps ucast_or_push_bit) (simp add: push_bit_xor xor.assoc)

lemma x86_32_tail_eq:
  assumes "rem < 4" and "tail + rem \<le> length buf"
  shows "x86_32_tail buf tail rem h = Some (murmur3_ref_blocks h (take rem (drop tail buf)))"
proof -
  consider "rem = 0" | "rem = 1" | "rem = 2" | "rem = 3" using assms(1) by linarith
  then show ?thesis
  proof cases
    case 1 then show ?thesis by (simp add: x86_32_tail_def)
  next
    case 2
    with assms(2) have "take rem (drop tail buf) = [buf ! tail]"
      by (simp add: take_Suc_conv_app_nth)
    with 2 assms(2) show ?thesis by (simp add: x86_32_tail_def)
  next
    case 3
    with assms(2) have "take rem (drop tail buf) = [buf ! tail, buf ! (tail + 1)]"
      by (simp add: numeral_2_eq_2 take_Suc_conv_app_nth)
    with 3 assms(2) show ?thesis
      by (simp add: x86_32_tail_def ucast_or_push_bit xor.commute)
  next
    case 4
    with assms(2) have "take rem (drop tail buf) = [buf ! tail, buf ! (tail + 1), buf ! (tail + 2)]"
      by (simp add: numeral_3_eq_3 take_Suc_conv_app_nth)
    with 4 assms(2) show ?thesis
      by (simp add: x86_32_tail_def le_word_3 xor.commute xor.left_commute del: le_word.simps)
  qed
qed

lemma getblock32_Some:
  "p + 4 * i + 4 \<le> length buf \<Longrightarrow> getblock32 buf p i = Some (le_word (take 4 (drop (p + 4 * i) buf)))"
  by (simp add: getblock32_def read_at_def)

lemma murmur3_ref_blocks_append:
  "length bs = 4 \<Longrightarrow> murmur3_ref_blocks h (bs @ cs) = murmur3_ref_blocks (x86_32_h1 h (le_word bs)) cs"
  by (auto simp: numeral_eq_Suc length_Suc_conv simp del: le_word.simps)

lemma x86_32_body_eq:
  assumes "4 * i + 4 * n \<le> length buf"
  shows "\<exists>h'. x86_32_body buf n i h = Some h' \<and>
    (\<forall>cs. murmur3_ref_blocks h (take (4 * n) (drop (4 * i) buf) @ cs) = murmur3_ref_blocks h' cs)"
  using assms
proof (induction n arbitrary: i h)
  case 0
  then show ?case by simp
next
  case (Suc n)
  define b where "b = take 4 (drop (4 * i) buf)"
  have split: "take (4 * Suc n) (drop (4 * i) buf) = b @ take (4 * n) (drop (4 * Suc i) buf)"
    by (simp add: b_def take_add add.commute)
  have "length b = 4" using Suc.prems by (simp add: b_def)
  moreover have "getblock32 buf 0 i = Some (le_word b)"
    using Suc.prems by (simp add: getblock32_Some b_def)
  moreover have "4 * Suc i + 4 * n \<le> length buf" using Suc.prems by simp
  ultimately show ?case
    unfolding split using Suc.IH [of "Suc i" "x86_32_h1 h (le_word b)"]
    by (simp add: murmur3_ref_blocks_append del: murmur3_ref_blocks.simps)
qed

lemma murmurhash3_x86_32_ref:
  assumes "len \<le> length buf"
  shows "murmurhash3_x86_32 buf len seed = Some (murmur3_ref seed (take len buf))"
proof -
  define n where "n = len div 4"
  have len: "len = 4 * n + len mod 4" by (simp add: n_def)
  obtain h' where h': "x86_32_body buf n 0 seed = Some h'"
    and app: "\<And>cs. murmur3_ref_blocks seed (take (4 * n) buf @ cs) = murmur3_ref_blocks h' cs"
    using x86_32_body_eq [of 0 n buf seed] assms len by auto
  have "x86_32_tail buf (n * 4) (len mod 4) h' =
      Some (murmur3_ref_blocks h' (take (len mod 4) (drop (n * 4) buf)))"
    using assms len by (intro x86_32_tail_eq) auto
  moreover have "take (4 * n) buf @ take (len mod 4) (drop (n * 4) buf) = take len buf"
    using len by (metis mult.commute take_add)
  then have "murmur3_ref_blocks h' (take (len mod 4) (drop (n * 4) buf)) =
      murmur3_ref_blocks seed (take len buf)"
    by (metis app)
  ultimately show ?thesis
    using h' assms by (simp add: murmurhash3_x86_32_def murmur3_ref_def flip: n_def)
qed


lemma murmur3_ref_inj_short:
  assumes "length xs = length ys" and "length xs \<le> 4" and "murmur3_ref seed xs = murmur3_ref seed ys"
  shows "xs = ys"
proof -
  have eq: "murmur3_ref_blocks seed xs = murmur3_ref_blocks seed ys"
    using assms(1,3) xor_left_eq_iff [of "word_of_nat (length ys) :: u32"]
    by (simp add: murmur3_ref_def xor.commute)
  have "(le_word xs :: u32) = le_word ys"
  proof (cases "length xs = 4")
    case True
    then show ?thesis
      using eq assms(1) murmur3_ref_blocks_append [of xs seed "[]"] murmur3_ref_blocks_append [of ys seed "[]"]
      by simp
  next
    case False
    have short: "length zs < 4 \<Longrightarrow> zs \<noteq> [] \<Longrightarrow> murmur3_ref_blocks seed zs = seed XOR x86_32_k1 (le_word zs)" for zs
      by (cases "(seed, zs)" rule: murmur3_ref_blocks.cases) auto
    show ?thesis
      using False assms(1,2) eq short [of xs] short [of ys] by (cases "xs = []"; cases "ys = []") auto
  qed
  moreover have "8 * length xs \<le> LENGTH(32)" using assms(2) by simp
  ultimately show ?thesis
    using assms(1) by (metis le_bytes_le_word)
qed

lemma getblock64_Some:
  "p + 8 * i + 8 \<le> length buf \<Longrightarrow> getblock64 buf p i = Some (le_word (take 8 (drop (p + 8 * i) buf)))"
  by (simp add: getblock64_def read_at_def)

lemma x64_128_body_Some: "16 * (i + n) \<le> length buf \<Longrightarrow> \<exists>h'. x64_128_body buf n i h = Some h'"
  by (induction n arbitrary: i h) (auto simp: getblock64_Some)

lemma x64_128_tail_Some: "tail + rem \<le> length buf \<Longrightarrow> rem < 16 \<Longrightarrow> \<exists>h'. x64_128_tail buf tail rem h = Some h'"
  by (cases h) (simp add: x64_128_tail_def tail_word64_def tail_loop_eq)

lemma x86_128_tail_Some: "tail + rem \<le> length buf \<Longrightarrow> rem < 16 \<Longrightarrow> \<exists>h'. x86_128_tail buf tail rem h = Some h'"
  by (cases h) (simp add: x86_128_tail_def tail_word32_def tail_loop_eq)

lemma murmurhash3_x64_128_Some:
  assumes "len \<le> length buf"
  shows "\<exists>h. murmurhash3_x64_128 buf len seed = Some h"
proof -
  have "16 * (len div 16) \<le> length buf" using assms by simp
  then obtain h where h: "x64_128_body buf (len div 16) 0 (ucast seed, ucast seed) = Some h"
    using x64_128_body_Some [of 0 "len div 16" buf "(ucast seed, ucast seed)"] by auto
  have "len div 16 * 16 + len mod 16 \<le> length buf" using assms by simp
  then obtain h' where "x64_128_tail buf (len div 16 * 16) (len mod 16) h = Some h'"
    using x64_128_tail_Some [of "len div 16 * 16" "len mod 16" buf h] by auto
  with h show ?thesis by (simp add: murmurhash3_x64_128_def)
qed

section \<open>Properties\<close>

text \<open>
  C34. The 32-bit hash is the reference definition applied to the first \<open>len\<close> bytes: it consumes the
  4-byte little-endian blocks in order, folds in the 0 to 3 tail bytes as one little-endian word and
  finalizes with the length. In particular it reads nothing outside the first \<open>len\<close> bytes.
\<close>
theorem murmurhash3_x86_32_reference:
  "len \<le> length buf \<Longrightarrow>
   murmurhash3_x86_32 buf len seed = Some (murmur3_ref seed (take len buf))"
  by (rule murmurhash3_x86_32_ref)

theorem murmurhash3_x86_32_reference_witness:
  "murmurhash3_x86_32 (bytes_of ''hello, ring'') 5 42 = Some 0xe2dbd2e1 \<and>
   murmur3_ref 42 (bytes_of ''hello'') = 0xe2dbd2e1"
proof -
  have "murmurhash3_x86_32 (bytes_of ''hello, ring'') 5 42 =
      Some (murmur3_ref 42 (take 5 (bytes_of ''hello, ring'')))"
    by (rule murmurhash3_x86_32_reference) simp
  moreover have "take 5 (bytes_of ''hello, ring'') = bytes_of ''hello''" by (simp add: bytes_of_def)
  moreover have "murmur3_ref 42 (bytes_of ''hello'') = 0xe2dbd2e1" by code_simp
  ultimately show ?thesis by simp
qed

text \<open>
  Both finalizers are permutations of their word: no two intermediate states are merged by them,
  so the finalizer adds no collision to a hash.
\<close>
theorem fmix_bijective: "bij fmix32 \<and> bij fmix64"
proof -
  have "inj fmix32" and "inj fmix64" by (auto intro: injI)
  then show ?thesis by (simp add: bij_def finite_UNIV_inj_surj)
qed

text \<open>
  The 64-bit variant stays inside the key it is given, for every length the buffer holds.
\<close>
theorem murmurhash3_x64_128_in_bounds:
  "len \<le> length buf \<Longrightarrow> \<exists>h. murmurhash3_x64_128 buf len seed = Some h"
  by (rule murmurhash3_x64_128_Some)

theorem murmurhash3_x64_128_in_bounds_witness:
  "\<exists>h. murmurhash3_x64_128 (bytes_of ''seventeen bytes!!'') 17 7 = Some h"
  by (rule murmurhash3_x64_128_in_bounds) simp

text \<open>
  C35. The x86 128-bit variant indexes upwards from the end of the blocks (the reference
  implementation indexes them with negative offsets), so for every key of at least 16 bytes it reads
  past the end of the key; for shorter keys there is no block and it stays inside.
\<close>
theorem murmurhash3_x86_128_out_of_bounds:
  "murmurhash3_x86_128 buf (length buf) seed = None \<longleftrightarrow> 16 \<le> length buf"
proof (cases "16 \<le> length buf")
  case True
  define b where "b = length buf div 16 * 16"
  from True obtain n where n: "length buf div 16 = Suc n"
    by (cases "length buf div 16") (simp_all add: div_eq_0_iff)
  have "length buf < b + 16"
    using mod_less_divisor [of 16 "length buf"] div_mult_mod_eq [of "length buf" 16] by (simp add: b_def)
  then have "getblock32 buf b 3 = None" by (simp add: getblock32_def read_at_None_iff)
  then have "x86_128_body buf b (Suc n) 0 h = None" for h by simp
  with True n show ?thesis by (simp add: murmurhash3_x86_128_def b_def)
next
  case False
  then obtain h' where "x86_128_tail buf 0 (length buf) (seed, seed, seed, seed) = Some h'"
    using x86_128_tail_Some [of 0 "length buf" buf "(seed, seed, seed, seed)"] by auto
  with False show ?thesis by (simp add: murmurhash3_x86_128_def)
qed

end
