(* ===== verification/Node.thy ===== *)
theory Node
  imports Prelude
begin

text \<open>
  \<open>src/membership/node_info.h\<close>: node identities, node states and what the cluster knows of a node,
  and \<open>src/hash/hasher.h\<close>'s canonical name of a virtual node.

  Both enumerations the code compares with \<open>static_cast<uint8_t>\<close> are linear orders by their
  enumerator value; \<open>state_supersedes\<close> is the strict order. A time point of the steady clock is a
  natural number of nanoseconds, and reading the clock is an argument of the operations that do it.
\<close>

datatype node_state = Alive | Suspect | Dead | Left

record node_id =
  node_host :: string
  node_port :: u16

type_synonym time_point = nat

record node_info =
  info_id :: node_id
  info_data_port :: u16
  info_state :: node_state
  info_incarnation :: u64
  info_last_change :: time_point

fun node_state_val :: "node_state \<Rightarrow> u8" where
  "node_state_val Alive = 0"
| "node_state_val Suspect = 1"
| "node_state_val Dead = 2"
| "node_state_val Left = 3"

definition state_supersedes :: "node_state \<Rightarrow> node_state \<Rightarrow> bool" where
  "state_supersedes proposed current = (node_state_val proposed > node_state_val current)"

text \<open>\<open>NodeInfo info;\<close> with the member initializers of the struct.\<close>

definition default_node_info :: "node_id \<Rightarrow> time_point \<Rightarrow> node_info" where
  "default_node_info nid now =
     \<lparr>info_id = nid, info_data_port = 0, info_state = Alive, info_incarnation = 0, info_last_change = now\<rparr>"

lemma node_state_val_inj [simp]: "node_state_val a = node_state_val b \<longleftrightarrow> a = b"
  by (cases a; cases b) simp_all

instantiation node_state :: linorder
begin

definition less_eq_node_state :: "node_state \<Rightarrow> node_state \<Rightarrow> bool" where
  "less_eq_node_state a b = (node_state_val a \<le> node_state_val b)"

definition less_node_state :: "node_state \<Rightarrow> node_state \<Rightarrow> bool" where
  "less_node_state a b = (node_state_val a < node_state_val b)"

instance
  by standard (auto simp: less_eq_node_state_def less_node_state_def order_less_le)

end

lemma state_supersedes_iff [simp]: "state_supersedes p c \<longleftrightarrow> c < p"
  by (simp add: state_supersedes_def less_node_state_def)

lemma node_state_order [simp]:
  "Alive < Suspect" "Alive < Dead" "Alive < Left" "Suspect < Dead" "Suspect < Left" "Dead < Left"
  "\<not> s < Alive" "Alive \<le> s"
  by (cases s; simp add: less_node_state_def less_eq_node_state_def)+

section \<open>Canonical names of virtual nodes\<close>

text \<open>\<open>std::format("{}:{}#{}", node.host, node.gossip_port, vnode_index)\<close>\<close>

definition vnode_name :: "node_id \<Rightarrow> u32 \<Rightarrow> string" where
  "vnode_name node i =
     node_host node @ '':'' @ dec_string (unat (node_port node)) @ ''#'' @ dec_string (unat i)"

lemma split_at_last:
  assumes "xs @ c # ys = xs' @ c # ys'" and "c \<notin> set ys" and "c \<notin> set ys'"
  shows "xs = xs' \<and> ys = ys'"
  using assms by (auto simp: append_eq_append_conv2 Cons_eq_append_conv append_eq_Cons_conv)

lemma vnode_name_inj:
  assumes "vnode_name a i = vnode_name b j"
  shows "a = b \<and> i = j"
proof -
  have split: "node_host a @ CHR '':'' # dec_string (unat (node_port a)) = node_host b @ CHR '':'' # dec_string (unat (node_port b))
    \<and> dec_string (unat i) = dec_string (unat j)"
    using assms by (intro split_at_last [where c = "CHR ''#''"]) (simp_all add: vnode_name_def)
  then have "unat i = unat j" using dec_string_inj by blast
  moreover have "node_host a = node_host b \<and> dec_string (unat (node_port a)) = dec_string (unat (node_port b))"
    using split by (intro split_at_last [where c = "CHR '':''"]) simp_all
  then have "node_host a = node_host b" and "unat (node_port a) = unat (node_port b)"
    using dec_string_inj by blast+
  ultimately show ?thesis by (simp add: word_unat_eq_iff)
qed

end
