(* ===== verification/Hasher.thy ===== *)
theory Hasher
  imports Murmur Node
begin

text \<open>
  \<open>src/hash/hasher.h\<close>: the ring position of a key and of a virtual node. \<open>out\<close> is initialised to 0
  and written by the hash; the hash never reads outside its key, so the initial value is never
  returned (\<open>hash_key_eq\<close>, \<open>hash_node_token_eq\<close>).
\<close>

definition kDefaultHashSeed :: u32 where
  "kDefaultHashSeed = 0x5EED"

definition hash_key :: "string \<Rightarrow> u32" where
  "hash_key key =
     (case murmurhash3_x86_32 (bytes_of key) (length key) kDefaultHashSeed of
        None \<Rightarrow> 0
      | Some out \<Rightarrow> out)"

definition hash_node_token :: "node_id \<Rightarrow> u32 \<Rightarrow> u32" where
  "hash_node_token node vnode_index =
     (let canonical = vnode_name node vnode_index in
      case murmurhash3_x86_32 (bytes_of canonical) (length canonical) kDefaultHashSeed of
        None \<Rightarrow> 0
      | Some out \<Rightarrow> out)"

lemma hash_key_eq: "hash_key key = murmur3_ref kDefaultHashSeed (bytes_of key)"
  by (simp add: hash_key_def murmurhash3_x86_32_ref)

lemma hash_node_token_eq: "hash_node_token node i = hash_key (vnode_name node i)"
  by (simp add: hash_node_token_def hash_key_def Let_def)

text \<open>
  Two different keys of the same length of at most four bytes never get the same ring position:
  on such keys every step of the hash is invertible.
\<close>
theorem hash_key_no_collision_short:
  "length k1 = length k2 \<Longrightarrow> length k1 \<le> 4 \<Longrightarrow> hash_key k1 = hash_key k2 \<Longrightarrow> k1 = k2"
  using murmur3_ref_inj_short [of "bytes_of k1" "bytes_of k2"] by (simp add: hash_key_eq)

theorem hash_key_no_collision_short_witness:
  "hash_key ''abcd'' \<noteq> hash_key ''abce''"
  using hash_key_no_collision_short [of "''abcd''" "''abce''"] by auto

text \<open>
  The canonical name a virtual node is hashed under determines the node and the index, whatever
  characters the host name contains: two virtual nodes share a token only by a collision of the hash
  itself.
\<close>
theorem vnode_name_unambiguous: "vnode_name a i = vnode_name b j \<longleftrightarrow> a = b \<and> i = j"
  using vnode_name_inj by blast

end
