(* ===== verification/StdMap.thy ===== *)
theory StdMap
  imports Prelude
begin

text \<open>
  \<open>std::map\<close> as the code uses it, and the interface of a clockwise lookup on the 32-bit ring.

  A map is the list of its entries in key order, which is the order an iterator visits them in. An
  iterator is the suffix of entries from it to \<open>end()\<close>, so \<open>end()\<close> is the empty suffix and
  \<open>begin()\<close> the whole list.

  The locale \<open>clockwise_ring\<close> states what the users of a hash ring rely on: the owner of a position
  is the value stored at the nearest token clockwise, where the clockwise distance from \<open>h\<close> to \<open>t\<close>
  is the wrapping difference \<open>t - h\<close>. What consistent hashing promises when tokens come and go is
  proved once from that law; the server's ring, the migration planner and the client's ring are
  instances.
\<close>

section \<open>Operations\<close>

definition map_ok :: "('k::linorder \<times> 'v) list \<Rightarrow> bool" where
  "map_ok m = sorted_wrt (<) (map fst m)"

text \<open>\<open>m[k] = v\<close>\<close>

fun map_assign :: "'k::linorder \<Rightarrow> 'v \<Rightarrow> ('k \<times> 'v) list \<Rightarrow> ('k \<times> 'v) list" where
  "map_assign k v [] = [(k, v)]"
| "map_assign k v (e # m) =
     (if k < fst e then (k, v) # e # m
      else if fst e < k then e # map_assign k v m
      else (k, v) # m)"

text \<open>\<open>std::erase_if(m, P)\<close>\<close>

definition map_erase_if :: "('k \<times> 'v \<Rightarrow> bool) \<Rightarrow> ('k \<times> 'v) list \<Rightarrow> ('k \<times> 'v) list" where
  "map_erase_if P m = filter (\<lambda>e. \<not> P e) m"

text \<open>\<open>m.lower_bound(k)\<close>\<close>

definition lower_bound :: "'k::linorder \<Rightarrow> ('k \<times> 'v) list \<Rightarrow> ('k \<times> 'v) list" where
  "lower_bound k m = dropWhile (\<lambda>e. fst e < k) m"

section \<open>Lemmas\<close>

lemma map_ok_Nil [simp]: "map_ok []"
  by (simp add: map_ok_def)

lemma map_ok_Cons: "map_ok (e # m) \<longleftrightarrow> (\<forall>k \<in> fst ` set m. fst e < k) \<and> map_ok m"
  by (auto simp: map_ok_def)

lemma keys_map_assign [simp, std_simps]: "fst ` set (map_assign k v m) = insert k (fst ` set m)"
  by (induction m) auto

lemma map_ok_assign [simp, std_simps]: "map_ok m \<Longrightarrow> map_ok (map_assign k v m)"
  by (induction m) (auto simp: map_ok_Cons)

lemma map_of_None_below: "map_ok (e # m) \<Longrightarrow> k \<le> fst e \<Longrightarrow> map_of m k = None"
  by (fastforce simp: map_ok_Cons map_of_eq_None_iff)

lemma map_of_assign [simp, std_simps]:
  "map_ok m \<Longrightarrow> map_of (map_assign k v m) = (map_of m)(k \<mapsto> v)"
proof (induction m)
  case Nil
  then show ?case by auto
next
  case (Cons e m)
  then have "map_ok m" by (simp add: map_ok_Cons)
  with Cons show ?case by (cases e) (auto simp: fun_eq_iff)
qed

lemma map_ok_erase_if [simp, std_simps]: "map_ok m \<Longrightarrow> map_ok (map_erase_if P m)"
  by (induction m) (auto simp: map_erase_if_def map_ok_Cons)

lemma map_ok_distinct: "map_ok m \<Longrightarrow> distinct (map fst m)"
  by (simp add: map_ok_def strict_sorted_iff)

lemma map_of_erase_if [std_simps]:
  assumes "map_ok m"
  shows "map_of (map_erase_if P m) k = (case map_of m k of None \<Rightarrow> None | Some v \<Rightarrow> if P (k, v) then None else Some v)"
  using assms
proof (induction m)
  case Nil
  then show ?case by (simp add: map_erase_if_def)
next
  case (Cons e m)
  show ?case
  proof (cases "k = fst e")
    case True
    have "map_of (map_erase_if P m) k = None"
      using map_of_None_below [OF Cons.prems, of k] True Cons by (simp add: map_ok_Cons)
    then show ?thesis using True by (cases e) (auto simp: map_erase_if_def)
  next
    case False
    then show ?thesis using Cons by (cases e) (auto simp: map_erase_if_def map_ok_Cons)
  qed
qed

lemma lower_bound_eq_NilD: "lower_bound h m = [] \<Longrightarrow> (t, v) \<in> set m \<Longrightarrow> t < h"
  by (auto simp: lower_bound_def)

lemma lower_bound_split:
  assumes "lower_bound h m = e # it"
  shows "\<exists>pre. m = pre @ e # it \<and> (\<forall>x \<in> set pre. fst x < h) \<and> h \<le> fst e"
proof (intro exI conjI)
  show "m = takeWhile (\<lambda>e. fst e < h) m @ e # it"
    using assms by (metis lower_bound_def takeWhile_dropWhile_id)
  show "\<forall>x \<in> set (takeWhile (\<lambda>e. fst e < h) m). fst x < h"
    by (auto dest: set_takeWhileD)
  show "h \<le> fst e" using assms by (auto simp: lower_bound_def dropWhile_eq_Cons_conv)
qed

lemma lower_bound_eq_ConsD:
  assumes "map_ok m" and "lower_bound h m = e # it"
  shows "e \<in> set m" and "h \<le> fst e" and "(t, v) \<in> set m \<Longrightarrow> h \<le> t \<Longrightarrow> fst e \<le> t"
proof -
  obtain pre where m: "m = pre @ e # it" and pre: "\<forall>x \<in> set pre. fst x < h" and "h \<le> fst e"
    using lower_bound_split [OF assms(2)] by blast
  then show "e \<in> set m" and "h \<le> fst e" by simp_all
  assume "(t, v) \<in> set m" and "h \<le> t"
  then have "(t, v) = e \<or> (t, v) \<in> set it" using pre m by fastforce
  moreover have "map_ok (e # it)" using assms(1) m by (simp add: map_ok_def sorted_wrt_append)
  ultimately show "fst e \<le> t" by (auto simp: map_ok_Cons less_imp_le)
qed

section \<open>The nearest token clockwise\<close>

text \<open>\<open>it = m.lower_bound(h); if (it == m.end()) it = m.begin();\<close> and the entry at \<open>it\<close>.\<close>

definition wrap_entry :: "u32 \<Rightarrow> (u32 \<times> 'v) list \<Rightarrow> u32 \<times> 'v" where
  "wrap_entry h m = (case lower_bound h m of [] \<Rightarrow> hd m | e # _ \<Rightarrow> e)"

lemma clockwise_le:
  fixes h t t' :: u32
  shows "h \<le> t \<Longrightarrow> t \<le> t' \<Longrightarrow> t - h \<le> t' - h"
    and "t \<le> t' \<Longrightarrow> t' < h \<Longrightarrow> t - h \<le> t' - h"
    and "h \<le> t \<Longrightarrow> t' < h \<Longrightarrow> t - h \<le> t' - h"
  using unat_u32_less [of h] unat_u32_less [of t] unat_u32_less [of t']
  by (auto simp: word_le_nat_alt word_less_nat_alt unat_sub_if' simp del: unat_u32_less)

lemma wrap_entry_nearest:
  assumes "map_ok m" and "m \<noteq> []"
  shows "wrap_entry h m \<in> set m"
    and "(t, v) \<in> set m \<Longrightarrow> fst (wrap_entry h m) - h \<le> t - h"
proof -
  obtain e0 m0 where m: "m = e0 # m0" using assms(2) by (cases m) auto
  show "wrap_entry h m \<in> set m"
    using m lower_bound_eq_ConsD(1) [OF assms(1)] by (auto simp: wrap_entry_def split: list.splits)
  assume tv: "(t, v) \<in> set m"
  show "fst (wrap_entry h m) - h \<le> t - h"
  proof (cases "lower_bound h m")
    case Nil
    have "fst e0 \<le> t" using tv assms(1) m by (auto simp: map_ok_Cons less_imp_le)
    moreover have "t < h" using lower_bound_eq_NilD [OF Nil tv] .
    ultimately show ?thesis using Nil m by (simp add: wrap_entry_def clockwise_le(2))
  next
    case (Cons e it)
    note lb = lower_bound_eq_ConsD [OF assms(1) Cons]
    show ?thesis
    proof (cases "h \<le> t")
      case True
      with lb tv Cons show ?thesis by (simp add: wrap_entry_def clockwise_le(1))
    next
      case False
      with lb tv Cons show ?thesis by (simp add: wrap_entry_def clockwise_le(3))
    qed
  qed
qed

section \<open>The interface of a consistent-hashing ring\<close>

locale clockwise_ring =
  fixes tokens :: "'r \<Rightarrow> u32 \<Rightarrow> 'v option"
    and owner :: "'r \<Rightarrow> u32 \<Rightarrow> 'v option"
    and ok :: "'r \<Rightarrow> bool"
  assumes owner_empty: "ok r \<Longrightarrow> tokens r = Map.empty \<Longrightarrow> owner r h = None"
    and owner_nearest: "ok r \<Longrightarrow> tokens r \<noteq> Map.empty \<Longrightarrow>
      \<exists>t v. tokens r t = Some v \<and> owner r h = Some v \<and> (\<forall>t' \<in> dom (tokens r). t - h \<le> t' - h)"
begin

lemma owner_eq:
  assumes "ok r" and "tokens r t = Some v" and "\<And>t'. t' \<in> dom (tokens r) \<Longrightarrow> t - h \<le> t' - h"
  shows "owner r h = Some v"
proof -
  have "tokens r \<noteq> Map.empty" using assms(2) by auto
  then obtain u w where u: "tokens r u = Some w" "owner r h = Some w"
    and min: "\<forall>t' \<in> dom (tokens r). u - h \<le> t' - h"
    using owner_nearest [OF assms(1)] by blast
  have "u - h = t - h" using assms(2,3) u(1) min by (metis domI order_antisym)
  then have "u = t" by simp
  with u assms(2) show ?thesis by simp
qed

lemma owner_cong:
  assumes "ok r" and "ok r'" and "tokens r = tokens r'"
  shows "owner r h = owner r' h"
proof (cases "tokens r' = Map.empty")
  case True
  with assms show ?thesis by (simp add: owner_empty)
next
  case False
  then obtain t v where "tokens r' t = Some v" "owner r' h = Some v" "\<forall>t' \<in> dom (tokens r'). t - h \<le> t' - h"
    using owner_nearest [OF assms(2)] by blast
  moreover from this have "owner r h = Some v" using assms by (intro owner_eq [of r t]) auto
  ultimately show ?thesis by simp
qed

lemma owner_None_iff:
  assumes "ok r"
  shows "owner r h = None \<longleftrightarrow> tokens r = Map.empty"
proof (cases "tokens r = Map.empty")
  case False
  then show ?thesis using owner_nearest [OF assms, of h] by auto
qed (simp add: assms owner_empty)

lemma owner_in_ran:
  assumes "ok r" and "owner r h = Some v"
  shows "v \<in> ran (tokens r)"
proof -
  have "tokens r \<noteq> Map.empty" using assms owner_empty [of r h] by auto
  then show ?thesis using owner_nearest [OF assms(1), of h] assms(2) by (auto intro: ranI)
qed

lemma join_moves_to_joiner:
  assumes "ok r" and "ok r'" and join: "\<And>t. tokens r' t = (if t \<in> T then Some v else tokens r t)"
  shows "owner r' h = owner r h \<or> owner r' h = Some v"
proof (cases "tokens r' = Map.empty")
  case True
  then have "tokens r t = tokens r' t" for t using join [of t] by (auto split: if_splits)
  then have "tokens r = tokens r'" ..
  then show ?thesis using owner_cong [OF assms(1,2)] by simp
next
  case False
  then obtain t w where t: "tokens r' t = Some w" "owner r' h = Some w"
    and min: "\<forall>t' \<in> dom (tokens r'). t - h \<le> t' - h"
    using owner_nearest [OF assms(2)] by blast
  show ?thesis
  proof (cases "t \<in> T")
    case True
    with t join show ?thesis by simp
  next
    case False
    have "owner r h = Some w"
      by (rule owner_eq [OF assms(1)]) (use False t(1) join min in \<open>auto split: if_splits\<close>)
    with t show ?thesis by simp
  qed
qed

lemma leave_keeps_others:
  assumes "ok r" and "ok r'" and leave: "\<And>t. tokens r' t = (if tokens r t = Some v then None else tokens r t)"
    and "owner r h \<noteq> Some v"
  shows "owner r' h = owner r h"
proof (cases "tokens r = Map.empty")
  case True
  then have "tokens r = tokens r'" using leave by auto
  then show ?thesis using owner_cong [OF assms(1,2)] by simp
next
  case False
  then obtain t w where t: "tokens r t = Some w" "owner r h = Some w"
    and min: "\<forall>t' \<in> dom (tokens r). t - h \<le> t' - h"
    using owner_nearest [OF assms(1)] by blast
  have "owner r' h = Some w"
    by (rule owner_eq [OF assms(2)]) (use t min leave assms(4) in \<open>auto split: if_splits\<close>)
  with t show ?thesis by simp
qed

text \<open>Between \<open>h\<close> and a position \<open>b\<close> further clockwise there is no token: they have the same owner.\<close>

lemma owner_constant_between:
  assumes "ok r" and free: "\<And>t. t \<in> dom (tokens r) \<Longrightarrow> b - h \<le> t - h"
  shows "owner r h = owner r b"
proof (cases "tokens r = Map.empty")
  case True
  then show ?thesis using assms(1) by (simp add: owner_empty)
next
  case False
  then obtain t w where t: "tokens r t = Some w" "owner r b = Some w"
    and min: "\<forall>t' \<in> dom (tokens r). t - b \<le> t' - b"
    using owner_nearest [OF assms(1)] by blast
  have "t - h \<le> t' - h" if "t' \<in> dom (tokens r)" for t'
  proof -
    have le: "b - h \<le> t - h" "b - h \<le> t' - h" and "t - b \<le> t' - b"
      using that t(1) min free by blast+
    moreover have "unat (t - b) = unat (t - h) - unat (b - h)"
      using unat_sub [OF le(1)] by simp
    moreover have "unat (t' - b) = unat (t' - h) - unat (b - h)"
      using unat_sub [OF le(2)] by simp
    ultimately show ?thesis by (simp add: word_le_nat_alt)
  qed
  then have "owner r h = Some w" using owner_eq [OF assms(1) t(1)] by blast
  with t show ?thesis by simp
qed

end

end
