(* ===== verification/Ring.thy ===== *)
theory Ring
  imports Hasher StdMap
begin

text \<open>
  \<open>src/membership/ring_store.cpp\<close>: the consistent-hash ring of a node.

  The store publishes a \<open>shared_ptr<const Ring>\<close>; a writer clones the map, changes the clone and
  swaps the pointer under a mutex, and a reader works on the map it obtained. A published map is
  never written again, so the model's state is the value of the current map and a snapshot is that
  value. \<open>get_n_nodes_for_key\<close> walks an iterator round the map until it comes back to where it
  started; it is a partial function and its termination is part of the theorem about it.
\<close>

type_synonym ring = "(u32 \<times> node_id) list"

record ring_store =
  rs_ring :: ring

definition kDefaultVnodes :: u32 where
  "kDefaultVnodes = 128"

definition new_ring_store :: ring_store where
  "new_ring_store = \<lparr>rs_ring = []\<rparr>"

definition snapshot :: "ring_store \<Rightarrow> ring" where
  "snapshot s = rs_ring s"

definition ring_add_tokens :: "ring_store \<Rightarrow> node_id \<Rightarrow> u32 list \<Rightarrow> ring_store" where
  "ring_add_tokens s node tokens =
     s\<lparr>rs_ring := fold (\<lambda>token r. map_assign token node r) tokens (rs_ring s)\<rparr>"

definition vnode_tokens :: "node_id \<Rightarrow> u32 \<Rightarrow> u32 list" where
  "vnode_tokens node num_vnodes = map (\<lambda>i. hash_node_token node (word_of_nat i)) [0..<unat num_vnodes]"

definition ring_add_node :: "ring_store \<Rightarrow> node_id \<Rightarrow> u32 \<Rightarrow> ring_store" where
  "ring_add_node s node num_vnodes = ring_add_tokens s node (vnode_tokens node num_vnodes)"

definition ring_remove_node :: "ring_store \<Rightarrow> node_id \<Rightarrow> ring_store" where
  "ring_remove_node s node = s\<lparr>rs_ring := map_erase_if (\<lambda>pair. snd pair = node) (rs_ring s)\<rparr>"

definition get_node_for_key :: "ring_store \<Rightarrow> u32 \<Rightarrow> node_id option" where
  "get_node_for_key s hash =
     (let snap = snapshot s in
      if snap = [] then None
      else let it = lower_bound hash snap;
               it = (if it = [] then snap else it)
           in Some (snd (hd it)))"

text \<open>
  The \<open>do ... while (it != start)\<close> loop. \<open>it\<close> and \<open>start\<close> are suffixes of the map \<open>m\<close>; \<open>seen\<close> is
  the set of nodes already collected.
\<close>

partial_function (option) n_nodes_loop ::
  "(u32 \<times> 'v) list \<Rightarrow> (u32 \<times> 'v) list \<Rightarrow> nat \<Rightarrow> (u32 \<times> 'v) list \<Rightarrow> 'v list \<Rightarrow> 'v list \<Rightarrow> 'v list option"
where
  "n_nodes_loop m start n it seen result =
     (let v = snd (hd it);
          fresh = (v \<notin> set seen);
          seen = (if fresh then v # seen else seen);
          result = (if fresh then result @ [v] else result);
          it = tl it;
          it = (if it = [] then m else it)
      in if fresh \<and> length result = n then Some result
         else if it = start then Some result
         else n_nodes_loop m start n it seen result)"

definition get_n_nodes_for_key :: "ring_store \<Rightarrow> u32 \<Rightarrow> nat \<Rightarrow> node_id list option" where
  "get_n_nodes_for_key s hash n =
     (let snap = snapshot s in
      if snap = [] then Some []
      else let it = lower_bound hash snap;
               it = (if it = [] then snap else it)
           in n_nodes_loop snap it n it [] [])"

definition ring_size :: "ring_store \<Rightarrow> nat" where
  "ring_size s = length (snapshot s)"

section \<open>Invariant\<close>

definition ring_ok :: "ring_store \<Rightarrow> bool" where
  "ring_ok s = map_ok (rs_ring s)"

definition ring_tokens :: "ring_store \<Rightarrow> u32 \<Rightarrow> node_id option" where
  "ring_tokens s = map_of (rs_ring s)"

lemma fold_map_assign:
  assumes "map_ok m"
  shows "map_ok (fold (\<lambda>t r. map_assign t v r) ts m) \<and>
    map_of (fold (\<lambda>t r. map_assign t v r) ts m) = (\<lambda>t. if t \<in> set ts then Some v else map_of m t)"
  using assms by (induction ts arbitrary: m) (auto simp: fun_eq_iff)

lemma ring_ok_new [simp]: "ring_ok new_ring_store"
  by (simp add: ring_ok_def new_ring_store_def)

lemma ring_ok_add_tokens [simp]: "ring_ok s \<Longrightarrow> ring_ok (ring_add_tokens s node ts)"
  by (simp add: ring_ok_def ring_add_tokens_def fold_map_assign)

lemma ring_ok_add_node [simp]: "ring_ok s \<Longrightarrow> ring_ok (ring_add_node s node n)"
  by (simp add: ring_add_node_def)

lemma ring_ok_remove_node [simp]: "ring_ok s \<Longrightarrow> ring_ok (ring_remove_node s node)"
  by (simp add: ring_ok_def ring_remove_node_def)

lemma ring_tokens_new [simp]: "ring_tokens new_ring_store = Map.empty"
  by (simp add: ring_tokens_def new_ring_store_def)

lemma ring_tokens_add_tokens:
  "ring_ok s \<Longrightarrow> ring_tokens (ring_add_tokens s node ts) t = (if t \<in> set ts then Some node else ring_tokens s t)"
  by (simp add: ring_ok_def ring_tokens_def ring_add_tokens_def fold_map_assign)

lemma ring_tokens_remove_node:
  "ring_ok s \<Longrightarrow>
   ring_tokens (ring_remove_node s node) t = (if ring_tokens s t = Some node then None else ring_tokens s t)"
  by (auto simp: ring_ok_def ring_tokens_def ring_remove_node_def map_of_erase_if split: option.splits)

lemma ring_tokens_empty_iff: "ring_tokens s = Map.empty \<longleftrightarrow> rs_ring s = []"
  by (simp add: ring_tokens_def)

lemma get_node_for_key_wrap:
  "get_node_for_key s h = (if rs_ring s = [] then None else Some (snd (wrap_entry h (rs_ring s))))"
  by (simp add: get_node_for_key_def snapshot_def wrap_entry_def Let_def split: list.splits)

section \<open>The ring is a clockwise ring\<close>

interpretation server_ring: clockwise_ring ring_tokens get_node_for_key ring_ok
proof
  fix s h assume "ring_tokens s = Map.empty"
  then show "get_node_for_key s h = None" by (simp add: get_node_for_key_wrap ring_tokens_empty_iff)
next
  fix s h assume ok: "ring_ok s" and "ring_tokens s \<noteq> Map.empty"
  then have ne: "rs_ring s \<noteq> []" by (simp add: ring_tokens_empty_iff)
  obtain t v where e: "wrap_entry h (rs_ring s) = (t, v)" by fastforce
  note near = wrap_entry_nearest [OF ok [unfolded ring_ok_def] ne, where h = h]
  have "ring_tokens s t = Some v"
    using near(1) e ok by (simp add: ring_tokens_def ring_ok_def map_ok_distinct)
  moreover have "\<forall>t' \<in> dom (ring_tokens s). t - h \<le> t' - h"
    using near(2) e by (auto simp: ring_tokens_def dest: map_of_SomeD)
  ultimately show "\<exists>t v. ring_tokens s t = Some v \<and> get_node_for_key s h = Some v \<and>
      (\<forall>t' \<in> dom (ring_tokens s). t - h \<le> t' - h)"
    using ne e by (auto simp: get_node_for_key_wrap)
qed

section \<open>The clockwise walk\<close>

definition clockwise :: "u32 \<Rightarrow> (u32 \<times> 'v) list \<Rightarrow> (u32 \<times> 'v) list" where
  "clockwise h m = dropWhile (\<lambda>e. fst e < h) m @ takeWhile (\<lambda>e. fst e < h) m"

fun first_distinct :: "'v list \<Rightarrow> 'v list \<Rightarrow> 'v list" where
  "first_distinct seen [] = []"
| "first_distinct seen (v # vs) =
     (if v \<in> set seen then first_distinct seen vs else v # first_distinct (v # seen) vs)"

lemma first_distinct_props:
  "distinct (first_distinct seen vs) \<and> set (first_distinct seen vs) = set vs - set seen"
  by (induction vs arbitrary: seen) auto

lemma set_clockwise: "set (clockwise h m) = set m"
proof -
  have "set (takeWhile (\<lambda>e. fst e < h) m @ dropWhile (\<lambda>e. fst e < h) m) = set m"
    by (simp only: takeWhile_dropWhile_id)
  then show ?thesis by (auto simp add: clockwise_def simp del: takeWhile_dropWhile_id)
qed

text \<open>\<open>todo\<close> is what the loop still visits, from the iterator \<open>it\<close> up to the start.\<close>

definition walk :: "(u32 \<times> 'v) list \<Rightarrow> (u32 \<times> 'v) list \<Rightarrow> (u32 \<times> 'v) list \<Rightarrow> (u32 \<times> 'v) list \<Rightarrow> bool" where
  "walk m start it todo \<longleftrightarrow>
     start \<noteq> [] \<and> it \<noteq> [] \<and>
     (\<exists>pre. m = pre @ start \<and>
        ((\<exists>visited. start = visited @ it \<and> todo = it @ pre) \<or>
         (\<exists>visited. pre = visited @ todo \<and> todo \<noteq> [] \<and> it = todo @ start)))"

lemma walk_start: "m = pre @ start \<Longrightarrow> start \<noteq> [] \<Longrightarrow> walk m start start (start @ pre)"
  by (auto simp: walk_def)

lemma walk_step:
  assumes "walk m start it (e # todo)"
  defines "it' \<equiv> (if tl it = [] then m else tl it)"
  shows "hd it = e"
    and "todo = [] \<Longrightarrow> it' = start"
    and "todo \<noteq> [] \<Longrightarrow> it' \<noteq> start \<and> walk m start it' todo"
proof -
  obtain pre where m: "m = pre @ start" and ne: "start \<noteq> []" "it \<noteq> []"
    and cases: "(\<exists>visited. start = visited @ it \<and> e # todo = it @ pre) \<or>
      (\<exists>visited. pre = visited @ e # todo \<and> it = (e # todo) @ start)"
    using assms(1) by (auto simp: walk_def)
  from cases consider (tail) visited where "start = visited @ it" "e # todo = it @ pre"
    | (front) visited where "pre = visited @ e # todo" "it = (e # todo) @ start" by blast
  then have "hd it = e \<and> (if todo = [] then it' = start else it' \<noteq> start \<and> walk m start it' todo)"
  proof cases
    case tail
    then obtain it0 where it: "it = e # it0" "todo = it0 @ pre" using ne(2) by (cases it) auto
    show ?thesis
    proof (cases "it0 = []")
      case True
      with it m ne show ?thesis by (auto simp: it'_def walk_def)
    next
      case False
      then have "it' = it0" and "it0 \<noteq> start" using it tail by (auto simp: it'_def)
      moreover have "walk m start it0 todo"
        using False it tail m ne unfolding walk_def by (metis append.assoc append_Cons append_Nil)
      ultimately show ?thesis using it False by simp
    qed
  next
    case front
    then have "it' = todo @ start" using ne by (simp add: it'_def)
    moreover have "pre = (visited @ [e]) @ todo" using front by simp
    ultimately show ?thesis using front m ne unfolding walk_def by auto
  qed
  then show "hd it = e" and "todo = [] \<Longrightarrow> it' = start"
    and "todo \<noteq> [] \<Longrightarrow> it' \<noteq> start \<and> walk m start it' todo" by (auto split: if_splits)
qed

lemma n_nodes_loop_eq:
  assumes "walk m start it todo" and "todo \<noteq> []" and "n = 0 \<or> length result < n"
  shows "n_nodes_loop m start n it seen result =
    Some (let ns = result @ first_distinct seen (map snd todo) in if n = 0 then ns else take n ns)"
  using assms
proof (induction todo arbitrary: it seen result)
  case Nil
  then show ?case by simp
next
  case (Cons e todo)
  note step = walk_step [OF Cons.prems(1)]
  show ?case
  proof (cases "todo = []")
    case True
    with step Cons.prems(3) show ?thesis
      by (subst n_nodes_loop.simps) (auto simp: Let_def)
  next
    case False
    define it' where "it' = (if tl it = [] then m else tl it)"
    have "it' \<noteq> start" and "walk m start it' todo"
      using step(3) False by (simp_all add: it'_def)
    then have IH: "n = 0 \<or> length result < n \<Longrightarrow> n_nodes_loop m start n it' seen result =
        Some (let ns = result @ first_distinct seen (map snd todo) in if n = 0 then ns else take n ns)"
      for seen result using Cons.IH False by blast
    have IH0: "n = 0 \<Longrightarrow> n_nodes_loop m start 0 it' seen result =
        Some (result @ first_distinct seen (map snd todo))" for seen result
      using IH [of result seen] by (simp add: Let_def)
    show ?thesis
      using Cons.prems(3) \<open>it' \<noteq> start\<close>
      by (subst n_nodes_loop.simps, cases "n = 0") (auto simp: Let_def IH IH0 step(1) simp flip: it'_def)
  qed
qed

lemma n_nodes_loop_clockwise:
  assumes "m \<noteq> []"
  shows "(let it = lower_bound h m; it = (if it = [] then m else it) in n_nodes_loop m it n it [] []) =
    Some (let ns = first_distinct [] (map snd (clockwise h m)) in if n = 0 then ns else take n ns)"
proof -
  define start where "start = (if lower_bound h m = [] then m else lower_bound h m)"
  have "\<exists>pre. m = pre @ start \<and> clockwise h m = start @ pre"
  proof (cases "lower_bound h m = []")
    case True
    then have "dropWhile (\<lambda>e. fst e < h) m = []" by (simp only: lower_bound_def)
    moreover from this have "takeWhile (\<lambda>e. fst e < h) m = m" by (metis append_Nil2 takeWhile_dropWhile_id)
    ultimately show ?thesis using True by (simp only: start_def clockwise_def) simp
  next
    case False
    then show ?thesis
      by (auto simp: start_def clockwise_def lower_bound_def intro!: exI [of _ "takeWhile (\<lambda>e. fst e < h) m"])
  qed
  then obtain pre where pre: "m = pre @ start" "clockwise h m = start @ pre" by blast
  have "start \<noteq> []" using assms by (simp add: start_def)
  with pre n_nodes_loop_eq [OF walk_start [of m pre start]] show ?thesis
    by (simp add: start_def Let_def)
qed

lemma get_n_nodes_for_key_eq:
  "get_n_nodes_for_key s h n =
     Some (let ns = first_distinct [] (map snd (clockwise h (rs_ring s))) in if n = 0 then ns else take n ns)"
proof (cases "rs_ring s = []")
  case True
  then show ?thesis by (simp add: get_n_nodes_for_key_def snapshot_def clockwise_def)
next
  case False
  then show ?thesis using n_nodes_loop_clockwise [OF False, of h n] by (simp add: get_n_nodes_for_key_def snapshot_def Let_def)
qed

section \<open>Properties\<close>

text \<open>
  C19. Lookup: on a non-empty ring the owner of a position is the node stored at the nearest token
  clockwise, where going clockwise wraps from the largest position to 0; an empty ring has no owner.
\<close>
theorem get_node_for_key_nearest:
  assumes "ring_ok s"
  shows "if rs_ring s = [] then get_node_for_key s h = None
     else (\<exists>t v. get_node_for_key s h = Some v \<and> ring_tokens s t = Some v \<and>
             (\<forall>t'. ring_tokens s t' \<noteq> None \<longrightarrow> t - h \<le> t' - h))"
proof (cases "rs_ring s = []")
  case True
  then show ?thesis by (simp add: get_node_for_key_wrap)
next
  case False
  then show ?thesis using server_ring.owner_nearest [OF assms, of h] by (auto simp: ring_tokens_empty_iff dom_def)
qed

theorem get_node_for_key_nearest_witness:
  "get_node_for_key (ring_add_tokens (ring_add_tokens new_ring_store \<lparr>node_host = ''a'', node_port = 1\<rparr> [100, 300])
     \<lparr>node_host = ''b'', node_port = 1\<rparr> [200]) 301 = Some \<lparr>node_host = ''a'', node_port = 1\<rparr> \<and>
   (\<exists>t v. get_node_for_key (ring_add_tokens new_ring_store \<lparr>node_host = ''a'', node_port = 1\<rparr> [100]) 301 = Some v \<and>
      ring_tokens (ring_add_tokens new_ring_store \<lparr>node_host = ''a'', node_port = 1\<rparr> [100]) t = Some v)"
proof (intro conjI)
  show "\<exists>t v. get_node_for_key (ring_add_tokens new_ring_store \<lparr>node_host = ''a'', node_port = 1\<rparr> [100]) 301 = Some v \<and>
      ring_tokens (ring_add_tokens new_ring_store \<lparr>node_host = ''a'', node_port = 1\<rparr> [100]) t = Some v"
    using get_node_for_key_nearest [of "ring_add_tokens new_ring_store \<lparr>node_host = ''a'', node_port = 1\<rparr> [100]" 301]
    by (auto simp: ring_add_tokens_def new_ring_store_def ring_ok_def map_ok_def)
qed (simp add: get_node_for_key_def ring_add_tokens_def new_ring_store_def snapshot_def lower_bound_def)

text \<open>
  C20. Consistent hashing: when a node joins with any tokens, a position either keeps its owner or
  moves to the joining node; when a node leaves, the positions it did not own keep their owner.
\<close>
theorem ring_minimal_disruption:
  assumes "ring_ok s"
  shows "get_node_for_key (ring_add_tokens s node tokens) h \<in> {get_node_for_key s h, Some node} \<and>
    (get_node_for_key s h \<noteq> Some node \<longrightarrow>
       get_node_for_key (ring_remove_node s node) h = get_node_for_key s h)"
proof -
  have "get_node_for_key (ring_add_tokens s node tokens) h = get_node_for_key s h \<or>
      get_node_for_key (ring_add_tokens s node tokens) h = Some node"
    by (rule server_ring.join_moves_to_joiner [where T = "set tokens"]) (simp_all add: assms ring_tokens_add_tokens)
  moreover have "get_node_for_key (ring_remove_node s node) h = get_node_for_key s h"
    if "get_node_for_key s h \<noteq> Some node"
    by (rule server_ring.leave_keeps_others [where v = node]) (simp_all add: assms that ring_tokens_remove_node)
  ultimately show ?thesis by blast
qed

theorem ring_minimal_disruption_witness:
  "get_node_for_key (ring_remove_node (ring_add_tokens (ring_add_tokens new_ring_store
     \<lparr>node_host = ''a'', node_port = 1\<rparr> [100, 300]) \<lparr>node_host = ''b'', node_port = 1\<rparr> [200])
     \<lparr>node_host = ''b'', node_port = 1\<rparr>) 250 = Some \<lparr>node_host = ''a'', node_port = 1\<rparr>"
proof -
  define s where "s = ring_add_tokens (ring_add_tokens new_ring_store
     \<lparr>node_host = ''a'', node_port = 1\<rparr> [100, 300]) \<lparr>node_host = ''b'', node_port = 1\<rparr> [200]"
  have own: "get_node_for_key s 250 = Some \<lparr>node_host = ''a'', node_port = 1\<rparr>"
    by (simp add: s_def get_node_for_key_def ring_add_tokens_def new_ring_store_def snapshot_def lower_bound_def)
  have "ring_ok s" by (simp add: s_def)
  from ring_minimal_disruption [OF this, of "\<lparr>node_host = ''b'', node_port = 1\<rparr>" "[]" 250] own
  show ?thesis by (simp add: s_def)
qed

text \<open>
  C21. The replica walk always terminates and returns the distinct nodes in the order in which they
  are met clockwise from the position: the first \<open>n\<close> of them, or all of them when \<open>n\<close> is 0 (the
  bound is only tested after a node has been added). For \<open>n > 0\<close> the list has the length
  \<open>min n (number of nodes)\<close>.
\<close>
theorem get_n_nodes_for_key_walk:
  "\<exists>ns all. get_n_nodes_for_key s h n = Some ns \<and>
     all = first_distinct [] (map snd (clockwise h (rs_ring s))) \<and>
     ns = (if n = 0 then all else take n all) \<and>
     distinct all \<and> set all = snd ` set (rs_ring s) \<and>
     length ns = (if n = 0 then card (snd ` set (rs_ring s)) else min n (card (snd ` set (rs_ring s))))"
proof -
  define all where "all = first_distinct [] (map snd (clockwise h (rs_ring s)))"
  have "set (clockwise h (rs_ring s)) = set (rs_ring s)"
    by (rule set_clockwise)
  then have "distinct all" and all: "set all = snd ` set (rs_ring s)"
    using first_distinct_props [of "[]" "map snd (clockwise h (rs_ring s))"] by (simp_all add: all_def)
  then have "length all = card (snd ` set (rs_ring s))" using distinct_card [of all] by simp
  moreover have "get_n_nodes_for_key s h n = Some (if n = 0 then all else take n all)"
    by (simp add: get_n_nodes_for_key_eq Let_def all_def)
  ultimately show ?thesis using \<open>distinct all\<close> all all_def
    by (intro exI [of _ "if n = 0 then all else take n all"] exI [of _ all]) (simp add: min.commute)
qed
end
