(* ===== verification/Migration.thy ===== *)
theory Migration
  imports Ring
begin

text \<open>
  \<open>src/membership/ring_migration.cpp\<close>: the hash ranges whose owner differs between two rings. The
  main theorem is that the planned transfers are exactly the positions that changed hands: every
  such position lies in exactly one planned range, with the right source and target, and no other
  position lies in one.
\<close>

record range_migration =
  range_start :: u32
  range_end :: u32
  from_node :: node_id
  to_node :: node_id

definition owner_at :: "ring \<Rightarrow> u32 \<Rightarrow> node_id" where
  "owner_at ring hash =
     (let it = lower_bound hash ring;
          it = (if it = [] then ring else it)
      in snd (hd it))"

text \<open>The \<open>std::set<uint32_t>\<close> of all tokens, in order.\<close>

definition boundaries :: "ring \<Rightarrow> ring \<Rightarrow> u32 list" where
  "boundaries old_ring new_ring =
     fold insort_insert (map fst new_ring) (fold insort_insert (map fst old_ring) [])"

definition migration_step :: "ring \<Rightarrow> ring \<Rightarrow> u32 list \<Rightarrow> nat \<Rightarrow> range_migration list" where
  "migration_step old_ring new_ring srt i =
     (let curr = srt ! i;
          prev = (if i = 0 then last srt else srt ! (i - 1));
          old_owner = owner_at old_ring curr;
          new_owner = owner_at new_ring curr
      in if old_owner \<noteq> new_owner
         then [\<lparr>range_start = prev, range_end = curr, from_node = old_owner, to_node = new_owner\<rparr>]
         else [])"

definition compute_migrations :: "ring \<Rightarrow> ring \<Rightarrow> range_migration list" where
  "compute_migrations old_ring new_ring =
     (if old_ring = [] \<or> new_ring = [] then []
      else let srt = boundaries old_ring new_ring
           in concat (map (migration_step old_ring new_ring srt) [0..<length srt]))"

text \<open>The range of a transfer as the header documents it: \<open>(start, end]\<close>, wrapping when \<open>end <= start\<close>.\<close>

definition in_range :: "range_migration \<Rightarrow> u32 \<Rightarrow> bool" where
  "in_range r h =
     (if range_end r \<le> range_start r then range_start r < h \<or> h \<le> range_end r
      else range_start r < h \<and> h \<le> range_end r)"

section \<open>Boundaries\<close>

lemma fold_insort_insert:
  "sorted xs \<Longrightarrow> distinct xs \<Longrightarrow>
   sorted (fold insort_insert ts xs) \<and> distinct (fold insort_insert ts xs) \<and>
   set (fold insort_insert ts xs) = set ts \<union> set (xs :: 'a::linorder list)"
proof (induction ts arbitrary: xs)
  case Nil
  then show ?case by simp
next
  case (Cons t ts)
  then show ?case
    using Cons.IH [of "insort_insert t xs"]
    by (simp add: sorted_insort_insert distinct_insort_insert set_insort_insert)
qed

lemma boundaries_props:
  "sorted (boundaries old_ring new_ring) \<and> distinct (boundaries old_ring new_ring) \<and>
   set (boundaries old_ring new_ring) = fst ` set old_ring \<union> fst ` set new_ring"
  using fold_insort_insert [of "fold insort_insert (map fst old_ring) []" "map fst new_ring"]
    fold_insort_insert [of "[]" "map fst old_ring"]
  by (auto simp: boundaries_def)

text \<open>The index of the range a position falls in.\<close>

definition slot_of :: "u32 list \<Rightarrow> u32 \<Rightarrow> nat" where
  "slot_of srt h = (let j = length (takeWhile (\<lambda>b. b < h) srt) in if j < length srt then j else 0)"

lemma sorted_takeWhile_less:
  assumes "sorted srt" and "i < length srt"
  shows "srt ! i < h \<longleftrightarrow> i < length (takeWhile (\<lambda>b. b < (h :: 'a::linorder)) srt)"
proof
  assume "i < length (takeWhile (\<lambda>b. b < h) srt)"
  then show "srt ! i < h" using nth_mem [of i "takeWhile (\<lambda>b. b < h) srt"]
    by (auto simp: takeWhile_nth dest: set_takeWhileD)
next
  assume less: "srt ! i < h"
  show "i < length (takeWhile (\<lambda>b. b < h) srt)"
  proof (rule ccontr)
    assume "\<not> ?thesis"
    then have le: "length (takeWhile (\<lambda>b. b < h) srt) \<le> i" by simp
    then have "length (takeWhile (\<lambda>b. b < h) srt) < length srt" using assms(2) by simp
    then have "\<not> srt ! length (takeWhile (\<lambda>b. b < h) srt) < h" by (rule nth_length_takeWhile)
    moreover have "srt ! length (takeWhile (\<lambda>b. b < h) srt) \<le> srt ! i"
      using assms le by (simp add: sorted_nth_mono)
    ultimately show False using less by simp
  qed
qed

lemma in_range_slot:
  assumes "sorted srt" and "distinct srt" and "i < length srt"
    and "range_end r = srt ! i" and "range_start r = (if i = 0 then last srt else srt ! (i - 1))"
  shows "in_range r h \<longleftrightarrow> i = slot_of srt h"
proof -
  define j where "j = length (takeWhile (\<lambda>b. b < h) srt)"
  have less: "k < length srt \<Longrightarrow> srt ! k < h \<longleftrightarrow> k < j" for k
    unfolding j_def by (rule sorted_takeWhile_less [OF assms(1)])
  have "j \<le> length srt" by (simp add: j_def length_takeWhile_le)
  show ?thesis
  proof (cases i)
    case 0
    have last: "last srt = srt ! (length srt - 1)" using assms(3) by (intro last_conv_nth) auto
    have "srt ! 0 \<le> last srt" using assms(1,3) last by (simp add: sorted_nth_mono)
    then have "in_range r h \<longleftrightarrow> last srt < h \<or> h \<le> srt ! 0"
      using assms(4,5) 0 by (simp add: in_range_def)
    also have "\<dots> \<longleftrightarrow> length srt - 1 < j \<or> j = 0"
      using less [of "length srt - 1"] less [of 0] assms(3) last 0 by (auto simp: not_less)
    also have "\<dots> \<longleftrightarrow> slot_of srt h = 0"
      using \<open>j \<le> length srt\<close> assms(3) by (auto simp: slot_of_def Let_def simp flip: j_def)
    finally show ?thesis using 0 by auto
  next
    case (Suc k)
    have "\<not> srt ! i \<le> srt ! k"
      using assms(1,2,3) Suc sorted_wrt_nth_less [of "(<)" srt k i] by (simp add: strict_sorted_iff)
    then have "in_range r h \<longleftrightarrow> srt ! k < h \<and> h \<le> srt ! i"
      using assms(4,5) Suc by (simp add: in_range_def)
    also have "\<dots> \<longleftrightarrow> k < j \<and> \<not> i < j"
      using less [of k] less [of i] assms(3) Suc by (auto simp: not_less)
    also have "\<dots> \<longleftrightarrow> j = i" using Suc by auto
    also have "\<dots> \<longleftrightarrow> slot_of srt h = i"
      using Suc assms(3) by (auto simp: slot_of_def Let_def simp flip: j_def)
    finally show ?thesis by auto
  qed
qed

lemma slot_of_less: "srt \<noteq> [] \<Longrightarrow> slot_of srt h < length srt"
  by (simp add: slot_of_def Let_def)

lemma slot_of_nearest:
  assumes "sorted srt" and "t \<in> set srt"
  shows "srt ! slot_of srt h - h \<le> t - h"
proof -
  define j where "j = length (takeWhile (\<lambda>b. b < h) srt)"
  have less: "k < length srt \<Longrightarrow> srt ! k < h \<longleftrightarrow> k < j" for k
    unfolding j_def by (rule sorted_takeWhile_less [OF assms(1)])
  obtain i where i: "i < length srt" "t = srt ! i" using assms(2) by (metis in_set_conv_nth)
  show ?thesis
  proof (cases "j < length srt")
    case True
    then have slot: "slot_of srt h = j" by (simp add: slot_of_def Let_def flip: j_def)
    have "h \<le> srt ! j" using less [OF True] by (simp add: not_less)
    show ?thesis
    proof (cases "i < j")
      case True
      with i less [of i] \<open>h \<le> srt ! j\<close> slot show ?thesis by (simp add: clockwise_le(3))
    next
      case False
      then have "srt ! j \<le> t" using i assms(1) by (simp add: sorted_nth_mono)
      with \<open>h \<le> srt ! j\<close> slot show ?thesis by (simp add: clockwise_le(1))
    qed
  next
    case False
    then have "slot_of srt h = 0" by (simp add: slot_of_def Let_def flip: j_def)
    moreover have "srt ! 0 \<le> t" using i assms(1) by (simp add: sorted_nth_mono)
    moreover have "t < h" using less [OF i(1)] i False by simp
    ultimately show ?thesis by (simp add: clockwise_le(2))
  qed
qed

section \<open>Owners\<close>

lemma owner_at_server: "ring \<noteq> [] \<Longrightarrow> get_node_for_key \<lparr>rs_ring = ring\<rparr> h = Some (owner_at ring h)"
  by (simp add: get_node_for_key_def owner_at_def snapshot_def Let_def)

lemma owner_at_slot:
  assumes "map_ok ring" and "ring \<noteq> []" and "sorted srt" and "fst ` set ring \<subseteq> set srt"
  shows "owner_at ring h = owner_at ring (srt ! slot_of srt h)"
proof -
  have "get_node_for_key \<lparr>rs_ring = ring\<rparr> h = get_node_for_key \<lparr>rs_ring = ring\<rparr> (srt ! slot_of srt h)"
  proof (rule server_ring.owner_constant_between)
    show "ring_ok \<lparr>rs_ring = ring\<rparr>" using assms(1) by (simp add: ring_ok_def)
    fix t assume "t \<in> dom (ring_tokens \<lparr>rs_ring = ring\<rparr>)"
    then have "t \<in> set srt" using assms(4) by (auto simp: ring_tokens_def dest!: map_of_SomeD)
    then show "srt ! slot_of srt h - h \<le> t - h" by (rule slot_of_nearest [OF assms(3)])
  qed
  with assms(2) show ?thesis by (simp add: owner_at_server)
qed

lemma in_compute_migrations:
  assumes "old_ring \<noteq> []" and "new_ring \<noteq> []"
  defines "srt \<equiv> boundaries old_ring new_ring"
  shows "r \<in> set (compute_migrations old_ring new_ring) \<longleftrightarrow>
    (\<exists>i < length srt. r = \<lparr>range_start = (if i = 0 then last srt else srt ! (i - 1)), range_end = srt ! i,
       from_node = owner_at old_ring (srt ! i), to_node = owner_at new_ring (srt ! i)\<rparr> \<and>
     owner_at old_ring (srt ! i) \<noteq> owner_at new_ring (srt ! i))"
proof -
  have "set (compute_migrations old_ring new_ring) =
      (\<Union>i \<in> {0..<length srt}. set (migration_step old_ring new_ring srt i))"
    using assms(1,2) by (simp add: compute_migrations_def Let_def srt_def)
  then have "r \<in> set (compute_migrations old_ring new_ring) \<longleftrightarrow>
      (\<exists>i < length srt. r \<in> set (migration_step old_ring new_ring srt i))" by auto
  moreover have "r \<in> set (migration_step old_ring new_ring srt i) \<longleftrightarrow>
      r = \<lparr>range_start = (if i = 0 then last srt else srt ! (i - 1)), range_end = srt ! i,
       from_node = owner_at old_ring (srt ! i), to_node = owner_at new_ring (srt ! i)\<rparr> \<and>
      owner_at old_ring (srt ! i) \<noteq> owner_at new_ring (srt ! i)" for i
    by (simp add: migration_step_def Let_def)
  ultimately show ?thesis by simp
qed

section \<open>Properties\<close>

text \<open>
  C22. The migration plan between two non-empty rings is exact: a position lies in at most one planned
  range; it lies in one if and only if its owner differs between the rings; and the range it lies in
  names its old owner as the source and its new owner as the target.
\<close>
theorem compute_migrations_exact:
  assumes "map_ok old_ring" and "map_ok new_ring" and "old_ring \<noteq> []" and "new_ring \<noteq> []"
  shows "(\<forall>r \<in> set (compute_migrations old_ring new_ring). in_range r h \<longrightarrow>
       from_node r = owner_at old_ring h \<and> to_node r = owner_at new_ring h) \<and>
    (owner_at old_ring h \<noteq> owner_at new_ring h \<longleftrightarrow>
       (\<exists>r \<in> set (compute_migrations old_ring new_ring). in_range r h)) \<and>
    (\<forall>r \<in> set (compute_migrations old_ring new_ring). \<forall>r' \<in> set (compute_migrations old_ring new_ring).
       in_range r h \<longrightarrow> in_range r' h \<longrightarrow> r = r')"
proof -
  define srt where "srt = boundaries old_ring new_ring"
  define j where "j = slot_of srt h"
  define R where "R i = \<lparr>range_start = (if i = 0 then last srt else srt ! (i - 1)), range_end = srt ! i,
       from_node = owner_at old_ring (srt ! i), to_node = owner_at new_ring (srt ! i)\<rparr>" for i
  have srt: "sorted srt" "distinct srt" "set srt = fst ` set old_ring \<union> fst ` set new_ring"
    using boundaries_props by (simp_all add: srt_def)
  then have "srt \<noteq> []" using assms(3) by auto
  then have j: "j < length srt" by (simp add: j_def slot_of_less)
  have owners: "owner_at old_ring h = owner_at old_ring (srt ! j)" "owner_at new_ring h = owner_at new_ring (srt ! j)"
    unfolding j_def using assms srt by (auto intro!: owner_at_slot)
  have mem: "r \<in> set (compute_migrations old_ring new_ring) \<longleftrightarrow>
      (\<exists>i < length srt. r = R i \<and> owner_at old_ring (srt ! i) \<noteq> owner_at new_ring (srt ! i))" for r
    unfolding srt_def R_def by (rule in_compute_migrations [OF assms(3,4)])
  have range: "i < length srt \<Longrightarrow> in_range (R i) h \<longleftrightarrow> i = j" for i
    unfolding j_def by (rule in_range_slot [OF srt(1,2)]) (simp_all add: R_def)
  have fields: "from_node (R j) = owner_at old_ring h" "to_node (R j) = owner_at new_ring h"
    using owners by (simp_all add: R_def)
  have "in_range (R j) h" using range j by simp
  have only: "r = R j" if "r \<in> set (compute_migrations old_ring new_ring)" "in_range r h" for r
    using that range by (auto simp: mem)
  have "owner_at old_ring h \<noteq> owner_at new_ring h \<longleftrightarrow> R j \<in> set (compute_migrations old_ring new_ring)"
  proof
    assume "owner_at old_ring h \<noteq> owner_at new_ring h"
    then show "R j \<in> set (compute_migrations old_ring new_ring)" using owners j unfolding mem by auto
  next
    assume "R j \<in> set (compute_migrations old_ring new_ring)"
    then obtain i where i: "i < length srt" "R j = R i" "owner_at old_ring (srt ! i) \<noteq> owner_at new_ring (srt ! i)"
      unfolding mem by blast
    then have "i = j" using range [OF i(1)] \<open>in_range (R j) h\<close> by simp
    with i owners show "owner_at old_ring h \<noteq> owner_at new_ring h" by simp
  qed
  with only fields \<open>in_range (R j) h\<close> show ?thesis by blast
qed

theorem compute_migrations_exact_witness:
  "compute_migrations [(100, \<lparr>node_host = ''a'', node_port = 1\<rparr>)]
     [(50, \<lparr>node_host = ''b'', node_port = 1\<rparr>), (100, \<lparr>node_host = ''a'', node_port = 1\<rparr>)] =
     [\<lparr>range_start = 100, range_end = 50, from_node = \<lparr>node_host = ''a'', node_port = 1\<rparr>,
       to_node = \<lparr>node_host = ''b'', node_port = 1\<rparr>\<rparr>] \<and>
   (\<exists>r \<in> set (compute_migrations [(100, \<lparr>node_host = ''a'', node_port = 1\<rparr>)]
      [(50, \<lparr>node_host = ''b'', node_port = 1\<rparr>), (100, \<lparr>node_host = ''a'', node_port = 1\<rparr>)]). in_range r 101)"
proof -
  define ro where "ro = [(100 :: u32, \<lparr>node_host = ''a'', node_port = 1\<rparr>)]"
  define n where "n = [(50 :: u32, \<lparr>node_host = ''b'', node_port = 1\<rparr>), (100, \<lparr>node_host = ''a'', node_port = 1\<rparr>)]"
  have "map_ok ro" "map_ok n" "ro \<noteq> []" "n \<noteq> []" by (simp_all add: ro_def n_def map_ok_def)
  moreover have "owner_at ro 101 \<noteq> owner_at n 101"
    by (simp add: ro_def n_def owner_at_def lower_bound_def)
  ultimately have "\<exists>r \<in> set (compute_migrations ro n). in_range r 101"
    using compute_migrations_exact [of ro n 101] by blast
  moreover have "compute_migrations ro n = [\<lparr>range_start = 100, range_end = 50,
      from_node = \<lparr>node_host = ''a'', node_port = 1\<rparr>, to_node = \<lparr>node_host = ''b'', node_port = 1\<rparr>\<rparr>]"
    by (simp add: ro_def n_def compute_migrations_def boundaries_def migration_step_def owner_at_def
      lower_bound_def insort_insert_key_def Let_def upt_rec)
  ultimately show ?thesis by (simp add: ro_def n_def)
qed

end
