(* ===== verification/SwimMessage.thy ===== *)
theory SwimMessage
  imports Node
begin

text \<open>
  The gossip messages (\<open>src/src/membership/swim_message.h\<close> and \<open>swim_message.cpp\<close>).

  A writer appends to a byte vector; a reader gets the datagram and an offset and returns the
  offset behind what it read with the value, or \<open>None\<close> where the code returns \<open>false\<close> or
  \<open>std::nullopt\<close>. The offset the C++ readers leave behind on failure is never used.

  The interface of a reader and the writer it inverts is the locale \<open>wire_codec\<close>: reading succeeds
  exactly where the image of an encodable value stands at the offset. It is interpreted for the
  integers, node identities, membership updates and update lists, and gives round trips, unique
  decoding and the rejection of truncated images.
\<close>

section \<open>Images in a datagram\<close>

definition image_at :: "bytes \<Rightarrow> nat \<Rightarrow> bytes \<Rightarrow> bool" where
  "image_at data off bs \<longleftrightarrow> off + length bs \<le> length data \<and> take (length bs) (drop off data) = bs"

lemma image_at_append [simp, wire_simps]:
  "image_at data off (xs @ ys) \<longleftrightarrow> image_at data off xs \<and> image_at data (off + length xs) ys"
proof
  assume a: "image_at data off (xs @ ys)"
  then have t: "take (length xs + length ys) (drop off data) = xs @ ys"
    and l: "off + (length xs + length ys) \<le> length data" by (simp_all add: image_at_def)
  from t have "take (length xs) (drop off data) @ take (length ys) (drop (off + length xs) data) = xs @ ys"
    by (simp add: take_add add.commute)
  then show "image_at data off xs \<and> image_at data (off + length xs) ys"
    using l by (simp add: image_at_def)
next
  assume "image_at data off xs \<and> image_at data (off + length xs) ys"
  then show "image_at data off (xs @ ys)" by (simp add: image_at_def take_add add.commute)
qed

lemma image_at_Nil [simp]: "image_at data off [] \<longleftrightarrow> off \<le> length data"
  by (simp add: image_at_def)

lemma image_at_0: "image_at data 0 bs \<longleftrightarrow> (\<exists>rest. data = bs @ rest)"
  by (auto simp: image_at_def) (metis append_take_drop_id)

lemma image_at_conv: "image_at data off bs \<longleftrightarrow> (\<exists>pre post. data = pre @ bs @ post \<and> length pre = off)"
proof
  assume "image_at data off bs"
  then have "data = take off data @ bs @ drop (length bs) (drop off data)" and "length (take off data) = off"
    by (auto simp: image_at_def) (metis append_take_drop_id drop_drop)
  then show "\<exists>pre post. data = pre @ bs @ post \<and> length pre = off" by blast
qed (auto simp: image_at_def)

lemma image_at_boundI: "image_at data off bs \<Longrightarrow> off + length bs \<le> length data"
  by (simp add: image_at_def)

lemma image_at_pre: "image_at (pre @ xs) (length pre) bs \<longleftrightarrow> (\<exists>rest. xs = bs @ rest)"
  by (auto simp: image_at_def) (metis append_take_drop_id)

locale wire_codec =
  fixes enc :: "'a \<Rightarrow> bytes"
    and rd :: "bytes \<Rightarrow> nat \<Rightarrow> (nat \<times> 'a) option"
    and ok :: "'a \<Rightarrow> bool"
  assumes rd_iff: "rd data off = Some (off', v) \<longleftrightarrow> ok v \<and> image_at data off (enc v) \<and> off' = off + length (enc v)"
begin

lemma rd_enc: "ok v \<Longrightarrow> rd (pre @ enc v @ post) (length pre) = Some (length pre + length (enc v), v)"
  by (auto simp: rd_iff image_at_def)

lemma enc_prefix_free:
  assumes "ok v" and "ok w" and "enc v @ xs = enc w @ ys"
  shows "v = w \<and> xs = ys"
proof -
  have "rd (enc v @ xs) 0 = Some (length (enc v), v)" using rd_enc [of v "[]" xs] assms(1) by simp
  moreover have "rd (enc w @ ys) 0 = Some (length (enc w), w)" using rd_enc [of w "[]" ys] assms(2) by simp
  ultimately show ?thesis using assms(3) by simp
qed

lemma rd_truncated:
  assumes "ok v" and "n < length (enc v)"
  shows "rd (pre @ take n (enc v)) (length pre) = None"
proof (rule ccontr)
  assume "rd (pre @ take n (enc v)) (length pre) \<noteq> None"
  then obtain off' w where r: "rd (pre @ take n (enc v)) (length pre) = Some (off', w)" by auto
  then have w: "ok w" and i: "image_at (pre @ take n (enc v)) (length pre) (enc w)" by (auto simp: rd_iff)
  from i obtain post where "take n (enc v) = enc w @ post" by (auto simp: image_at_pre)
  then have "enc v @ [] = enc w @ (post @ drop n (enc v))" using append_take_drop_id [of n "enc v"] by simp
  then have "[] = post @ drop n (enc v)" using enc_prefix_free [OF assms(1) w] by blast
  with assms(2) show False by simp
qed

end

section \<open>Integers\<close>

definition write_u8 :: "bytes \<Rightarrow> u8 \<Rightarrow> bytes" where
  "write_u8 buf v = buf @ [v]"

definition write_u16 :: "bytes \<Rightarrow> u16 \<Rightarrow> bytes" where
  "write_u16 buf v = buf @ [ucast (drop_bit 8 v)] @ [ucast v]"

definition write_u32 :: "bytes \<Rightarrow> u32 \<Rightarrow> bytes" where
  "write_u32 buf v =
     buf @ [ucast (drop_bit 24 v)] @ [ucast (drop_bit 16 v)] @ [ucast (drop_bit 8 v)] @ [ucast v]"

definition write_u64 :: "bytes \<Rightarrow> u64 \<Rightarrow> bytes" where
  "write_u64 buf v =
     foldl (\<lambda>buf i. buf @ [ucast (drop_bit i v)]) buf [56, 48, 40, 32, 24, 16, 8, 0]"

definition read_u8 :: "bytes \<Rightarrow> nat \<Rightarrow> (nat \<times> u8) option" where
  "read_u8 data off = (if off \<ge> length data then None else Some (off + 1, data ! off))"

definition read_u16 :: "bytes \<Rightarrow> nat \<Rightarrow> (nat \<times> u16) option" where
  "read_u16 data off =
     (if off + 2 > length data then None
      else Some (off + 2, push_bit 8 (ucast (data ! off)) OR ucast (data ! (off + 1))))"

definition read_u32 :: "bytes \<Rightarrow> nat \<Rightarrow> (nat \<times> u32) option" where
  "read_u32 data off =
     (if off + 4 > length data then None
      else Some (off + 4,
        ((push_bit 24 (ucast (data ! off)) OR push_bit 16 (ucast (data ! (off + 1)))) OR
          push_bit 8 (ucast (data ! (off + 2)))) OR ucast (data ! (off + 3))))"

definition read_u64 :: "bytes \<Rightarrow> nat \<Rightarrow> (nat \<times> u64) option" where
  "read_u64 data off =
     (if off + 8 > length data then None
      else Some (off + 8, foldl (\<lambda>out i. push_bit 8 out OR ucast (data ! (off + i))) 0 [0..<8]))"

text \<open>All four are the big-endian image of the integer: the reverse of its little-endian image.\<close>

definition be_bytes :: "nat \<Rightarrow> 'a::len word \<Rightarrow> bytes" where
  "be_bytes n w = rev (le_bytes n w)"

definition be_word :: "bytes \<Rightarrow> 'a::len word" where
  "be_word bs = le_word (rev bs)"

lemma length_be_bytes [simp]: "length (be_bytes n w) = n"
  by (simp add: be_bytes_def)

lemma upt_4: "[0..<4] = [0, 1, 2, 3 :: nat]" and upt_8: "[0..<8] = [0, 1, 2, 3, 4, 5, 6, 7 :: nat]"
  by (simp_all add: upt_rec numeral_eq_Suc)

lemma write_be:
  "write_u8 buf a = buf @ [a]" "write_u16 buf b = buf @ be_bytes 2 b"
  "write_u32 buf c = buf @ be_bytes 4 c" "write_u64 buf d = buf @ be_bytes 8 d"
  by (simp_all add: write_u8_def write_u16_def write_u32_def write_u64_def be_bytes_def le_bytes_def
      upt_4 upt_8 numeral_2_eq_2)

lemma be_word_Cons_snoc: "be_word (bs @ [b]) = push_bit 8 (be_word bs) OR ucast b"
  by (simp add: be_word_def or.commute)

lemma be_word_Nil: "be_word [] = 0"
  by (simp add: be_word_def)

lemma be_word_foldl: "be_word bs = foldl (\<lambda>out b. push_bit 8 out OR ucast b) 0 bs"
  by (induction bs rule: rev_induct) (simp_all add: be_word_Cons_snoc be_word_Nil)

lemma take_drop_nths: "off + n \<le> length data \<Longrightarrow> take n (drop off data) = map (\<lambda>i. data ! (off + i)) [0..<n]"
  by (simp add: list_eq_iff_nth_eq)

lemma read_u16_be: "read_u16 data off =
    (if off + 2 \<le> length data then Some (off + 2, be_word (take 2 (drop off data))) else None)"
  by (simp add: read_u16_def take_drop_nths be_word_foldl numeral_2_eq_2)

lemma read_u32_be: "read_u32 data off =
    (if off + 4 \<le> length data then Some (off + 4, be_word (take 4 (drop off data))) else None)"
  by (simp add: read_u32_def take_drop_nths be_word_foldl upt_4 push_bit_or)

lemma read_u64_be: "read_u64 data off =
    (if off + 8 \<le> length data then Some (off + 8, be_word (take 8 (drop off data))) else None)"
  by (simp add: read_u64_def take_drop_nths be_word_foldl foldl_map)

lemma be_word_be_bytes: "LENGTH('a) = 8 * n \<Longrightarrow> be_word (be_bytes n (w :: 'a::len word)) = w"
  by (simp add: be_word_def be_bytes_def)

lemma be_bytes_be_word: "length bs = n \<Longrightarrow> LENGTH('a) = 8 * n \<Longrightarrow> be_bytes n (be_word bs :: 'a::len word) = bs"
  by (simp add: be_word_def be_bytes_def)

lemma be_reader_iff:
  assumes "LENGTH('a) = 8 * n"
  shows "(if off + n \<le> length data then Some (off + n, be_word (take n (drop off data)) :: 'a::len word) else None)
      = Some (off', v) \<longleftrightarrow> image_at data off (be_bytes n v) \<and> off' = off + n"
  using be_word_be_bytes [OF assms, of v] be_bytes_be_word [OF _ assms, of "take n (drop off data)"]
  by (auto simp: image_at_def)

interpretation u8_codec: wire_codec "write_u8 []" read_u8 "\<lambda>_. True"
  by unfold_locales (auto simp: write_be read_u8_def image_at_def take_Suc_conv_app_nth)

lemma read_u16_iff: "read_u16 data off = Some (off', v) \<longleftrightarrow> image_at data off (be_bytes 2 v) \<and> off' = off + 2"
  unfolding read_u16_be by (rule be_reader_iff) simp

lemma read_u32_iff: "read_u32 data off = Some (off', v) \<longleftrightarrow> image_at data off (be_bytes 4 v) \<and> off' = off + 4"
  unfolding read_u32_be by (rule be_reader_iff) simp

lemma read_u64_iff: "read_u64 data off = Some (off', v) \<longleftrightarrow> image_at data off (be_bytes 8 v) \<and> off' = off + 8"
  unfolding read_u64_be by (rule be_reader_iff) simp

interpretation u16_codec: wire_codec "write_u16 []" read_u16 "\<lambda>_. True"
  by unfold_locales (simp add: write_be read_u16_iff)

interpretation u32_codec: wire_codec "write_u32 []" read_u32 "\<lambda>_. True"
  by unfold_locales (simp add: write_be read_u32_iff)

interpretation u64_codec: wire_codec "write_u64 []" read_u64 "\<lambda>_. True"
  by unfold_locales (simp add: write_be read_u64_iff)

section \<open>Messages\<close>

datatype swim_message_type = Ping | Ack | PingReq

datatype update_type = Update_Join | Update_Alive | Update_Suspect | Update_Dead | Update_Leave

record membership_update =
  upd_type :: update_type
  upd_node :: node_id
  upd_incarnation :: u64
  upd_data_port :: u16

record swim_message =
  msg_type :: swim_message_type
  msg_seq_num :: u32
  msg_sender :: node_id
  msg_target :: "node_id option"
  msg_updates :: "membership_update list"

fun swim_message_type_val :: "swim_message_type \<Rightarrow> u8" where
  "swim_message_type_val Ping = 1"
| "swim_message_type_val Ack = 2"
| "swim_message_type_val PingReq = 3"

fun update_type_val :: "update_type \<Rightarrow> u8" where
  "update_type_val Update_Join = 0"
| "update_type_val Update_Alive = 1"
| "update_type_val Update_Suspect = 2"
| "update_type_val Update_Dead = 3"
| "update_type_val Update_Leave = 4"

text \<open>The \<open>static_cast\<close> of a byte to the enumeration, after the range test of the reader.\<close>

definition swim_message_type_of :: "u8 \<Rightarrow> swim_message_type option" where
  "swim_message_type_of b =
     (if b < 1 \<or> b > 3 then None
      else Some (if b = 1 then Ping else if b = 2 then Ack else PingReq))"

definition update_type_of :: "u8 \<Rightarrow> update_type option" where
  "update_type_of b =
     (if b > update_type_val Update_Leave then None
      else Some (if b = 0 then Update_Join else if b = 1 then Update_Alive
                 else if b = 2 then Update_Suspect else if b = 3 then Update_Dead else Update_Leave))"

lemma u8_le_cases:
  "(b :: u8) \<le> 4 \<longleftrightarrow> b = 0 \<or> b = 1 \<or> b = 2 \<or> b = 3 \<or> b = 4"
proof -
  have "n \<le> 4 \<longleftrightarrow> n = 0 \<or> n = 1 \<or> n = 2 \<or> n = 3 \<or> n = 4" for n :: nat by arith
  from this [of "unat b"] show ?thesis by (simp add: word_le_nat_alt word_unat_eq_iff)
qed

lemma swim_message_type_of_iff [simp, wire_simps]:
  "swim_message_type_of b = Some ty \<longleftrightarrow> b = swim_message_type_val ty"
proof -
  have "n \<noteq> 0 \<and> \<not> 3 < n \<longleftrightarrow> n = 1 \<or> n = 2 \<or> n = 3" for n :: nat by arith
  from this [of "unat b"] have "b \<noteq> 0 \<and> \<not> 3 < b \<longleftrightarrow> b = 1 \<or> b = 2 \<or> b = 3"
    by (simp add: word_less_nat_alt word_unat_eq_iff)
  then show ?thesis by (cases ty) (auto simp: swim_message_type_of_def)
qed

lemma swim_message_type_of_val [simp]: "swim_message_type_of (swim_message_type_val ty) = Some ty"
  by simp

lemma update_type_of_iff [simp, wire_simps]:
  "update_type_of b = Some ty \<longleftrightarrow> b = update_type_val ty"
  using u8_le_cases [of b] by (cases ty) (auto simp: update_type_of_def not_less split: if_splits)

definition serialize_node_id :: "bytes \<Rightarrow> node_id \<Rightarrow> bytes" where
  "serialize_node_id buf nid =
     (let buf = write_u16 buf (word_of_nat (length (node_host nid)));
          buf = buf @ bytes_of (node_host nid)
      in write_u16 buf (node_port nid))"

definition deserialize_node_id :: "bytes \<Rightarrow> nat \<Rightarrow> (nat \<times> node_id) option" where
  "deserialize_node_id data off =
     do { (off, host_len) \<leftarrow> read_u16 data off;
          if off + unat host_len > length data then None
          else do {
            let host = string_of (take (unat host_len) (drop off data));
            (off, port) \<leftarrow> read_u16 data (off + unat host_len);
            Some (off, \<lparr>node_host = host, node_port = port\<rparr>) } }"

definition serialize_update :: "bytes \<Rightarrow> membership_update \<Rightarrow> bytes" where
  "serialize_update buf u =
     (let buf = write_u8 buf (update_type_val (upd_type u));
          buf = serialize_node_id buf (upd_node u);
          buf = write_u64 buf (upd_incarnation u)
      in write_u16 buf (upd_data_port u))"

definition deserialize_update :: "bytes \<Rightarrow> nat \<Rightarrow> (nat \<times> membership_update) option" where
  "deserialize_update data off =
     do { (off, type_val) \<leftarrow> read_u8 data off;
          ty \<leftarrow> update_type_of type_val;
          (off, node) \<leftarrow> deserialize_node_id data off;
          (off, inc) \<leftarrow> read_u64 data off;
          (off, dp) \<leftarrow> read_u16 data off;
          Some (off, \<lparr>upd_type = ty, upd_node = node, upd_incarnation = inc, upd_data_port = dp\<rparr>) }"

definition swim_serialize :: "swim_message \<Rightarrow> bytes" where
  "swim_serialize m =
     (let buf = write_u8 [] (swim_message_type_val (msg_type m));
          buf = write_u32 buf (msg_seq_num m);
          buf = serialize_node_id buf (msg_sender m);
          buf = (case msg_target m of
                   Some target \<Rightarrow> if msg_type m = PingReq then serialize_node_id buf target else buf
                 | None \<Rightarrow> buf);
          buf = write_u16 buf (word_of_nat (length (msg_updates m)))
      in foldl serialize_update buf (msg_updates m))"

fun deserialize_updates :: "bytes \<Rightarrow> nat \<Rightarrow> nat \<Rightarrow> membership_update list \<Rightarrow> (nat \<times> membership_update list) option" where
  "deserialize_updates data off 0 acc = Some (off, acc)"
| "deserialize_updates data off (Suc k) acc =
     do { (off, u) \<leftarrow> deserialize_update data off;
          deserialize_updates data off k (acc @ [u]) }"

definition deserialize_target :: "bytes \<Rightarrow> nat \<Rightarrow> swim_message_type \<Rightarrow> (nat \<times> node_id option) option" where
  "deserialize_target data off ty =
     (if ty = PingReq
      then do { (off, target) \<leftarrow> deserialize_node_id data off; Some (off, Some target) }
      else Some (off, None))"

definition swim_deserialize :: "bytes \<Rightarrow> swim_message option" where
  "swim_deserialize data =
     do { (off, type_val) \<leftarrow> read_u8 data 0;
          ty \<leftarrow> swim_message_type_of type_val;
          (off, seq) \<leftarrow> read_u32 data off;
          (off, sender) \<leftarrow> deserialize_node_id data off;
          (off, target) \<leftarrow> deserialize_target data off ty;
          (off, update_count) \<leftarrow> read_u16 data off;
          (off, updates) \<leftarrow> deserialize_updates data off (unat update_count) [];
          Some \<lparr>msg_type = ty, msg_seq_num = seq, msg_sender = sender, msg_target = target,
                msg_updates = updates\<rparr> }"

section \<open>Encodable values\<close>

definition node_id_fits :: "node_id \<Rightarrow> bool" where
  "node_id_fits nid \<longleftrightarrow> length (node_host nid) < 2 ^ 16"

text \<open>
  A message that has an unambiguous image: every count fits in its 16-bit field, and a target is
  there exactly in a \<open>PingReq\<close>.
\<close>

definition swim_message_fits :: "swim_message \<Rightarrow> bool" where
  "swim_message_fits m \<longleftrightarrow>
     node_id_fits (msg_sender m) \<and> pred_option node_id_fits (msg_target m) \<and>
     (msg_target m \<noteq> None \<longleftrightarrow> msg_type m = PingReq) \<and>
     length (msg_updates m) < 2 ^ 16 \<and> (\<forall>u \<in> set (msg_updates m). node_id_fits (upd_node u))"

section \<open>Codecs\<close>

lemma write_append:
  "write_u8 buf a = buf @ write_u8 [] a" "write_u16 buf b = buf @ write_u16 [] b"
  "write_u32 buf c = buf @ write_u32 [] c" "write_u64 buf d = buf @ write_u64 [] d"
  by (simp_all add: write_be)

lemma length_write [simp]:
  "length (write_u8 [] a) = 1" "length (write_u16 [] b) = 2"
  "length (write_u32 [] c) = 4" "length (write_u64 [] d) = 8"
  by (simp_all add: write_be)

lemma serialize_node_id_eq:
  "serialize_node_id buf nid =
     buf @ write_u16 [] (word_of_nat (length (node_host nid))) @ bytes_of (node_host nid) @ write_u16 [] (node_port nid)"
  by (simp add: serialize_node_id_def write_be)

lemma serialize_node_id_append: "serialize_node_id buf nid = buf @ serialize_node_id [] nid"
  by (simp add: serialize_node_id_eq)

lemma serialize_update_eq:
  "serialize_update buf u =
     buf @ write_u8 [] (update_type_val (upd_type u)) @ serialize_node_id [] (upd_node u) @
     write_u64 [] (upd_incarnation u) @ write_u16 [] (upd_data_port u)"
  by (simp add: serialize_update_def Let_def write_be serialize_node_id_append [of "buf @ _"]
      serialize_node_id_append [of "[_]"])

lemma serialize_update_append: "serialize_update buf u = buf @ serialize_update [] u"
  by (simp add: serialize_update_eq)

lemma serialize_updates_eq: "foldl serialize_update buf us = buf @ concat (map (serialize_update []) us)"
proof (induction us arbitrary: buf)
  case (Cons u us)
  then show ?case using serialize_update_append [of buf u] by simp
qed simp

definition target_image :: "swim_message_type \<Rightarrow> node_id option \<Rightarrow> bytes" where
  "target_image ty target =
     (case target of Some nid \<Rightarrow> if ty = PingReq then serialize_node_id [] nid else [] | None \<Rightarrow> [])"

lemma swim_serialize_eq:
  "swim_serialize m =
     write_u8 [] (swim_message_type_val (msg_type m)) @ write_u32 [] (msg_seq_num m) @
     serialize_node_id [] (msg_sender m) @ target_image (msg_type m) (msg_target m) @
     write_u16 [] (word_of_nat (length (msg_updates m))) @ concat (map (serialize_update []) (msg_updates m))"
  by (simp add: swim_serialize_def Let_def write_be serialize_updates_eq target_image_def
      serialize_node_id_append [of "_ # _"] serialize_node_id_append [of "_ @ _"] split: option.split)

lemma string_image_at:
  "image_at data off (bytes_of s) \<longleftrightarrow> off + length s \<le> length data \<and> string_of (take (length s) (drop off data)) = s"
  by (auto simp: image_at_def dest: arg_cong [where f = bytes_of])

lemma deserialize_node_id_iff:
  "deserialize_node_id data off = Some (off', nid) \<longleftrightarrow>
     node_id_fits nid \<and> image_at data off (serialize_node_id [] nid) \<and>
     off' = off + length (serialize_node_id [] nid)"
proof
  assume "deserialize_node_id data off = Some (off', nid)"
  then obtain o1 n where r1: "read_u16 data off = Some (o1, n)" and le: "o1 + unat n \<le> length data"
    and host: "node_host nid = string_of (take (unat n) (drop o1 data))"
    and r2: "read_u16 data (o1 + unat n) = Some (off', node_port nid)"
    by (auto simp: deserialize_node_id_def Let_def split: bind_splits if_splits)
  from host le have len: "length (node_host nid) = unat n" by simp
  have "image_at data o1 (bytes_of (node_host nid))" unfolding host using le by (simp add: image_at_def)
  with r1 r2 show "node_id_fits nid \<and> image_at data off (serialize_node_id [] nid) \<and>
      off' = off + length (serialize_node_id [] nid)"
    unfolding u16_codec.rd_iff serialize_node_id_eq by (simp add: node_id_fits_def len)
next
  let ?n = "word_of_nat (length (node_host nid)) :: u16"
  assume a: "node_id_fits nid \<and> image_at data off (serialize_node_id [] nid) \<and>
      off' = off + length (serialize_node_id [] nid)"
  then have n: "unat ?n = length (node_host nid)" by (simp add: node_id_fits_def)
  from a have i: "image_at data off (write_u16 [] ?n)" "image_at data (off + 2) (bytes_of (node_host nid))"
    "image_at data (off + 2 + unat ?n) (write_u16 [] (node_port nid))"
    and o: "off' = off + 2 + unat ?n + 2"
    unfolding serialize_node_id_eq n by (simp_all add: add.assoc del: add_2_eq_Suc')
  from i(1) have "read_u16 data off = Some (off + 2, ?n)" by (simp add: u16_codec.rd_iff)
  moreover from i(3) have "read_u16 data (off + 2 + unat ?n) = Some (off', node_port nid)"
    by (simp add: u16_codec.rd_iff o)
  moreover from i(2) have "off + 2 + unat ?n \<le> length data"
    and "string_of (take (unat ?n) (drop (off + 2) data)) = node_host nid"
    unfolding string_image_at n by simp_all
  ultimately show "deserialize_node_id data off = Some (off', nid)"
    by (simp add: deserialize_node_id_def)
qed

interpretation node_id_codec: wire_codec "serialize_node_id []" deserialize_node_id node_id_fits
  by unfold_locales (rule deserialize_node_id_iff)

lemmas codec_iffs = u8_codec.rd_iff u16_codec.rd_iff u32_codec.rd_iff u64_codec.rd_iff node_id_codec.rd_iff

definition update_fits :: "membership_update \<Rightarrow> bool" where
  "update_fits u = node_id_fits (upd_node u)"

lemma case_prod_Some_iff: "(case p of (a, b) \<Rightarrow> f a b) = Some r \<longleftrightarrow> (\<exists>a b. p = (a, b) \<and> f a b = Some r)"
  by (cases p) simp

lemma deserialize_update_iff:
  "deserialize_update data off = Some (off', u) \<longleftrightarrow>
     update_fits u \<and> image_at data off (serialize_update [] u) \<and> off' = off + length (serialize_update [] u)"
  by (cases u)
    (auto simp: deserialize_update_def serialize_update_eq bind_eq_Some_conv codec_iffs update_fits_def add.assoc)

interpretation update_codec: wire_codec "serialize_update []" deserialize_update update_fits
  by unfold_locales (rule deserialize_update_iff)

definition updates_image :: "membership_update list \<Rightarrow> bytes" where
  "updates_image us = concat (map (serialize_update []) us)"

lemma updates_image_simps [simp]:
  "updates_image [] = []" "updates_image (u # us) = serialize_update [] u @ updates_image us"
  by (simp_all add: updates_image_def)

lemma deserialize_updates_iff:
  "off \<le> length data \<Longrightarrow>
   deserialize_updates data off k acc = Some (off', vs) \<longleftrightarrow>
     (\<exists>us. vs = acc @ us \<and> length us = k \<and> list_all update_fits us \<and> image_at data off (updates_image us) \<and>
           off' = off + length (updates_image us))"
proof (induction k arbitrary: off acc)
  case 0
  then show ?case by auto
next
  case (Suc k)
  have "deserialize_updates data off (Suc k) acc = Some (off', vs) \<longleftrightarrow>
      (\<exists>u. update_fits u \<and> image_at data off (serialize_update [] u) \<and>
        deserialize_updates data (off + length (serialize_update [] u)) k (acc @ [u]) = Some (off', vs))"
    by (auto simp: bind_eq_Some_conv update_codec.rd_iff)
  also have "\<dots> \<longleftrightarrow> (\<exists>u. update_fits u \<and> image_at data off (serialize_update [] u) \<and>
      (\<exists>us. vs = (acc @ [u]) @ us \<and> length us = k \<and> list_all update_fits us \<and>
        image_at data (off + length (serialize_update [] u)) (updates_image us) \<and>
        off' = off + length (serialize_update [] u) + length (updates_image us)))"
    by (intro ex_cong1 conj_cong refl Suc.IH image_at_boundI)
  also have "\<dots> \<longleftrightarrow> (\<exists>us. vs = acc @ us \<and> length us = Suc k \<and> list_all update_fits us \<and>
      image_at data off (updates_image us) \<and> off' = off + length (updates_image us))"
    by (auto simp: length_Suc_conv add.assoc)
  finally show ?case .
qed

lemma deserialize_target_iff:
  assumes "off \<le> length data"
  shows "deserialize_target data off ty = Some (off', target) \<longleftrightarrow>
     pred_option node_id_fits target \<and> (target \<noteq> None \<longleftrightarrow> ty = PingReq) \<and>
     image_at data off (target_image ty target) \<and> off' = off + length (target_image ty target)"
  using assms
  by (cases target) (auto simp: deserialize_target_def target_image_def bind_eq_Some_conv node_id_codec.rd_iff)

lemma swim_message_fits_iff:
  "swim_message_fits m \<longleftrightarrow>
     node_id_fits (msg_sender m) \<and> pred_option node_id_fits (msg_target m) \<and>
     (msg_target m \<noteq> None \<longleftrightarrow> msg_type m = PingReq) \<and>
     length (msg_updates m) < 2 ^ 16 \<and> list_all update_fits (msg_updates m)"
  by (simp add: swim_message_fits_def list_all_iff update_fits_def)

lemma swim_deserialize_sound:
  assumes "swim_deserialize data = Some m"
  shows "swim_message_fits m \<and> (\<exists>rest. data = swim_serialize m @ rest)"
proof -
  from assms obtain o1 o2 o3 o4 o5 o6 n where
    r: "read_u8 data 0 = Some (o1, swim_message_type_val (msg_type m))"
      "read_u32 data o1 = Some (o2, msg_seq_num m)"
      "deserialize_node_id data o2 = Some (o3, msg_sender m)"
      "deserialize_target data o3 (msg_type m) = Some (o4, msg_target m)"
      "read_u16 data o4 = Some (o5, n)"
      "deserialize_updates data o5 (unat n) [] = Some (o6, msg_updates m)"
    by (auto simp: swim_deserialize_def bind_eq_Some_conv)
  from r(3) have "o3 \<le> length data" by (auto simp: codec_iffs dest: image_at_boundI)
  note t = r(4) [unfolded deserialize_target_iff [OF this]]
  from r(5) have "o5 \<le> length data" by (auto simp: codec_iffs dest: image_at_boundI)
  note u = r(6) [unfolded deserialize_updates_iff [OF this]]
  from u have n: "length (msg_updates m) = unat n" by auto
  have "swim_message_fits m"
    using r(3) t u by (auto simp: swim_message_fits_iff codec_iffs n)
  moreover have "image_at data 0 (swim_serialize m)"
    using r(1-3,5) t u by (auto simp: swim_serialize_eq codec_iffs n add.assoc simp flip: updates_image_def)
  ultimately show ?thesis by (simp add: image_at_0)
qed

lemma swim_deserialize_complete:
  assumes fits: "swim_message_fits m"
  shows "swim_deserialize (swim_serialize m @ rest) = Some m"
proof -
  let ?data = "swim_serialize m @ rest"
  let ?n = "word_of_nat (length (msg_updates m)) :: u16"
  define o1 where "o1 = length (write_u8 [] (swim_message_type_val (msg_type m)))"
  define o2 where "o2 = o1 + length (write_u32 [] (msg_seq_num m))"
  define o3 where "o3 = o2 + length (serialize_node_id [] (msg_sender m))"
  define o4 where "o4 = o3 + length (target_image (msg_type m) (msg_target m))"
  define o5 where "o5 = o4 + length (write_u16 [] ?n)"
  define o6 where "o6 = o5 + length (updates_image (msg_updates m))"
  note o_defs = o1_def o2_def o3_def o4_def o5_def o6_def
  have "image_at ?data 0 (swim_serialize m)" by (auto simp: image_at_0)
  then have i: "image_at ?data 0 (write_u8 [] (swim_message_type_val (msg_type m)))"
    "image_at ?data o1 (write_u32 [] (msg_seq_num m))" "image_at ?data o2 (serialize_node_id [] (msg_sender m))"
    "image_at ?data o3 (target_image (msg_type m) (msg_target m))" "image_at ?data o4 (write_u16 [] ?n)"
    "image_at ?data o5 (updates_image (msg_updates m))"
    unfolding o_defs swim_serialize_eq [of m] image_at_append updates_image_def by (simp_all only: add_0 add.assoc)
  have n: "unat ?n = length (msg_updates m)" using fits by (simp add: swim_message_fits_def)
  have "read_u8 ?data 0 = Some (o1, swim_message_type_val (msg_type m))"
    "read_u32 ?data o1 = Some (o2, msg_seq_num m)" "deserialize_node_id ?data o2 = Some (o3, msg_sender m)"
    "read_u16 ?data o4 = Some (o5, ?n)"
    using i fits by (simp_all add: codec_iffs o_defs swim_message_fits_def)
  moreover have "deserialize_target ?data o3 (msg_type m) = Some (o4, msg_target m)"
    using i fits deserialize_target_iff [of o3 ?data] by (auto simp: swim_message_fits_def o4_def dest: image_at_boundI)
  moreover have "deserialize_updates ?data o5 (unat ?n) [] = Some (o6, msg_updates m)"
    using i(6) fits deserialize_updates_iff [OF image_at_boundI [OF i(6), THEN add_leD1]]
    by (simp add: swim_message_fits_iff n o6_def)
  ultimately show ?thesis by (simp add: swim_deserialize_def)
qed

section \<open>Properties\<close>

text \<open>
  C24. A datagram is accepted exactly when it starts with the image of a well-formed message, and
  then decodes to that message; every other datagram, truncated ones included, is rejected. So a
  message survives serialisation and deserialisation exactly when its counts fit in their 16-bit
  fields and it carries a target if and only if it is a \<open>PingReq\<close>.
\<close>
theorem swim_deserialize_iff:
  "(swim_deserialize data = Some m \<longleftrightarrow> swim_message_fits m \<and> (\<exists>rest. data = swim_serialize m @ rest)) \<and>
   (swim_deserialize (swim_serialize m) = Some m \<longleftrightarrow> swim_message_fits m)"
  using swim_deserialize_sound swim_deserialize_complete [of m] swim_deserialize_complete [of m "[]"]
  by auto

end
