(* ===== verification/MemberList.thy ===== *)
theory MemberList
  imports Node "HOL-Library.Product_Lexorder"
begin

text \<open>
  The membership table (\<open>src/src/membership/member_list.h\<close> and \<open>member_list.cpp\<close>).

  \<open>nodes_\<close> is an association list with distinct keys, in the order the container iterates.
  The change callback is a flag (is one set?); an operation returns the calls it makes of it, in
  order, next to the new table and its own result. The random choices of \<open>random_peer\<close> and
  \<open>random_peers\<close> are arguments: the value drawn from a range, and the permutation \<open>std::shuffle\<close>
  performs.

  Which of two reports about a node wins is the same rule here and in the dissemination queue: the
  higher incarnation, and at equal incarnations the more severe state. The locale \<open>precedence\<close>
  states that rule as a rank and derives that merging reports in any order gives the same rank.
\<close>

section \<open>Precedence of reports\<close>

definition merge :: "('u \<Rightarrow> 'u \<Rightarrow> bool) \<Rightarrow> 'u \<Rightarrow> 'u \<Rightarrow> 'u" where
  "merge supersedes new cur = (if supersedes new cur then new else cur)"

lemma Max_insert_max: "finite R \<Longrightarrow> Max (insert (max r q) R) = Max (insert r (insert q R))"
  by (cases "R = {}") (simp_all add: max.assoc)

locale precedence =
  fixes rank :: "'u \<Rightarrow> 'k::linorder"
    and supersedes :: "'u \<Rightarrow> 'u \<Rightarrow> bool"
  assumes supersedes_iff: "supersedes new cur \<longleftrightarrow> rank cur < rank new"
begin

lemma rank_merge: "rank (merge supersedes new cur) = max (rank cur) (rank new)"
  by (auto simp: merge_def supersedes_iff max_def)

lemma merge_repeated: "merge supersedes u (merge supersedes u c) = merge supersedes u c"
  by (simp add: merge_def supersedes_iff)

lemma rank_fold: "rank (fold (merge supersedes) us cur) = Max (insert (rank cur) (rank ` set us))"
proof (induction us arbitrary: cur)
  case (Cons u us)
  have "rank (fold (merge supersedes) (u # us) cur) = Max (insert (max (rank cur) (rank u)) (rank ` set us))"
    by (simp add: Cons.IH rank_merge)
  then show ?case by (simp add: Max_insert_max)
qed simp

lemma rank_fold_cong: "set us = set vs \<Longrightarrow> rank (fold (merge supersedes) us cur) = rank (fold (merge supersedes) vs cur)"
  by (simp add: rank_fold)

lemma fold_merge_in: "fold (merge supersedes) us cur \<in> insert cur (set us)"
  by (induction us arbitrary: cur) (auto simp: merge_def split: if_splits)

end

section \<open>State and operations\<close>

record member_list =
  ml_nodes :: "(node_id \<times> node_info) list"
  ml_on_change :: bool

type_synonym change_call = "node_id \<times> node_info"

definition new_member_list :: member_list where
  "new_member_list = \<lparr>ml_nodes = [], ml_on_change = False\<rparr>"

definition set_on_change :: "member_list \<Rightarrow> bool \<Rightarrow> member_list" where
  "set_on_change ml cb = ml\<lparr>ml_on_change := cb\<rparr>"

definition notify :: "member_list \<Rightarrow> node_id \<Rightarrow> change_call list" where
  "notify ml nid =
     (if ml_on_change ml
      then case um_find nid (ml_nodes ml) of Some info \<Rightarrow> [(nid, info)] | None \<Rightarrow> []
      else [])"

text \<open>The condition under which \<open>add_node\<close> replaces the entry it finds.\<close>

definition info_supersedes :: "node_info \<Rightarrow> node_info \<Rightarrow> bool" where
  "info_supersedes info cur \<longleftrightarrow>
     info_incarnation info > info_incarnation cur \<or>
     (info_incarnation info = info_incarnation cur \<and> state_supersedes (info_state info) (info_state cur))"

definition ml_add_node :: "member_list \<Rightarrow> node_info \<Rightarrow> member_list \<times> change_call list \<times> bool" where
  "ml_add_node ml info =
     (case um_find (info_id info) (ml_nodes ml) of
        Some cur \<Rightarrow>
          if info_supersedes info cur
          then let ml = ml\<lparr>ml_nodes := um_set (info_id info) info (ml_nodes ml)\<rparr>
               in (ml, notify ml (info_id info), True)
          else (ml, [], False)
      | None \<Rightarrow>
          let ml = ml\<lparr>ml_nodes := um_set (info_id info) info (ml_nodes ml)\<rparr>
          in (ml, notify ml (info_id info), True))"

definition ml_remove_node :: "member_list \<Rightarrow> node_id \<Rightarrow> time_point \<Rightarrow> member_list \<times> change_call list \<times> bool" where
  "ml_remove_node ml nid now =
     (case um_find nid (ml_nodes ml) of
        Some _ \<Rightarrow>
          let ml = ml\<lparr>ml_nodes := um_erase nid (ml_nodes ml)\<rparr>
          in (ml, if ml_on_change ml then [(nid, (default_node_info nid now)\<lparr>info_state := Dead\<rparr>)] else [], True)
      | None \<Rightarrow> (ml, [], False))"

definition ml_update_state ::
  "member_list \<Rightarrow> node_id \<Rightarrow> node_state \<Rightarrow> u64 \<Rightarrow> time_point \<Rightarrow> member_list \<times> change_call list \<times> bool" where
  "ml_update_state ml nid new_state incarnation now =
     (case um_find nid (ml_nodes ml) of
        None \<Rightarrow> (ml, [], False)
      | Some n \<Rightarrow>
          if incarnation > info_incarnation n
          then let n = n\<lparr>info_state := new_state, info_incarnation := incarnation, info_last_change := now\<rparr>;
                   ml = ml\<lparr>ml_nodes := um_set nid n (ml_nodes ml)\<rparr>
               in (ml, notify ml nid, True)
          else if incarnation = info_incarnation n \<and> state_supersedes new_state (info_state n)
          then let n = n\<lparr>info_state := new_state, info_last_change := now\<rparr>;
                   ml = ml\<lparr>ml_nodes := um_set nid n (ml_nodes ml)\<rparr>
               in (ml, notify ml nid, True)
          else (ml, [], False))"

definition ml_get_node :: "member_list \<Rightarrow> node_id \<Rightarrow> node_info option" where
  "ml_get_node ml nid = um_find nid (ml_nodes ml)"

definition ml_size :: "member_list \<Rightarrow> nat" where
  "ml_size ml = length (ml_nodes ml)"

fun alive_loop :: "(node_id \<times> node_info) list \<Rightarrow> node_id \<Rightarrow> node_id list \<Rightarrow> node_id list" where
  "alive_loop [] excluding result = result"
| "alive_loop ((nid, info) # ns) excluding result =
     alive_loop ns excluding
       (if nid \<noteq> excluding \<and> info_state info = Alive then result @ [nid] else result)"

definition alive_peers :: "member_list \<Rightarrow> node_id \<Rightarrow> node_id list" where
  "alive_peers ml excluding = alive_loop (ml_nodes ml) excluding []"

text \<open>\<open>draw m\<close> is the value \<open>uniform_int_distribution(0, m)\<close> yields, \<open>shuffle\<close> what \<open>std::shuffle\<close> makes of a vector.\<close>

definition random_peer :: "member_list \<Rightarrow> node_id \<Rightarrow> (nat \<Rightarrow> nat) \<Rightarrow> node_id option" where
  "random_peer ml excluding draw =
     (let peers = alive_peers ml excluding
      in if peers = [] then None else Some (peers ! draw (length peers - 1)))"

definition random_peers :: "member_list \<Rightarrow> nat \<Rightarrow> node_id \<Rightarrow> (node_id list \<Rightarrow> node_id list) \<Rightarrow> node_id list" where
  "random_peers ml k excluding shuffle =
     (let peers = alive_peers ml excluding
      in if length peers \<le> k then peers else take k (shuffle peers))"

section \<open>Invariant and views\<close>

text \<open>Every entry is filed under its own identity, and no identity twice.\<close>

definition ml_ok :: "member_list \<Rightarrow> bool" where
  "ml_ok ml \<longleftrightarrow> um_ok (ml_nodes ml) \<and> (\<forall>(nid, info) \<in> set (ml_nodes ml). info_id info = nid)"

text \<open>What a table says of a node, up to time stamps and ports: incarnation and state.\<close>

definition info_rank :: "node_info \<Rightarrow> u64 \<times> node_state" where
  "info_rank info = (info_incarnation info, info_state info)"

definition ml_view :: "member_list \<Rightarrow> node_id \<Rightarrow> (u64 \<times> node_state) option" where
  "ml_view ml nid = map_option info_rank (ml_get_node ml nid)"

interpretation member: precedence info_rank info_supersedes
  by unfold_locales (auto simp: info_rank_def info_supersedes_def)

section \<open>Lemmas\<close>

lemma ml_okD: "ml_ok ml \<Longrightarrow> ml_get_node ml nid = Some info \<Longrightarrow> info_id info = nid"
  by (auto simp: ml_ok_def ml_get_node_def dest: um_find_SomeD)

lemma ml_ok_set:
  assumes "ml_ok ml" and "info_id info = nid"
  shows "ml_ok (ml\<lparr>ml_nodes := um_set nid info (ml_nodes ml)\<rparr>)"
proof -
  have "info_id i = n" if "(n, i) \<in> set (um_set nid info (ml_nodes ml))" for n i
  proof -
    from assms(1) that have "um_find n (um_set nid info (ml_nodes ml)) = Some i"
      using um_find_mem [of "um_set nid info (ml_nodes ml)" n i] by (simp add: ml_ok_def)
    with assms show ?thesis by (auto simp: ml_ok_def split: if_splits dest: um_find_SomeD)
  qed
  with assms(1) show ?thesis by (auto simp: ml_ok_def)
qed

lemma ml_ok_erase: "ml_ok ml \<Longrightarrow> ml_ok (ml\<lparr>ml_nodes := um_erase nid (ml_nodes ml)\<rparr>)"
  by (auto simp: ml_ok_def um_erase_def AList.delete_eq um_ok_def intro: distinct_map_filter)

text \<open>Both writers merge a report into the entry of its node.\<close>

lemma ml_get_node_set [simp]:
  "ml_get_node (ml\<lparr>ml_nodes := um_set nid info (ml_nodes ml)\<rparr>) n = (if n = nid then Some info else ml_get_node ml n)"
  by (simp add: ml_get_node_def)

lemma ml_get_node_add:
  "ml_get_node (fst (ml_add_node ml info)) nid =
     (if nid = info_id info
      then Some (case ml_get_node ml nid of None \<Rightarrow> info | Some cur \<Rightarrow> merge info_supersedes info cur)
      else ml_get_node ml nid)"
  by (auto simp: ml_add_node_def ml_get_node_def merge_def Let_def split: option.splits)

lemma ml_get_node_update:
  "ml_get_node (fst (ml_update_state ml nid st inc now)) n =
     (if n = nid
      then map_option (\<lambda>cur. merge info_supersedes
             (cur\<lparr>info_state := st, info_incarnation := inc, info_last_change := now\<rparr>) cur) (ml_get_node ml nid)
      else ml_get_node ml n)"
  by (auto simp: ml_update_state_def ml_get_node_def merge_def info_supersedes_def Let_def split: option.splits)

lemma ml_view_add:
  "ml_view (fst (ml_add_node ml info)) nid =
     (if nid = info_id info
      then Some (case ml_view ml nid of None \<Rightarrow> info_rank info | Some r \<Rightarrow> max r (info_rank info))
      else ml_view ml nid)"
  by (simp add: ml_view_def ml_get_node_add member.rank_merge split: option.split)

lemma ml_view_update:
  "ml_view (fst (ml_update_state ml nid st inc now)) n =
     (if n = nid then map_option (\<lambda>r. max r (inc, st)) (ml_view ml nid) else ml_view ml n)"
proof -
  have "info_rank (cur\<lparr>info_state := st, info_incarnation := inc, info_last_change := now\<rparr>) = (inc, st)" for cur
    by (simp add: info_rank_def)
  then show ?thesis by (simp add: ml_view_def ml_get_node_update member.rank_merge option.map_comp comp_def)
qed

lemma alive_loop_eq:
  "alive_loop ns excluding result = result @ [nid. (nid, info) \<leftarrow> ns, nid \<noteq> excluding \<and> info_state info = Alive]"
  by (induction ns excluding result rule: alive_loop.induct) auto

lemma set_alive_peers:
  assumes "ml_ok ml"
  shows "set (alive_peers ml excluding) =
    {nid. nid \<noteq> excluding \<and> (\<exists>info. ml_get_node ml nid = Some info \<and> info_state info = Alive)}"
  using assms um_find_mem [of "ml_nodes ml"]
  by (fastforce simp: alive_peers_def alive_loop_eq ml_ok_def ml_get_node_def)

lemma distinct_alive_peers:
  assumes "ml_ok ml"
  shows "distinct (alive_peers ml excluding)"
proof -
  have "distinct [nid. (nid, info) \<leftarrow> ns, nid \<noteq> excluding \<and> info_state info = Alive]"
    if "distinct (map fst ns)" for ns :: "(node_id \<times> node_info) list"
    using that by (induction ns) force+
  with assms show ?thesis by (simp add: alive_peers_def alive_loop_eq ml_ok_def um_ok_def)
qed

lemma ml_add_node_changed:
  "snd (snd (ml_add_node ml info)) \<longleftrightarrow>
     (case ml_view ml (info_id info) of None \<Rightarrow> True | Some r \<Rightarrow> r < info_rank info)"
  by (auto simp: ml_add_node_def ml_view_def ml_get_node_def member.supersedes_iff Let_def split: option.splits)

lemma ml_add_node_calls:
  "fst (snd (ml_add_node ml info)) =
     (if snd (snd (ml_add_node ml info)) \<and> ml_on_change ml then [(info_id info, info)] else [])"
  by (auto simp: ml_add_node_def notify_def Let_def split: option.splits)

lemma ml_update_state_changed:
  "snd (snd (ml_update_state ml nid st inc now)) \<longleftrightarrow>
     (case ml_view ml nid of None \<Rightarrow> False | Some r \<Rightarrow> r < (inc, st))"
  by (auto simp: ml_update_state_def ml_view_def ml_get_node_def info_rank_def Let_def split: option.splits)

lemma ml_update_state_calls:
  "fst (snd (ml_update_state ml nid st inc now)) =
     (if snd (snd (ml_update_state ml nid st inc now)) \<and> ml_on_change ml
      then [(nid, the (ml_get_node (fst (ml_update_state ml nid st inc now)) nid))] else [])"
  by (auto simp: ml_update_state_def ml_get_node_def notify_def Let_def split: option.splits)

section \<open>Sequences of reports\<close>

datatype member_op = Op_Add node_info | Op_Update node_id node_state u64 time_point

fun run_member_op :: "member_op \<Rightarrow> member_list \<Rightarrow> member_list" where
  "run_member_op (Op_Add info) ml = fst (ml_add_node ml info)"
| "run_member_op (Op_Update nid st inc now) ml = fst (ml_update_state ml nid st inc now)"

fun op_node :: "member_op \<Rightarrow> node_id" where
  "op_node (Op_Add info) = info_id info"
| "op_node (Op_Update nid st inc now) = nid"

fun op_rank :: "member_op \<Rightarrow> u64 \<times> node_state" where
  "op_rank (Op_Add info) = info_rank info"
| "op_rank (Op_Update nid st inc now) = (inc, st)"

definition run_member_ops :: "member_op list \<Rightarrow> member_list \<Rightarrow> member_list" where
  "run_member_ops ops ml = fold run_member_op ops ml"

lemma view_run_known:
  assumes "ml_view ml nid = Some r"
  shows "ml_view (run_member_ops ops ml) nid = Some (Max (insert r (op_rank ` {oper \<in> set ops. op_node oper = nid})))"
  using assms
proof (induction ops arbitrary: ml r)
  case Nil
  then show ?case by (simp add: run_member_ops_def)
next
  case (Cons oper ops)
  let ?R = "op_rank ` {oper \<in> set ops. op_node oper = nid}"
  have "ml_view (run_member_op oper ml) nid = Some (if op_node oper = nid then max r (op_rank oper) else r)"
    using Cons.prems by (cases oper; cases r) (auto simp: ml_view_add ml_view_update)
  then have "ml_view (run_member_ops (oper # ops) ml) nid =
      Some (Max (insert (if op_node oper = nid then max r (op_rank oper) else r) ?R))"
    using Cons.IH [of "run_member_op oper ml"] by (simp add: run_member_ops_def)
  moreover have "Max (insert (max r q) ?R) = Max (insert r (insert q ?R))" for q
    by (rule Max_insert_max) simp
  moreover have "{oper' \<in> set (oper # ops). op_node oper' = nid} =
      (if op_node oper = nid then insert oper else (\<lambda>X. X)) {oper \<in> set ops. op_node oper = nid}"
    by auto
  ultimately show ?case by (cases "op_node oper = nid") simp_all
qed

lemma view_run_unknown:
  "\<forall>oper \<in> set ops. op_node oper \<noteq> nid \<Longrightarrow> ml_view (run_member_ops ops ml) nid = ml_view ml nid"
proof (induction ops arbitrary: ml)
  case (Cons oper ops)
  then have "ml_view (run_member_op oper ml) nid = ml_view ml nid"
    by (cases oper) (auto simp: ml_view_add ml_view_update)
  then show ?case using Cons.IH [of "run_member_op oper ml"] Cons.prems by (simp add: run_member_ops_def)
qed (simp add: run_member_ops_def)

section \<open>Properties\<close>

text \<open>
  A report (a joining node, or a new state) changes the entry of its own node only, and moves it
  to the greater of what was known and what is reported, ordered by incarnation and then severity.
  A state report about an unknown node is ignored. The operation returns true exactly when what
  the table says has changed, and then, and only then, calls the change callback, once, with the
  new entry.
\<close>
theorem member_report_merge:
  "(case ml_add_node ml info of (ml', calls, changed) \<Rightarrow>
      ml_view ml' = (ml_view ml)(info_id info \<mapsto>
        (case ml_view ml (info_id info) of None \<Rightarrow> info_rank info | Some r \<Rightarrow> max r (info_rank info))) \<and>
      (changed \<longleftrightarrow> ml_view ml' \<noteq> ml_view ml) \<and>
      calls = (if changed \<and> ml_on_change ml then [(info_id info, info)] else [])) \<and>
   (case ml_update_state ml nid st inc now of (ml', calls, changed) \<Rightarrow>
      ml_view ml' = (ml_view ml)(nid := map_option (\<lambda>r. max r (inc, st)) (ml_view ml nid)) \<and>
      (changed \<longleftrightarrow> ml_view ml' \<noteq> ml_view ml) \<and>
      calls = (if changed \<and> ml_on_change ml then [(nid, the (ml_get_node ml' nid))] else []))"
proof -
  have "ml_view (fst (ml_add_node ml info)) = (ml_view ml)(info_id info \<mapsto>
      (case ml_view ml (info_id info) of None \<Rightarrow> info_rank info | Some r \<Rightarrow> max r (info_rank info)))"
    by (rule ext) (simp add: ml_view_add)
  moreover have "ml_view (fst (ml_update_state ml nid st inc now)) =
      (ml_view ml)(nid := map_option (\<lambda>r. max r (inc, st)) (ml_view ml nid))"
    by (rule ext) (simp add: ml_view_update)
  moreover have "r = max r q \<longleftrightarrow> \<not> r < q" for r q :: "u64 \<times> node_state"
    by (auto simp: max_def)
  ultimately show ?thesis
    by (simp add: case_prod_beta ml_add_node_calls ml_update_state_calls ml_add_node_changed
        ml_update_state_changed fun_upd_idem_iff del: split_paired_All split: option.splits)
qed



text \<open>
  C33. Every operation keeps the table well formed (one entry per node, filed under the identity it
  carries), the enumeration of the alive peers has each node the table holds as alive once, without
  the excluded one, and removal deletes exactly the entry named.
\<close>
theorem member_list_invariant:
  assumes "ml_ok ml"
  shows "ml_ok (fst (ml_add_node ml info)) \<and> ml_ok (fst (ml_update_state ml nid st inc now)) \<and>
    ml_ok (fst (ml_remove_node ml nid now)) \<and>
    ml_get_node (fst (ml_remove_node ml nid now)) = (ml_get_node ml)(nid := None) \<and>
    distinct (alive_peers ml excluding) \<and>
    set (alive_peers ml excluding) =
      {n. n \<noteq> excluding \<and> (\<exists>info. ml_get_node ml n = Some info \<and> info_state info = Alive)}"
proof (intro conjI)
  show "ml_ok (fst (ml_add_node ml info))"
    using assms by (auto simp: ml_add_node_def Let_def intro: ml_ok_set split: option.split)
  show "ml_ok (fst (ml_update_state ml nid st inc now))"
    using assms ml_okD [OF assms] by (auto simp: ml_update_state_def ml_get_node_def Let_def intro!: ml_ok_set split: option.split)
  show "ml_ok (fst (ml_remove_node ml nid now))"
    using assms by (auto simp: ml_remove_node_def Let_def intro: ml_ok_erase split: option.split)
  show "ml_get_node (fst (ml_remove_node ml nid now)) = (ml_get_node ml)(nid := None)"
    by (auto simp: ml_remove_node_def ml_get_node_def Let_def fun_eq_iff split: option.split)
qed (use assms in \<open>simp_all add: set_alive_peers distinct_alive_peers\<close>)

theorem member_list_invariant_witness:
  "\<exists>ml. ml_size ml = 1 \<and> ml_ok (fst (ml_remove_node ml \<lparr>node_host = ''a'', node_port = 7946\<rparr> 5))"
proof (intro exI conjI)
  let ?a = "\<lparr>node_host = ''a'', node_port = 7946\<rparr>"
  let ?ml = "\<lparr>ml_nodes = [(?a, default_node_info ?a 0)], ml_on_change = True\<rparr>"
  show "ml_size ?ml = 1" by (simp add: ml_size_def)
  have "ml_ok ?ml" by (simp add: ml_ok_def um_ok_def default_node_info_def)
  from member_list_invariant [OF this] show "ml_ok (fst (ml_remove_node ?ml ?a 5))" by blast
qed

text \<open>
  Random selection returns alive peers only and never the excluded node: one whenever there is
  one, and \<open>k\<close> different ones (all of them if there are fewer) for \<open>random_peers\<close>, if the library's
  distribution stays in its range and its shuffle permutes.
\<close>
theorem random_peers_sound:
  assumes "ml_ok ml" and draw: "\<forall>m. draw m \<le> m" and shuffle: "\<forall>xs. mset (shuffle xs) = mset xs"
  shows "(random_peer ml excluding draw = None \<longleftrightarrow> alive_peers ml excluding = []) \<and>
    set_option (random_peer ml excluding draw) \<subseteq> set (alive_peers ml excluding) \<and>
    distinct (random_peers ml k excluding shuffle) \<and>
    set (random_peers ml k excluding shuffle) \<subseteq> set (alive_peers ml excluding) \<and>
    length (random_peers ml k excluding shuffle) = min k (length (alive_peers ml excluding))"
proof (intro conjI)
  let ?p = "alive_peers ml excluding"
  have perm: "distinct (shuffle ?p)" "set (shuffle ?p) = set ?p" "length (shuffle ?p) = length ?p"
    using shuffle distinct_alive_peers [OF assms(1)] by (metis mset_eq_imp_distinct_iff, metis mset_eq_setD, metis mset_eq_length)
  show "random_peer ml excluding draw = None \<longleftrightarrow> ?p = []" by (simp add: random_peer_def Let_def)
  have "draw (length ?p - 1) < length ?p" if "?p \<noteq> []"
    using that draw [rule_format, of "length ?p - 1"] by (cases ?p) auto
  then show "set_option (random_peer ml excluding draw) \<subseteq> set ?p" by (simp add: random_peer_def Let_def)
  show "distinct (random_peers ml k excluding shuffle)"
    using perm distinct_alive_peers [OF assms(1)] by (simp add: random_peers_def Let_def)
  show "set (random_peers ml k excluding shuffle) \<subseteq> set ?p"
    using perm set_take_subset [of k "shuffle ?p"] by (auto simp: random_peers_def Let_def)
  show "length (random_peers ml k excluding shuffle) = min k (length ?p)"
    using perm by (simp add: random_peers_def Let_def)
qed

theorem random_peers_sound_witness:
  "\<exists>ml. length (random_peers ml 1 \<lparr>node_host = ''c'', node_port = 1\<rparr> rev) = 1"
proof (intro exI)
  let ?a = "\<lparr>node_host = ''a'', node_port = 7946\<rparr>" and ?b = "\<lparr>node_host = ''b'', node_port = 7946\<rparr>"
  let ?ml = "\<lparr>ml_nodes = [(?a, default_node_info ?a 0), (?b, default_node_info ?b 0)], ml_on_change = True\<rparr>"
  have "ml_ok ?ml" by (simp add: ml_ok_def um_ok_def default_node_info_def)
  moreover have "length (alive_peers ?ml \<lparr>node_host = ''c'', node_port = 1\<rparr>) = 2"
    by (simp add: alive_peers_def default_node_info_def)
  ultimately show "length (random_peers ?ml 1 \<lparr>node_host = ''c'', node_port = 1\<rparr> rev) = 1"
    using random_peers_sound [of ?ml "\<lambda>m. 0" rev] by simp
qed

end
