(* ===== verification/Disseminator.thy ===== *)
theory Disseminator
  imports SwimMessage MemberList
begin

text \<open>
  The queue of piggybacked membership updates (\<open>src/src/membership/disseminator.h\<close> and
  \<open>disseminator.cpp\<close>).

  \<open>std::sort\<close> does not say how it orders entries with equal transmit counts, so the sorting
  function is an argument of \<open>get_updates\<close>, and the theorems hold for every function that
  permutes its input into ascending order (\<open>sorts_by\<close>). The transmit count is a 32-bit counter,
  \<open>max_transmissions\<close> a \<open>size_t\<close>.
\<close>

section \<open>State and operations\<close>

record entry =
  ent_update :: membership_update
  ent_transmit_count :: u32

record disseminator =
  dis_max_transmissions :: nat
  dis_queue :: "entry list"

definition new_disseminator :: "nat \<Rightarrow> disseminator" where
  "new_disseminator max_transmissions = \<lparr>dis_max_transmissions = max_transmissions, dis_queue = []\<rparr>"

definition update_supersedes :: "membership_update \<Rightarrow> membership_update \<Rightarrow> bool" where
  "update_supersedes u cur \<longleftrightarrow>
     upd_incarnation u > upd_incarnation cur \<or>
     (upd_incarnation u = upd_incarnation cur \<and> update_type_val (upd_type u) > update_type_val (upd_type cur))"

fun enqueue_loop :: "entry list \<Rightarrow> membership_update \<Rightarrow> entry list" where
  "enqueue_loop [] u = [\<lparr>ent_update = u, ent_transmit_count = 0\<rparr>]"
| "enqueue_loop (e # es) u =
     (if upd_node (ent_update e) = upd_node u
      then (if update_supersedes u (ent_update e)
            then e\<lparr>ent_update := u, ent_transmit_count := 0\<rparr> else e) # es
      else e # enqueue_loop es u)"

definition enqueue :: "disseminator \<Rightarrow> membership_update \<Rightarrow> disseminator" where
  "enqueue d u = d\<lparr>dis_queue := enqueue_loop (dis_queue d) u\<rparr>"

fun transmit_loop :: "nat \<Rightarrow> entry list \<Rightarrow> membership_update list \<Rightarrow> entry list \<times> membership_update list" where
  "transmit_loop 0 es result = (es, result)"
| "transmit_loop (Suc k) [] result = ([], result)"
| "transmit_loop (Suc k) (e # es) result =
     (let (es, result) = transmit_loop k es (result @ [ent_update e])
      in (e\<lparr>ent_transmit_count := ent_transmit_count e + 1\<rparr> # es, result))"

definition get_updates ::
  "(entry list \<Rightarrow> entry list) \<Rightarrow> disseminator \<Rightarrow> nat \<Rightarrow> disseminator \<times> membership_update list" where
  "get_updates sort_entries d limit =
     (let queue = sort_entries (dis_queue d);
          count = min limit (length queue);
          (queue, result) = transmit_loop count queue [];
          queue = filter (\<lambda>e. \<not> unat (ent_transmit_count e) \<ge> dis_max_transmissions d) queue
      in (d\<lparr>dis_queue := queue\<rparr>, result))"

definition pending :: "disseminator \<Rightarrow> nat" where
  "pending d = length (dis_queue d)"

text \<open>The contract of \<open>std::sort\<close> with the code's comparison.\<close>

definition sorts_by :: "('a \<Rightarrow> 'k::linorder) \<Rightarrow> ('a list \<Rightarrow> 'a list) \<Rightarrow> bool" where
  "sorts_by key srt \<longleftrightarrow> (\<forall>xs. mset (srt xs) = mset xs \<and> sorted (map key (srt xs)))"

section \<open>Invariant\<close>

text \<open>One update per node, and none that has used up its transmissions.\<close>

definition dis_ok :: "disseminator \<Rightarrow> bool" where
  "dis_ok d \<longleftrightarrow>
     distinct (map (upd_node \<circ> ent_update) (dis_queue d)) \<and>
     (\<forall>e \<in> set (dis_queue d). unat (ent_transmit_count e) < dis_max_transmissions d)"

text \<open>The transmissions that are still to come, as a multiset of updates.\<close>

definition entry_budget :: "nat \<Rightarrow> entry \<Rightarrow> membership_update multiset" where
  "entry_budget m e = replicate_mset (m - unat (ent_transmit_count e)) (ent_update e)"

definition budget :: "disseminator \<Rightarrow> membership_update multiset" where
  "budget d = (\<Sum>e \<in># mset (dis_queue d). entry_budget (dis_max_transmissions d) e)"

definition update_rank :: "membership_update \<Rightarrow> u64 \<times> u8" where
  "update_rank u = (upd_incarnation u, update_type_val (upd_type u))"

interpretation gossip: precedence update_rank update_supersedes
  by unfold_locales (auto simp: update_rank_def update_supersedes_def)

text \<open>The update queued for a node.\<close>

definition queued :: "disseminator \<Rightarrow> node_id \<Rightarrow> entry option" where
  "queued d nid = find (\<lambda>e. upd_node (ent_update e) = nid) (dis_queue d)"

section \<open>Lemmas\<close>

lemma sorts_byD:
  assumes "sorts_by key srt"
  shows "mset (srt xs) = mset xs" and "sorted (map key (srt xs))" and "set (srt xs) = set xs"
    and "length (srt xs) = length xs"
  using assms by (auto simp: sorts_by_def dest: mset_eq_setD) (metis mset_eq_length)

lemma transmit_loop_eq:
  "k \<le> length es \<Longrightarrow>
   transmit_loop k es result =
     (map (\<lambda>e. e\<lparr>ent_transmit_count := ent_transmit_count e + 1\<rparr>) (take k es) @ drop k es,
      result @ map ent_update (take k es))"
  by (induction k es result rule: transmit_loop.induct) simp_all

abbreviation bump :: "entry \<Rightarrow> entry" where
  "bump e \<equiv> e\<lparr>ent_transmit_count := ent_transmit_count e + 1\<rparr>"

abbreviation live :: "nat \<Rightarrow> entry \<Rightarrow> bool" where
  "live m e \<equiv> \<not> unat (ent_transmit_count e) \<ge> m"

lemma get_updates_eq:
  "get_updates srt d limit =
     (let q = srt (dis_queue d)
      in (d\<lparr>dis_queue := filter (live (dis_max_transmissions d)) (map bump (take limit q) @ drop limit q)\<rparr>,
          map ent_update (take limit q)))"
  by (cases "limit \<le> length (srt (dis_queue d))")
    (simp_all add: get_updates_def Let_def transmit_loop_eq min_def del: filter_append)

lemma unat_bump:
  assumes "live m e" and "m < 2 ^ 32"
  shows "unat (ent_transmit_count e + 1) = unat (ent_transmit_count e) + 1"
proof -
  have "unat (ent_transmit_count e) + 1 < 2 ^ LENGTH(32)" using assms by simp
  then show ?thesis by (simp add: unat_word_ariths)
qed

lemma entry_budget_bump:
  assumes "live m e" and "m < 2 ^ 32"
  shows "entry_budget m e = add_mset (ent_update e) (entry_budget m (bump e))"
proof -
  have "m - unat (ent_transmit_count e) = Suc (m - unat (ent_transmit_count (bump e)))"
    using assms unat_bump [OF assms] by simp
  then show ?thesis by (simp add: entry_budget_def)
qed

lemma entry_budget_dead [simp]: "\<not> live m e \<Longrightarrow> entry_budget m e = {#}"
  by (simp add: entry_budget_def)

lemma budget_filter_live:
  "(\<Sum>e \<in># mset (filter (live m) es). entry_budget m e) = (\<Sum>e \<in># mset es. entry_budget m e)"
  by (induction es) auto

lemma budget_bump:
  assumes "\<forall>e \<in> set es. live m e" and "m < 2 ^ 32"
  shows "(\<Sum>e \<in># mset es. entry_budget m e) =
    mset (map ent_update es) + (\<Sum>e \<in># mset (map bump es). entry_budget m e)"
  using assms by (induction es) (simp_all add: entry_budget_bump)

lemma nodes_enqueue_loop [simp]:
  "upd_node ` ent_update ` set (enqueue_loop es u) = insert (upd_node u) (upd_node ` ent_update ` set es)"
  by (induction es u rule: enqueue_loop.induct) auto

lemma distinct_enqueue_loop:
  "distinct (map (upd_node \<circ> ent_update) es) \<Longrightarrow> distinct (map (upd_node \<circ> ent_update) (enqueue_loop es u))"
proof (induction es u rule: enqueue_loop.induct)
  case (2 e es u)
  moreover have "upd_node (ent_update e) \<notin> (upd_node \<circ> ent_update) ` set (enqueue_loop es u)"
    if "upd_node (ent_update e) \<noteq> upd_node u"
    using that 2 nodes_enqueue_loop [of es u] by (auto simp: image_comp)
  ultimately show ?case by auto
qed simp

lemma dis_ok_enqueue:
  assumes "dis_ok d" and "0 < dis_max_transmissions d"
  shows "dis_ok (enqueue d u)"
proof -
  have "0 < m \<Longrightarrow> (\<forall>e \<in> set es. unat (ent_transmit_count e) < m) \<Longrightarrow>
      e \<in> set (enqueue_loop es u) \<Longrightarrow> unat (ent_transmit_count e) < m" for es m e
    by (induction es u rule: enqueue_loop.induct) (auto split: if_splits)
  from this [of "dis_max_transmissions d" "dis_queue d"] assms show ?thesis
    by (auto simp: dis_ok_def enqueue_def distinct_enqueue_loop)
qed

lemma queued_enqueue:
  "queued (enqueue d u) nid =
     (if nid = upd_node u
      then Some (case queued d nid of
                   None \<Rightarrow> \<lparr>ent_update = u, ent_transmit_count = 0\<rparr>
                 | Some e \<Rightarrow> if update_supersedes u (ent_update e)
                             then \<lparr>ent_update = u, ent_transmit_count = 0\<rparr> else e)
      else queued d nid)"
proof -
  have "find (\<lambda>e. upd_node (ent_update e) = nid) (enqueue_loop es u) =
     (if nid = upd_node u
      then Some (case find (\<lambda>e. upd_node (ent_update e) = nid) es of
                   None \<Rightarrow> \<lparr>ent_update = u, ent_transmit_count = 0\<rparr>
                 | Some e \<Rightarrow> if update_supersedes u (ent_update e)
                             then \<lparr>ent_update = u, ent_transmit_count = 0\<rparr> else e)
      else find (\<lambda>e. upd_node (ent_update e) = nid) es)" for es
    by (induction es u rule: enqueue_loop.induct) auto
  then show ?thesis by (simp add: queued_def enqueue_def)
qed

lemma get_updates_budget:
  assumes "sorts_by ent_transmit_count srt" and "dis_ok d" and m: "dis_max_transmissions d < 2 ^ 32"
    and "get_updates srt d limit = (d', us)"
  shows "mset us + budget d' = budget d"
proof -
  let ?q = "srt (dis_queue d)" and ?m = "dis_max_transmissions d"
  have d': "dis_queue d' = filter (live ?m) (map bump (take limit ?q) @ drop limit ?q)"
    and m': "dis_max_transmissions d' = ?m" and us: "us = map ent_update (take limit ?q)"
    using assms(4) by (auto simp: get_updates_eq Let_def)
  have "\<forall>e \<in> set (take limit ?q). live ?m e"
    using assms(2) sorts_byD(3) [OF assms(1), of "dis_queue d"] by (auto simp: dis_ok_def not_le dest!: in_set_takeD)
  from budget_bump [OF this m] have
    "mset us + (\<Sum>e \<in># mset (map bump (take limit ?q) @ drop limit ?q). entry_budget ?m e) =
     (\<Sum>e \<in># mset (take limit ?q @ drop limit ?q). entry_budget ?m e)"
    by (simp only: us mset_append image_mset_union sum_mset.union add.assoc)
  then have "mset us + (\<Sum>e \<in># mset (map bump (take limit ?q) @ drop limit ?q). entry_budget ?m e) =
     (\<Sum>e \<in># mset (dis_queue d). entry_budget ?m e)"
    by (simp only: append_take_drop_id sorts_byD(1) [OF assms(1)])
  then show ?thesis by (simp only: budget_def d' m' budget_filter_live)
qed

lemma dis_ok_get_updates:
  assumes "sorts_by ent_transmit_count srt" and "dis_ok d" and "get_updates srt d limit = (d', us)"
  shows "dis_ok d'"
proof -
  let ?q = "srt (dis_queue d)" and ?m = "dis_max_transmissions d"
  have d': "dis_queue d' = filter (live ?m) (map bump (take limit ?q) @ drop limit ?q)"
    and m': "dis_max_transmissions d' = ?m"
    using assms(3) by (auto simp: get_updates_eq Let_def)
  have "mset (map (upd_node \<circ> ent_update) ?q) = mset (map (upd_node \<circ> ent_update) (dis_queue d))"
    using sorts_byD(1) [OF assms(1)] by simp
  then have "distinct (map (upd_node \<circ> ent_update) ?q)"
    using assms(2) by (metis dis_ok_def mset_eq_imp_distinct_iff)
  moreover have "map (upd_node \<circ> ent_update) (map bump (take limit ?q) @ drop limit ?q) =
      map (upd_node \<circ> ent_update) (take limit ?q @ drop limit ?q)"
    by (simp only: map_append map_map) (simp add: comp_def)
  ultimately have "distinct (map (upd_node \<circ> ent_update) (map bump (take limit ?q) @ drop limit ?q))"
    by (simp only: append_take_drop_id)
  then have "distinct (map (upd_node \<circ> ent_update) (dis_queue d'))"
    by (simp only: d' distinct_map_filter)
  then show ?thesis unfolding dis_ok_def m' by (auto simp: d')
qed

lemma length_get_updates:
  "sorts_by ent_transmit_count srt \<Longrightarrow> length (snd (get_updates srt d limit)) = min limit (pending d)"
  by (simp add: get_updates_eq Let_def pending_def sorts_byD min.commute)

lemma get_updates_least:
  assumes "sorts_by ent_transmit_count srt" and "dis_ok d"
    and "e \<in> set (dis_queue d)" and "ent_update e \<in> set (snd (get_updates srt d limit))"
    and "e' \<in> set (dis_queue d)" and "ent_update e' \<notin> set (snd (get_updates srt d limit))"
  shows "ent_transmit_count e \<le> ent_transmit_count e'"
proof -
  let ?q = "srt (dis_queue d)"
  have inj: "inj_on ent_update (set (dis_queue d))"
    using assms(2) by (auto simp: dis_ok_def distinct_map intro: inj_on_imageI2)
  have us: "snd (get_updates srt d limit) = map ent_update (take limit ?q)" by (simp add: get_updates_eq Let_def)
  have q: "set ?q = set (dis_queue d)" by (rule sorts_byD(3) [OF assms(1)])
  from assms(4) us obtain x where "x \<in> set (take limit ?q)" "ent_update x = ent_update e" by auto
  moreover from this(1) have "x \<in> set (dis_queue d)" using q by (auto dest: in_set_takeD)
  ultimately have e: "e \<in> set (take limit ?q)" using inj assms(3) by (auto dest: inj_onD)
  have "e' \<in> set (take limit ?q) \<union> set (drop limit ?q)" using assms(5) q by (metis append_take_drop_id set_append)
  moreover have "e' \<notin> set (take limit ?q)" using assms(6) us by auto
  ultimately have e': "e' \<in> set (drop limit ?q)" by blast
  have "sorted (map ent_transmit_count (take limit ?q @ drop limit ?q))"
    using sorts_byD(2) [OF assms(1)] by simp
  with e e' show ?thesis by (simp only: map_append sorted_append) auto
qed

text \<open>\<open>n\<close> rounds of gossip with nothing enqueued in between.\<close>

fun gossip_rounds :: "(entry list \<Rightarrow> entry list) \<Rightarrow> nat \<Rightarrow> nat \<Rightarrow> disseminator \<Rightarrow> disseminator \<times> membership_update list" where
  "gossip_rounds srt limit 0 d = (d, [])"
| "gossip_rounds srt limit (Suc n) d =
     (let (d, us) = get_updates srt d limit; (d, vs) = gossip_rounds srt limit n d in (d, us @ vs))"

lemma max_transmissions_get_updates [simp]:
  "dis_max_transmissions (fst (get_updates srt d limit)) = dis_max_transmissions d"
  by (simp add: get_updates_eq Let_def)

lemma budget_empty_iff: "dis_ok d \<Longrightarrow> budget d = {#} \<longleftrightarrow> dis_queue d = []"
  by (cases "dis_queue d") (auto simp: budget_def dis_ok_def entry_budget_def)

lemma gossip_rounds_budget:
  assumes "sorts_by ent_transmit_count srt" and "dis_ok d" and "dis_max_transmissions d < 2 ^ 32"
    and "0 < limit" and "gossip_rounds srt limit n d = (d', us)"
  shows "dis_ok d' \<and> mset us + budget d' = budget d \<and> size (budget d') \<le> size (budget d) - n"
  using assms(2,3,5)
proof (induction n arbitrary: d us)
  case (Suc n)
  obtain d1 vs where g: "get_updates srt d limit = (d1, vs)" by fastforce
  with Suc.prems(3) obtain ws where ws: "gossip_rounds srt limit n d1 = (d', ws)" and us: "us = vs @ ws"
    by (auto split: prod.splits)
  have ok1: "dis_ok d1" by (rule dis_ok_get_updates [OF assms(1) Suc.prems(1) g])
  have b: "mset vs + budget d1 = budget d" by (rule get_updates_budget [OF assms(1) Suc.prems(1,2) g])
  from Suc.IH [OF ok1 _ ws] Suc.prems(2) g
  have ih: "dis_ok d' \<and> mset ws + budget d' = budget d1 \<and> size (budget d') \<le> size (budget d1) - n"
    using max_transmissions_get_updates [of srt d limit] by simp
  have "size (budget d1) \<le> size (budget d) - 1"
  proof (cases "dis_queue d = []")
    case True
    then show ?thesis using b by (simp add: budget_def)
  next
    case False
    then have "1 \<le> length vs" using length_get_updates [OF assms(1), of d limit] g assms(4)
      by (simp add: pending_def Suc_le_eq)
    then show ?thesis using b by (metis diff_le_mono2 add_diff_cancel_left' size_mset size_union)
  qed
  with ih b us show ?case by (auto simp: add.assoc)
qed simp

lemma sorts_by_sort_key: "sorts_by key (sort_key key)"
  by (simp add: sorts_by_def)

abbreviation example_disseminator :: disseminator where
  "example_disseminator \<equiv> enqueue (new_disseminator 2)
     \<lparr>upd_type = Update_Join, upd_node = \<lparr>node_host = ''a'', node_port = 1\<rparr>, upd_incarnation = 0, upd_data_port = 2\<rparr>"

section \<open>Properties\<close>

text \<open>
  Enqueueing keeps at most one update per node: it replaces the update queued for the same node
  exactly when the new one has a higher incarnation, or the same incarnation and a later type, and
  then restarts its count; it appends an update of a node without one; updates of other nodes stay.
\<close>
theorem enqueue_spec:
  assumes "dis_ok d" and "0 < dis_max_transmissions d"
  shows "dis_ok (enqueue d u) \<and>
    queued (enqueue d u) = (queued d)(upd_node u \<mapsto>
      (case queued d (upd_node u) of
         None \<Rightarrow> \<lparr>ent_update = u, ent_transmit_count = 0\<rparr>
       | Some e \<Rightarrow> if update_rank (ent_update e) < update_rank u
                   then \<lparr>ent_update = u, ent_transmit_count = 0\<rparr> else e))"
  using dis_ok_enqueue [OF assms, of u] by (auto simp: queued_enqueue fun_eq_iff gossip.supersedes_iff split: option.split)

theorem enqueue_spec_witness:
  "dis_ok (enqueue (new_disseminator 10)
     \<lparr>upd_type = Update_Join, upd_node = \<lparr>node_host = ''a'', node_port = 1\<rparr>, upd_incarnation = 0, upd_data_port = 2\<rparr>)"
  using enqueue_spec [of "new_disseminator 10"] by (simp add: new_disseminator_def dis_ok_def)

text \<open>
  One round hands out as many updates as asked for, or all there are, of the least often
  transmitted entries. It keeps the queue well formed, and takes exactly one transmission per update
  handed out from what remains to be transmitted: no update is lost, duplicated or sent more often
  than allowed.
\<close>
theorem get_updates_spec:
  assumes "sorts_by ent_transmit_count srt" and "dis_ok d" and "dis_max_transmissions d < 2 ^ 32"
    and "get_updates srt d limit = (d', us)"
  shows "dis_ok d' \<and> length us = min limit (pending d) \<and> mset us + budget d' = budget d \<and>
    (\<forall>e \<in> set (dis_queue d). \<forall>e' \<in> set (dis_queue d). ent_update e \<in> set us \<longrightarrow> ent_update e' \<notin> set us \<longrightarrow>
       ent_transmit_count e \<le> ent_transmit_count e')"
  using dis_ok_get_updates [OF assms(1,2,4)] length_get_updates [OF assms(1), of d limit]
    get_updates_budget [OF assms] get_updates_least [OF assms(1,2), of _ limit] assms(4)
  by auto

theorem get_updates_spec_witness:
  "\<exists>d' us. get_updates (sort_key ent_transmit_count) example_disseminator 3 = (d', us) \<and>
     length us = 1 \<and> mset us + budget d' = budget example_disseminator"
proof -
  obtain d' us where g: "get_updates (sort_key ent_transmit_count) example_disseminator 3 = (d', us)" by fastforce
  have "dis_ok example_disseminator" and "dis_max_transmissions example_disseminator < 2 ^ 32"
    and "pending example_disseminator = 1"
    by (simp_all add: dis_ok_def new_disseminator_def enqueue_def pending_def)
  with get_updates_spec [OF sorts_by_sort_key _ _ g] g show ?thesis by simp
qed

text \<open>
  If nothing new is enqueued, the queue drains: after as many rounds as there are transmissions
  left it is empty, and every update has been handed out exactly as often as it had transmissions left.
\<close>
theorem gossip_drains:
  assumes "sorts_by ent_transmit_count srt" and "dis_ok d" and "dis_max_transmissions d < 2 ^ 32"
    and "0 < limit" and "size (budget d) \<le> n"
  shows "\<exists>d' us. gossip_rounds srt limit n d = (d', us) \<and> pending d' = 0 \<and> mset us = budget d"
proof -
  obtain d' us where g: "gossip_rounds srt limit n d = (d', us)" by fastforce
  from gossip_rounds_budget [OF assms(1-4) g] assms(5)
  have "dis_ok d'" and b: "mset us + budget d' = budget d" and "budget d' = {#}" by auto
  with budget_empty_iff have "dis_queue d' = []" by blast
  with g b \<open>budget d' = {#}\<close> show ?thesis by (auto simp: pending_def)
qed

theorem gossip_drains_witness:
  "\<exists>d' us. gossip_rounds (sort_key ent_transmit_count) 3 2 example_disseminator = (d', us) \<and>
     pending d' = 0 \<and> mset us = budget example_disseminator"
  by (rule gossip_drains)
    (simp_all add: sorts_by_sort_key dis_ok_def new_disseminator_def enqueue_def budget_def entry_budget_def)

end
