(* ===== verification/SwimProtocol.thy ===== *)
theory SwimProtocol
  imports Disseminator Ring
begin

text \<open>
  The failure detector (\<open>src/src/membership/swim_protocol.h\<close> and \<open>swim_protocol.cpp\<close>) and the way
  \<open>main.cpp\<close> wires it to the ring.

  The three loops of the protocol and the relays it spawns are coroutines of one thread, which run
  from one await to the next without interruption. Each such stretch is a function here: from a timer
  to the next timer for the probe (\<open>direct_ping\<close>, \<open>indirect_ping\<close> and what follows them), one request
  to a relay, one datagram for the receiver, one round of the reaper, and the three parts of a
  relay. The messages a stretch sends are part of its result, with their destinations; so are the calls of the member table's change listener. The clock, the random
  choices and the sort of the disseminator are arguments.
\<close>

section \<open>State\<close>

record swim_config =
  sc_protocol_period :: int
  sc_ping_timeout :: int
  sc_suspect_timeout :: int
  sc_indirect_ping_peers :: u32
  sc_max_piggyback_updates :: nat
  sc_self_data_port :: u16

record swim_protocol =
  sw_members :: member_list
  sw_disseminator :: disseminator
  sw_self :: node_id
  sw_config :: swim_config
  sw_running :: bool
  sw_incarnation :: u64
  sw_seq_counter :: u32
  sw_pending_acks :: "(u32 \<times> bool) list"

type_synonym datagram = "node_id \<times> swim_message"

definition new_swim_protocol :: "member_list \<Rightarrow> disseminator \<Rightarrow> node_id \<Rightarrow> swim_config \<Rightarrow> swim_protocol" where
  "new_swim_protocol members dis self config =
     \<lparr>sw_members = members, sw_disseminator = dis, sw_self = self, sw_config = config, sw_running = False,
      sw_incarnation = 0, sw_seq_counter = 0, sw_pending_acks = []\<rparr>"

definition swim_run :: "swim_protocol \<Rightarrow> swim_protocol" where
  "swim_run sw = sw\<lparr>sw_running := True\<rparr>"

definition swim_stop :: "swim_protocol \<Rightarrow> swim_protocol" where
  "swim_stop sw = sw\<lparr>sw_running := False\<rparr>"

definition next_seq :: "swim_protocol \<Rightarrow> swim_protocol \<times> u32" where
  "next_seq sw = (sw\<lparr>sw_seq_counter := sw_seq_counter sw + 1\<rparr>, sw_seq_counter sw)"

text \<open>Taking the updates to piggyback on a message.\<close>

definition piggyback :: "(entry list \<Rightarrow> entry list) \<Rightarrow> swim_protocol \<Rightarrow> swim_protocol \<times> membership_update list" where
  "piggyback srt sw =
     (case get_updates srt (sw_disseminator sw) (sc_max_piggyback_updates (sw_config sw)) of
        (d, us) \<Rightarrow> (sw\<lparr>sw_disseminator := d\<rparr>, us))"

section \<open>Probing\<close>

definition direct_ping :: "(entry list \<Rightarrow> entry list) \<Rightarrow> swim_protocol \<Rightarrow> node_id \<Rightarrow> swim_protocol \<times> datagram list \<times> u32" where
  "direct_ping srt sw target =
     (let (sw, seq) = next_seq sw;
          sw = sw\<lparr>sw_pending_acks := um_set seq False (sw_pending_acks sw)\<rparr>;
          (sw, us) = piggyback srt sw;
          ping = \<lparr>msg_type = Ping, msg_seq_num = seq, msg_sender = sw_self sw, msg_target = None, msg_updates = us\<rparr>
      in (sw, [(target, ping)], seq))"

text \<open>What \<open>direct_ping\<close> and \<open>indirect_ping\<close> do when their timeout has passed.\<close>

definition ping_result :: "swim_protocol \<Rightarrow> u32 \<Rightarrow> swim_protocol \<times> bool" where
  "ping_result sw seq =
     (let acked = (case um_find seq (sw_pending_acks sw) of Some b \<Rightarrow> b | None \<Rightarrow> False)
      in (sw\<lparr>sw_pending_acks := um_erase seq (sw_pending_acks sw)\<rparr>, acked))"

text \<open>
  \<open>indirect_ping\<close>: the relays are chosen first, then each is sent a request, with an await after each;
  \<open>None\<close> is the early return when there is nobody to ask.
\<close>

definition indirect_ping ::
  "(node_id list \<Rightarrow> node_id list) \<Rightarrow> swim_protocol \<Rightarrow> swim_protocol \<times> (u32 \<times> node_id list) option" where
  "indirect_ping shuffle sw =
     (let intermediaries = random_peers (sw_members sw) (unat (sc_indirect_ping_peers (sw_config sw))) (sw_self sw) shuffle
      in if intermediaries = [] then (sw, None)
         else
           let (sw, seq) = next_seq sw;
               sw = sw\<lparr>sw_pending_acks := um_set seq False (sw_pending_acks sw)\<rparr>
           in (sw, Some (seq, intermediaries)))"

definition ping_req :: "(entry list \<Rightarrow> entry list) \<Rightarrow> u32 \<Rightarrow> node_id \<Rightarrow> node_id \<Rightarrow> swim_protocol \<Rightarrow> swim_protocol \<times> datagram list" where
  "ping_req srt seq target r sw =
     (let (sw, us) = piggyback srt sw;
          req = \<lparr>msg_type = PingReq, msg_seq_num = seq, msg_sender = sw_self sw, msg_target = Some target, msg_updates = us\<rparr>
      in (sw, [(r, req)]))"

text \<open>The end of a round of \<open>probe_loop\<close> in which nobody answered.\<close>

definition suspect_target :: "swim_protocol \<Rightarrow> node_id \<Rightarrow> time_point \<Rightarrow> swim_protocol \<times> change_call list" where
  "suspect_target sw target now =
     (case ml_get_node (sw_members sw) target of
        None \<Rightarrow> (sw, [])
      | Some info \<Rightarrow>
          (case ml_update_state (sw_members sw) target Suspect (info_incarnation info) now of
             (ml, calls, ok) \<Rightarrow>
               (sw\<lparr>sw_members := ml,
                   sw_disseminator := (if ok
                     then enqueue (sw_disseminator sw) \<lparr>upd_type = Update_Suspect, upd_node = target,
                            upd_incarnation = info_incarnation info, upd_data_port = 0\<rparr>
                     else sw_disseminator sw)\<rparr>, calls)))"

section \<open>The reaper\<close>

text \<open>\<open>duration_cast\<close> of a difference of time points to milliseconds truncates towards zero.\<close>

definition elapsed_ms :: "time_point \<Rightarrow> time_point \<Rightarrow> int" where
  "elapsed_ms now since =
     (if since \<le> now then int ((now - since) div 1000000) else - int ((since - now) div 1000000))"

fun reap :: "time_point \<Rightarrow> (node_id \<times> node_info) list \<Rightarrow> swim_protocol \<Rightarrow> swim_protocol \<times> change_call list" where
  "reap now [] sw = (sw, [])"
| "reap now ((nid, node) # nodes) sw =
     (if nid = sw_self sw then reap now nodes sw
      else if info_state node \<noteq> Suspect then reap now nodes sw
      else if elapsed_ms now (info_last_change node) \<ge> sc_suspect_timeout (sw_config sw) then
        (case ml_update_state (sw_members sw) nid Dead (info_incarnation node) now of
           (ml, calls, ok) \<Rightarrow>
             let sw = sw\<lparr>sw_members := ml,
                   sw_disseminator := (if ok
                     then enqueue (sw_disseminator sw) \<lparr>upd_type = Update_Dead, upd_node = nid,
                            upd_incarnation = info_incarnation node, upd_data_port = 0\<rparr>
                     else sw_disseminator sw)\<rparr>
             in case reap now nodes sw of (sw, calls') \<Rightarrow> (sw, calls @ calls'))
      else reap now nodes sw)"

definition suspicion_reaper :: "time_point \<Rightarrow> swim_protocol \<Rightarrow> swim_protocol \<times> change_call list" where
  "suspicion_reaper now sw = reap now (ml_nodes (sw_members sw)) sw"

section \<open>Messages\<close>

fun apply_updates :: "time_point \<Rightarrow> membership_update list \<Rightarrow> swim_protocol \<Rightarrow> swim_protocol \<times> change_call list" where
  "apply_updates now [] sw = (sw, [])"
| "apply_updates now (u # us) sw =
     (if upd_node u = sw_self sw then
        if upd_type u = Update_Suspect \<or> upd_type u = Update_Dead then
          let sw = sw\<lparr>sw_incarnation := sw_incarnation sw + 1\<rparr>;
              sw = sw\<lparr>sw_disseminator := enqueue (sw_disseminator sw)
                     \<lparr>upd_type = Update_Alive, upd_node = sw_self sw, upd_incarnation = sw_incarnation sw,
                      upd_data_port = sc_self_data_port (sw_config sw)\<rparr>\<rparr>
          in case ml_update_state (sw_members sw) (sw_self sw) Alive (sw_incarnation sw) now of
               (ml, calls, ok) \<Rightarrow>
                 (case apply_updates now us (sw\<lparr>sw_members := ml\<rparr>) of (sw, calls') \<Rightarrow> (sw, calls @ calls'))
        else apply_updates now us sw
      else
        case (if upd_type u = Update_Join \<or> upd_type u = Update_Alive
              then ml_add_node (sw_members sw)
                     ((default_node_info (upd_node u) now)\<lparr>info_state := Alive, info_incarnation := upd_incarnation u,
                        info_data_port := upd_data_port u\<rparr>)
              else ml_update_state (sw_members sw) (upd_node u)
                     (case upd_type u of Update_Suspect \<Rightarrow> Suspect | Update_Dead \<Rightarrow> Dead | Update_Leave \<Rightarrow> Left | _ \<Rightarrow> Alive)
                     (upd_incarnation u) now) of
          (ml, calls, ok) \<Rightarrow>
            (case apply_updates now us (sw\<lparr>sw_members := ml\<rparr>) of (sw, calls') \<Rightarrow> (sw, calls @ calls')))"

fun sender_port :: "node_id \<Rightarrow> membership_update list \<Rightarrow> u16" where
  "sender_port sender [] = 0"
| "sender_port sender (u # us) =
     (if upd_node u = sender \<and> upd_data_port u \<noteq> 0 then upd_data_port u else sender_port sender us)"

definition learn_sender :: "time_point \<Rightarrow> swim_message \<Rightarrow> swim_protocol \<Rightarrow> swim_protocol \<times> change_call list" where
  "learn_sender now msg sw =
     (if msg_sender msg \<noteq> sw_self sw \<and> ml_get_node (sw_members sw) (msg_sender msg) = None then
        let dp = sender_port (msg_sender msg) (msg_updates msg);
            info = (default_node_info (msg_sender msg) now)\<lparr>info_data_port := dp, info_state := Alive\<rparr>
        in case ml_add_node (sw_members sw) info of
             (ml, calls, ok) \<Rightarrow>
               (sw\<lparr>sw_members := ml,
                   sw_disseminator := enqueue (sw_disseminator sw) \<lparr>upd_type = Update_Join, upd_node = msg_sender msg,
                      upd_incarnation = 0, upd_data_port = dp\<rparr>\<rparr>, calls)
      else (sw, []))"

definition on_ping :: "(entry list \<Rightarrow> entry list) \<Rightarrow> swim_message \<Rightarrow> swim_protocol \<Rightarrow> swim_protocol \<times> datagram list" where
  "on_ping srt msg sw =
     (let (sw, us) = piggyback srt sw;
          ack = \<lparr>msg_type = Ack, msg_seq_num = msg_seq_num msg, msg_sender = sw_self sw, msg_target = None, msg_updates = us\<rparr>
      in (sw, [(msg_sender msg, ack)]))"

definition on_ack :: "time_point \<Rightarrow> swim_message \<Rightarrow> swim_protocol \<Rightarrow> swim_protocol \<times> change_call list" where
  "on_ack now msg sw =
     (let sw = (case um_find (msg_seq_num msg) (sw_pending_acks sw) of
                  Some _ \<Rightarrow> sw\<lparr>sw_pending_acks := um_set (msg_seq_num msg) True (sw_pending_acks sw)\<rparr>
                | None \<Rightarrow> sw)
      in case ml_get_node (sw_members sw) (msg_sender msg) of
           Some node \<Rightarrow>
             if info_state node = Suspect \<or> info_state node = Dead
             then case ml_update_state (sw_members sw) (msg_sender msg) Alive (info_incarnation node) now of
                    (ml, calls, ok) \<Rightarrow> (sw\<lparr>sw_members := ml\<rparr>, calls)
             else (sw, [])
         | None \<Rightarrow> (sw, []))"

record relay =
  rl_requester :: node_id
  rl_orig_seq :: u32
  rl_local_seq :: u32

text \<open>
  \<open>relay_ping\<close> up to its timeout, after it (the flag tells whether it goes on to await the sending of the
  acknowledgement), and after that await.
\<close>

definition relay_ping :: "node_id \<Rightarrow> node_id \<Rightarrow> u32 \<Rightarrow> swim_protocol \<Rightarrow> swim_protocol \<times> datagram list \<times> relay" where
  "relay_ping target requester orig_seq sw =
     (let (sw, local_seq) = next_seq sw;
          ping = \<lparr>msg_type = Ping, msg_seq_num = local_seq, msg_sender = sw_self sw, msg_target = None, msg_updates = []\<rparr>;
          sw = sw\<lparr>sw_pending_acks := um_set local_seq False (sw_pending_acks sw)\<rparr>
      in (sw, [(target, ping)], \<lparr>rl_requester = requester, rl_orig_seq = orig_seq, rl_local_seq = local_seq\<rparr>))"

definition relay_timeout :: "relay \<Rightarrow> swim_protocol \<Rightarrow> swim_protocol \<times> datagram list \<times> bool" where
  "relay_timeout rl sw =
     (if um_find (rl_local_seq rl) (sw_pending_acks sw) = Some True
      then (sw, [(rl_requester rl, \<lparr>msg_type = Ack, msg_seq_num = rl_orig_seq rl, msg_sender = sw_self sw, msg_target = None,
                   msg_updates = []\<rparr>)], True)
      else (sw\<lparr>sw_pending_acks := um_erase (rl_local_seq rl) (sw_pending_acks sw)\<rparr>, [], False))"

definition relay_done :: "relay \<Rightarrow> swim_protocol \<Rightarrow> swim_protocol" where
  "relay_done rl sw = sw\<lparr>sw_pending_acks := um_erase (rl_local_seq rl) (sw_pending_acks sw)\<rparr>"

definition on_ping_req :: "swim_message \<Rightarrow> swim_protocol \<Rightarrow> swim_protocol \<times> datagram list \<times> relay list" where
  "on_ping_req msg sw =
     (case msg_target msg of
        None \<Rightarrow> (sw, [], [])
      | Some target \<Rightarrow>
          (case relay_ping target (msg_sender msg) (msg_seq_num msg) sw of (sw, sent, rl) \<Rightarrow> (sw, sent, [rl])))"

definition handle_message ::
  "(entry list \<Rightarrow> entry list) \<Rightarrow> time_point \<Rightarrow> swim_message \<Rightarrow> swim_protocol \<Rightarrow>
   swim_protocol \<times> datagram list \<times> change_call list \<times> relay list" where
  "handle_message srt now msg sw =
     (case learn_sender now msg sw of (sw, calls1) \<Rightarrow>
        case apply_updates now (msg_updates msg) sw of (sw, calls2) \<Rightarrow>
          case msg_type msg of
            Ping \<Rightarrow> (case on_ping srt msg sw of (sw, sent) \<Rightarrow> (sw, sent, calls1 @ calls2, []))
          | Ack \<Rightarrow> (case on_ack now msg sw of (sw, calls3) \<Rightarrow> (sw, [], calls1 @ calls2 @ calls3, []))
          | PingReq \<Rightarrow> (case on_ping_req msg sw of (sw, sent, rls) \<Rightarrow> (sw, sent, calls1 @ calls2, rls)))"

section \<open>How handlers change the member table\<close>

text \<open>
  \<open>table_run self ml calls ml'\<close>: the table goes from \<open>ml\<close> to \<open>ml'\<close> by a sequence of changes, each of
  which the listener hears of; new nodes come in as alive, and this node itself stays alive.
\<close>

inductive table_run :: "node_id \<Rightarrow> member_list \<Rightarrow> change_call list \<Rightarrow> member_list \<Rightarrow> bool" for self :: node_id where
  nil: "table_run self ml [] ml"
| change: "table_run self ml calls ml' \<Longrightarrow> info_id info = nid \<Longrightarrow> (nid = self \<longrightarrow> info_state info = Alive) \<Longrightarrow>
    (ml_get_node ml' nid = None \<longrightarrow> info_state info = Alive) \<Longrightarrow>
    table_run self ml (calls @ [(nid, info)]) (ml'\<lparr>ml_nodes := um_set nid info (ml_nodes ml')\<rparr>)"

lemma table_run_single:
  "info_id info = nid \<Longrightarrow> (nid = self \<longrightarrow> info_state info = Alive) \<Longrightarrow> (ml_get_node ml nid = None \<longrightarrow> info_state info = Alive) \<Longrightarrow>
   table_run self ml [(nid, info)] (ml\<lparr>ml_nodes := um_set nid info (ml_nodes ml)\<rparr>)"
  using table_run.change [OF table_run.nil, of info nid self ml] by simp

lemma table_run_trans:
  assumes "table_run self ml1 c1 ml2" and "table_run self ml2 c2 ml3"
  shows "table_run self ml1 (c1 @ c2) ml3"
  using assms(2,1)
proof (induction rule: table_run.induct)
  case (change ml calls ml' info nid)
  then show ?case using table_run.change [of self ml1 "c1 @ calls" ml' info nid] by simp
qed simp

lemma table_run_keeps:
  assumes "table_run self ml calls ml'" and "ml_ok ml"
  shows "ml_ok ml' \<and> ml_on_change ml' = ml_on_change ml \<and> fst ` set (ml_nodes ml) \<subseteq> fst ` set (ml_nodes ml')"
  using assms
proof (induction rule: table_run.induct)
  case (change ml calls ml' info nid)
  then have ok: "um_ok (ml_nodes ml')" "ml_ok ml'" by (simp_all add: ml_ok_def)
  have "info_id i = n" if "(n, i) \<in> set (um_set nid info (ml_nodes ml'))" for n i
  proof -
    have "um_find n (um_set nid info (ml_nodes ml')) = Some i" using that ok(1) by (simp add: um_find_mem)
    then show ?thesis using change.hyps(2) ml_okD [OF ok(2), of n i] by (simp add: ml_get_node_def split: if_splits)
  qed
  then have "\<forall>(n, i) \<in> set (um_set nid info (ml_nodes ml')). info_id i = n" by blast
  then show ?case using change by (auto simp: ml_ok_def)
qed simp

lemma table_run_self:
  assumes "table_run self ml calls ml'" and "\<exists>info. ml_get_node ml self = Some info \<and> info_state info = Alive"
  shows "\<exists>info. ml_get_node ml' self = Some info \<and> info_state info = Alive"
  using assms by (induction rule: table_run.induct) (auto simp: ml_get_node_def)

lemma notify_set:
  "ml_on_change ml \<Longrightarrow> notify (ml\<lparr>ml_nodes := um_set nid info (ml_nodes ml)\<rparr>) nid = [(nid, info)]"
  by (simp add: notify_def)

lemma add_node_run:
  assumes "ml_add_node ml info = (ml', calls, ok)" and "ml_on_change ml" and "info_state info = Alive"
  shows "table_run self ml calls ml'"
  using assms notify_set [OF assms(2)] table_run_single [of info "info_id info" self ml]
  by (auto simp: ml_add_node_def Let_def table_run.nil split: option.splits if_splits)

lemma update_state_run:
  assumes u: "ml_update_state ml nid st inc now = (ml', calls, ok)" and l: "ml_on_change ml" and mok: "ml_ok ml" and "nid = self \<longrightarrow> st = Alive"
  shows "table_run self ml calls ml'"
proof (cases "ml_get_node ml nid")
  case None
  then show ?thesis using u by (simp add: ml_update_state_def ml_get_node_def table_run.nil)
next
  case (Some n)
  then have n: "um_find nid (ml_nodes ml) = Some n" "info_id n = nid" using ml_okD [OF mok Some] by (simp_all add: ml_get_node_def)
  have run: "table_run self ml [(nid, i)] (ml\<lparr>ml_nodes := um_set nid i (ml_nodes ml)\<rparr>)" if "info_id i = nid" "info_state i = st" for i
    by (rule table_run_single) (use that assms(4) Some in auto)
  show ?thesis
  proof (cases "ok")
    case False
    then show ?thesis using u n by (auto simp: ml_update_state_def Let_def table_run.nil split: if_splits)
  next
    case True
    let ?i = "if inc > info_incarnation n then n\<lparr>info_state := st, info_incarnation := inc, info_last_change := now\<rparr>
      else n\<lparr>info_state := st, info_last_change := now\<rparr>"
    have "ml' = ml\<lparr>ml_nodes := um_set nid ?i (ml_nodes ml)\<rparr>" "calls = notify (ml\<lparr>ml_nodes := um_set nid ?i (ml_nodes ml)\<rparr>) nid"
      using True u n by (auto simp: ml_update_state_def Let_def split: if_splits)
    then show ?thesis using run [of ?i] notify_set [OF l, of nid ?i] n(2) by simp
  qed
qed

text \<open>What every handler keeps, with the calls of the listener.\<close>

definition sw_run :: "swim_protocol \<Rightarrow> change_call list \<Rightarrow> swim_protocol \<Rightarrow> bool" where
  "sw_run sw calls sw' \<longleftrightarrow> table_run (sw_self sw) (sw_members sw) calls (sw_members sw') \<and>
     sw_self sw' = sw_self sw \<and> sw_config sw' = sw_config sw"

definition sw_ok :: "swim_protocol \<Rightarrow> bool" where
  "sw_ok sw \<longleftrightarrow> ml_ok (sw_members sw) \<and> ml_on_change (sw_members sw)"

lemma sw_run_ok: "sw_run sw calls sw' \<Longrightarrow> sw_ok sw \<Longrightarrow> sw_ok sw'"
  using table_run_keeps by (fastforce simp: sw_run_def sw_ok_def)

lemma sw_run_trans: "sw_run sw c1 sw1 \<Longrightarrow> sw_run sw1 c2 sw2 \<Longrightarrow> sw_run sw (c1 @ c2) sw2"
  by (auto simp: sw_run_def intro: table_run_trans)

lemma sw_run_same: "sw_members sw' = sw_members sw \<Longrightarrow> sw_self sw' = sw_self sw \<Longrightarrow> sw_config sw' = sw_config sw \<Longrightarrow> sw_run sw [] sw'"
  by (simp add: sw_run_def table_run.nil)

abbreviation updates_of :: "(entry list \<Rightarrow> entry list) \<Rightarrow> swim_protocol \<Rightarrow> disseminator \<times> membership_update list" where
  "updates_of srt sw \<equiv> get_updates srt (sw_disseminator sw) (sc_max_piggyback_updates (sw_config sw))"

lemma piggyback_eq: "piggyback srt sw = (sw\<lparr>sw_disseminator := fst (updates_of srt sw)\<rparr>, snd (updates_of srt sw))"
  by (simp add: piggyback_def case_prod_beta)

lemma direct_ping_eq:
  "direct_ping srt sw target =
     (sw\<lparr>sw_seq_counter := sw_seq_counter sw + 1, sw_pending_acks := um_set (sw_seq_counter sw) False (sw_pending_acks sw),
         sw_disseminator := fst (updates_of srt sw)\<rparr>,
      [(target, \<lparr>msg_type = Ping, msg_seq_num = sw_seq_counter sw, msg_sender = sw_self sw, msg_target = None,
          msg_updates = snd (updates_of srt sw)\<rparr>)], sw_seq_counter sw)"
  by (simp add: direct_ping_def next_seq_def piggyback_eq Let_def)

lemma ping_req_eq:
  "ping_req srt seq target r sw = (sw\<lparr>sw_disseminator := fst (updates_of srt sw)\<rparr>,
     [(r, \<lparr>msg_type = PingReq, msg_seq_num = seq, msg_sender = sw_self sw, msg_target = Some target,
          msg_updates = snd (updates_of srt sw)\<rparr>)])"
  by (simp add: ping_req_def piggyback_eq Let_def)

lemma on_ping_eq:
  "on_ping srt msg sw = (sw\<lparr>sw_disseminator := fst (updates_of srt sw)\<rparr>,
     [(msg_sender msg, \<lparr>msg_type = Ack, msg_seq_num = msg_seq_num msg, msg_sender = sw_self sw, msg_target = None,
          msg_updates = snd (updates_of srt sw)\<rparr>)])"
  by (simp add: on_ping_def piggyback_eq Let_def)

lemmas ping_eqs = direct_ping_eq ping_req_eq on_ping_eq

lemma ping_req_run: "ping_req srt seq target r sw = (sw', sent) \<Longrightarrow> sw_run sw [] sw'"
  by (auto simp: ping_req_eq sw_run_def table_run.nil)

lemma direct_ping_run: "direct_ping srt sw target = (sw', sent, seq) \<Longrightarrow> sw_run sw [] sw'"
  by (auto simp: direct_ping_eq sw_run_def table_run.nil)

lemma ping_result_run: "ping_result sw seq = (sw', acked) \<Longrightarrow> sw_run sw [] sw'"
  by (auto simp: ping_result_def sw_run_def Let_def table_run.nil)

lemma indirect_ping_run: "indirect_ping shuffle sw = (sw', res) \<Longrightarrow> sw_run sw [] sw'"
  by (auto simp: indirect_ping_def next_seq_def sw_run_def Let_def table_run.nil split: if_splits)

lemma suspect_target_run:
  assumes "suspect_target sw target now = (sw', calls)" and "sw_ok sw" and "target \<noteq> sw_self sw"
  shows "sw_run sw calls sw'"
proof (cases "ml_get_node (sw_members sw) target")
  case None
  then show ?thesis using assms(1) by (simp add: suspect_target_def sw_run_def table_run.nil)
next
  case (Some info)
  obtain ml c ok where u: "ml_update_state (sw_members sw) target Suspect (info_incarnation info) now = (ml, c, ok)" by (metis surj_pair)
  have "table_run (sw_self sw) (sw_members sw) c ml"
    by (rule update_state_run [OF u]) (use assms(2,3) in \<open>auto simp: sw_ok_def\<close>)
  then show ?thesis using assms(1) Some u by (auto simp: suspect_target_def sw_run_def)
qed

lemma reap_run:
  "sw_ok sw \<Longrightarrow> reap now nodes sw = (sw', calls) \<Longrightarrow> sw_run sw calls sw'"
proof (induction nodes arbitrary: sw calls)
  case Nil
  then show ?case by (simp add: sw_run_def table_run.nil)
next
  case (Cons e nodes)
  obtain nid node where e: "e = (nid, node)" by fastforce
  show ?case
  proof (cases "nid \<noteq> sw_self sw \<and> info_state node = Suspect \<and> elapsed_ms now (info_last_change node) \<ge> sc_suspect_timeout (sw_config sw)")
    case False
    then have "reap now nodes sw = (sw', calls)" using Cons.prems(2) e by (auto split: if_splits)
    then show ?thesis by (rule Cons.IH [OF Cons.prems(1)])
  next
    case True
    obtain ml c ok where u: "ml_update_state (sw_members sw) nid Dead (info_incarnation node) now = (ml, c, ok)" by (metis surj_pair)
    define sw1 where "sw1 = sw\<lparr>sw_members := ml, sw_disseminator := (if ok
                     then enqueue (sw_disseminator sw) \<lparr>upd_type = Update_Dead, upd_node = nid,
                            upd_incarnation = info_incarnation node, upd_data_port = 0\<rparr>
                     else sw_disseminator sw)\<rparr>"
    obtain c' where r: "reap now nodes sw1 = (sw', c')" "calls = c @ c'"
      using Cons.prems(2) e True u by (auto simp: sw1_def Let_def split: prod.splits)
    have "table_run (sw_self sw) (sw_members sw) c ml"
      by (rule update_state_run [OF u]) (use Cons.prems(1) True in \<open>auto simp: sw_ok_def\<close>)
    then have run1: "sw_run sw c sw1" by (simp add: sw_run_def sw1_def)
    have "sw_run sw1 c' sw'" by (rule Cons.IH [OF sw_run_ok [OF run1 Cons.prems(1)] r(1)])
    then show ?thesis using sw_run_trans [OF run1] r(2) by simp
  qed
qed

lemma apply_updates_run:
  "sw_ok sw \<Longrightarrow> apply_updates now us sw = (sw', calls) \<Longrightarrow> sw_run sw calls sw'"
proof (induction us arbitrary: sw calls)
  case Nil
  then show ?case by (simp add: sw_run_def table_run.nil)
next
  case (Cons u us)
  have go: "sw_run sw calls sw'" if "sw_run sw c sw1" "apply_updates now us sw1 = (sw', c')" "calls = c @ c'" for sw1 c c'
    using sw_run_trans [OF that(1) Cons.IH [OF sw_run_ok [OF that(1) Cons.prems(1)] that(2)]] that(3) by simp
  show ?case
  proof (cases "upd_node u = sw_self sw")
    case self: True
    show ?thesis
    proof (cases "upd_type u = Update_Suspect \<or> upd_type u = Update_Dead")
      case True
      let ?sw = "sw\<lparr>sw_incarnation := sw_incarnation sw + 1, sw_disseminator := enqueue (sw_disseminator sw)
                     \<lparr>upd_type = Update_Alive, upd_node = sw_self sw, upd_incarnation = sw_incarnation sw + 1,
                      upd_data_port = sc_self_data_port (sw_config sw)\<rparr>\<rparr>"
      obtain ml c ok where up: "ml_update_state (sw_members sw) (sw_self sw) Alive (sw_incarnation sw + 1) now = (ml, c, ok)" by (metis surj_pair)
      obtain c' where ap: "apply_updates now us (?sw\<lparr>sw_members := ml\<rparr>) = (sw', c')" "calls = c @ c'"
        using Cons.prems(2) self True up by (auto simp: Let_def split: prod.splits)
      have "table_run (sw_self sw) (sw_members sw) c ml"
        by (rule update_state_run [OF up]) (use Cons.prems(1) in \<open>auto simp: sw_ok_def\<close>)
      then have "sw_run sw c (?sw\<lparr>sw_members := ml\<rparr>)" by (simp add: sw_run_def)
      then show ?thesis using go ap by blast
    next
      case False
      then have "apply_updates now us sw = (sw', calls)" using Cons.prems(2) self by auto
      then show ?thesis by (rule Cons.IH [OF Cons.prems(1)])
    qed
  next
    case other: False
    let ?info = "(default_node_info (upd_node u) now)\<lparr>info_state := Alive, info_incarnation := upd_incarnation u, info_data_port := upd_data_port u\<rparr>"
    let ?st = "case upd_type u of Update_Suspect \<Rightarrow> Suspect | Update_Dead \<Rightarrow> Dead | Update_Leave \<Rightarrow> Left | _ \<Rightarrow> Alive"
    obtain ml c ok where op: "(if upd_type u = Update_Join \<or> upd_type u = Update_Alive then ml_add_node (sw_members sw) ?info
        else ml_update_state (sw_members sw) (upd_node u) ?st (upd_incarnation u) now) = (ml, c, ok)" by (metis surj_pair)
    obtain c' where ap: "apply_updates now us (sw\<lparr>sw_members := ml\<rparr>) = (sw', c')" "calls = c @ c'"
      using Cons.prems(2) other op by (auto split: prod.splits)
    have "table_run (sw_self sw) (sw_members sw) c ml"
    proof (cases "upd_type u = Update_Join \<or> upd_type u = Update_Alive")
      case True
      then have "ml_add_node (sw_members sw) ?info = (ml, c, ok)" using op by simp
      then show ?thesis using Cons.prems(1) by (auto simp: sw_ok_def intro: add_node_run)
    next
      case False
      then have "ml_update_state (sw_members sw) (upd_node u) ?st (upd_incarnation u) now = (ml, c, ok)" using op by simp
      then show ?thesis using Cons.prems(1) other by (auto simp: sw_ok_def intro: update_state_run)
    qed
    then have "sw_run sw c (sw\<lparr>sw_members := ml\<rparr>)" by (simp add: sw_run_def)
    then show ?thesis using go ap by blast
  qed
qed

lemma learn_sender_run:
  assumes "sw_ok sw" and "learn_sender now msg sw = (sw', calls)"
  shows "sw_run sw calls sw'"
proof (cases "msg_sender msg \<noteq> sw_self sw \<and> ml_get_node (sw_members sw) (msg_sender msg) = None")
  case True
  let ?info = "(default_node_info (msg_sender msg) now)\<lparr>info_data_port := sender_port (msg_sender msg) (msg_updates msg), info_state := Alive\<rparr>"
  obtain ml c ok where ad: "ml_add_node (sw_members sw) ?info = (ml, c, ok)" by (metis surj_pair)
  have "table_run (sw_self sw) (sw_members sw) c ml" by (rule add_node_run [OF ad]) (use assms(1) in \<open>auto simp: sw_ok_def\<close>)
  then show ?thesis using assms(2) True ad by (auto simp: learn_sender_def Let_def sw_run_def)
next
  case False
  then have "sw' = sw" "calls = []" using assms(2) by (simp_all only: learn_sender_def if_False prod.inject)
  then show ?thesis by (simp add: sw_run_def table_run.nil)
qed

lemma on_ack_eq:
  "on_ack now msg sw =
     (case um_find (msg_seq_num msg) (sw_pending_acks sw) of
        Some _ \<Rightarrow> sw\<lparr>sw_pending_acks := um_set (msg_seq_num msg) True (sw_pending_acks sw)\<rparr>
      | None \<Rightarrow> sw, [])"
  by (auto simp: on_ack_def Let_def ml_update_state_def ml_get_node_def split: option.splits)

lemma on_ping_run: "on_ping srt msg sw = (sw', sent) \<Longrightarrow> sw_run sw [] sw'"
  by (auto simp: on_ping_eq sw_run_def table_run.nil)

lemma on_ping_req_run: "on_ping_req msg sw = (sw', sent, rls) \<Longrightarrow> sw_run sw [] sw'"
  by (auto simp: on_ping_req_def relay_ping_def next_seq_def Let_def sw_run_def table_run.nil split: option.splits)

lemma relay_timeout_run: "relay_timeout rl sw = (sw', sent, again) \<Longrightarrow> sw_run sw [] sw'"
  by (auto simp: relay_timeout_def sw_run_def table_run.nil split: if_splits)

lemma relay_done_run: "sw_run sw [] (relay_done rl sw)"
  by (simp add: relay_done_def sw_run_def table_run.nil)

lemma handle_message_run:
  assumes "sw_ok sw" and "handle_message srt now msg sw = (sw', sent, calls, rls)"
  shows "sw_run sw calls sw'"
proof -
  obtain sw1 c1 where l: "learn_sender now msg sw = (sw1, c1)" by fastforce
  obtain sw2 c2 where a: "apply_updates now (msg_updates msg) sw1 = (sw2, c2)" by fastforce
  have r1: "sw_run sw c1 sw1" by (rule learn_sender_run [OF assms(1) l])
  have r2: "sw_run sw (c1 @ c2) sw2" by (rule sw_run_trans [OF r1 apply_updates_run [OF sw_run_ok [OF r1 assms(1)] a]])
  show ?thesis
  proof (cases "msg_type msg")
    case Ping
    then obtain "on_ping srt msg sw2 = (sw', sent)" "calls = c1 @ c2"
      using assms(2) l a by (auto simp: handle_message_def split: prod.splits)
    then show ?thesis using sw_run_trans [OF r2 on_ping_run] by simp
  next
    case Ack
    then have "on_ack now msg sw2 = (sw', [])" "calls = c1 @ c2"
      using assms(2) l a by (auto simp: handle_message_def on_ack_eq split: prod.splits)
    then have "sw_run sw2 [] sw'" by (auto simp: on_ack_eq sw_run_def table_run.nil split: option.splits)
    then show ?thesis using sw_run_trans [OF r2, of "[]" sw'] \<open>calls = c1 @ c2\<close> by simp
  next
    case PingReq
    then obtain "on_ping_req msg sw2 = (sw', sent, rls)" "calls = c1 @ c2"
      using assms(2) l a by (auto simp: handle_message_def split: prod.splits)
    then show ?thesis using sw_run_trans [OF r2 on_ping_req_run] by simp
  qed
qed

section \<open>What the reaper does\<close>

text \<open>The fate of an entry in a round of the reaper.\<close>

definition expired :: "swim_protocol \<Rightarrow> time_point \<Rightarrow> node_id \<Rightarrow> node_info \<Rightarrow> bool" where
  "expired sw now nid info \<longleftrightarrow>
     nid \<noteq> sw_self sw \<and> info_state info = Suspect \<and> elapsed_ms now (info_last_change info) \<ge> sc_suspect_timeout (sw_config sw)"

definition reaped :: "swim_protocol \<Rightarrow> time_point \<Rightarrow> node_id \<Rightarrow> node_info \<Rightarrow> node_info" where
  "reaped sw now nid info = (if expired sw now nid info then info\<lparr>info_state := Dead, info_last_change := now\<rparr> else info)"

lemma reap_get:
  assumes "distinct (map fst nodes)" and "\<And>n i. (n, i) \<in> set nodes \<Longrightarrow> ml_get_node (sw_members sw) n = Some i"
    and "reap now nodes sw = (sw', calls)"
  shows "ml_get_node (sw_members sw') n =
    (if n \<in> fst ` set nodes then map_option (reaped sw now n) (ml_get_node (sw_members sw) n) else ml_get_node (sw_members sw) n)"
  using assms
proof (induction nodes arbitrary: sw calls)
  case Nil
  then show ?case by simp
next
  case (Cons e nodes)
  obtain nid node where e: "e = (nid, node)" by fastforce
  have node: "ml_get_node (sw_members sw) nid = Some node" using Cons.prems(2) e by simp
  have d: "distinct (map fst nodes)" "nid \<notin> fst ` set nodes" using Cons.prems(1) e by auto
  show ?case
  proof (cases "expired sw now nid node")
    case False
    then have "reap now nodes sw = (sw', calls)" using Cons.prems(3) e by (auto simp: expired_def split: if_splits)
    from Cons.IH [OF d(1) _ this] Cons.prems(2) have
      "ml_get_node (sw_members sw') n = (if n \<in> fst ` set nodes then map_option (reaped sw now n) (ml_get_node (sw_members sw) n)
        else ml_get_node (sw_members sw) n)" by simp
    moreover have "reaped sw now nid node = node" using False by (simp add: reaped_def)
    ultimately show ?thesis using node e d(2) by (cases "n = nid") simp_all
  next
    case True
    let ?dead = "node\<lparr>info_state := Dead, info_last_change := now\<rparr>"
    define ml where "ml = (sw_members sw)\<lparr>ml_nodes := um_set nid ?dead (ml_nodes (sw_members sw))\<rparr>"
    have up: "ml_update_state (sw_members sw) nid Dead (info_incarnation node) now = (ml, notify ml nid, True)"
      using True node by (simp add: ml_update_state_def ml_get_node_def expired_def ml_def Let_def)
    define sw1 where "sw1 = sw\<lparr>sw_members := ml, sw_disseminator := enqueue (sw_disseminator sw) \<lparr>upd_type = Update_Dead, upd_node = nid,
                            upd_incarnation = info_incarnation node, upd_data_port = 0\<rparr>\<rparr>"
    obtain c' where r: "reap now nodes sw1 = (sw', c')"
      using Cons.prems(3) e True up by (auto simp: sw1_def expired_def Let_def split: prod.splits)
    have get1: "ml_get_node (sw_members sw1) m = (if m = nid then Some ?dead else ml_get_node (sw_members sw) m)" for m
      by (simp add: sw1_def ml_def)
    have "ml_get_node (sw_members sw1) m = Some i" if "(m, i) \<in> set nodes" for m i
      using that Cons.prems(2) [of m i] d(2) by (force simp: get1)
    from Cons.IH [OF d(1) this r] have "ml_get_node (sw_members sw') n =
        (if n \<in> fst ` set nodes then map_option (reaped sw1 now n) (ml_get_node (sw_members sw1) n) else ml_get_node (sw_members sw1) n)" .
    moreover have "reaped sw1 now n = reaped sw now n" by (simp add: fun_eq_iff reaped_def expired_def sw1_def)
    moreover have "reaped sw now nid node = ?dead" using True by (simp add: reaped_def)
    ultimately show ?thesis using node e d(2) by (cases "n = nid") (simp_all add: get1)
  qed
qed

lemma suspicion_reaper_get:
  assumes "sw_ok sw" and "suspicion_reaper now sw = (sw', calls)"
  shows "ml_get_node (sw_members sw') n = map_option (reaped sw now n) (ml_get_node (sw_members sw) n)"
proof -
  have um: "um_ok (ml_nodes (sw_members sw))" using assms(1) by (simp add: sw_ok_def ml_ok_def)
  have "ml_get_node (sw_members sw') n =
    (if n \<in> fst ` set (ml_nodes (sw_members sw)) then map_option (reaped sw now n) (ml_get_node (sw_members sw) n) else ml_get_node (sw_members sw) n)"
    by (rule reap_get) (use um assms(2) in \<open>auto simp: um_ok_def suspicion_reaper_def ml_get_node_def um_find_mem [OF um]\<close>)
  moreover have "ml_get_node (sw_members sw) n = None" if "n \<notin> fst ` set (ml_nodes (sw_members sw))"
    using that by (simp add: ml_get_node_def um_find_None_iff)
  ultimately show ?thesis by (cases "n \<in> fst ` set (ml_nodes (sw_members sw))") simp_all
qed

section \<open>Properties\<close>

abbreviation self_id :: node_id where
  "self_id \<equiv> \<lparr>node_host = ''a'', node_port = 1\<rparr>"

abbreviation other_id :: node_id where
  "other_id \<equiv> \<lparr>node_host = ''b'', node_port = 1\<rparr>"

abbreviation example_swim :: swim_protocol where
  "example_swim \<equiv> new_swim_protocol
     \<lparr>ml_nodes = [(self_id, default_node_info self_id 0), (other_id, (default_node_info other_id 0)\<lparr>info_state := Suspect\<rparr>)], ml_on_change = True\<rparr>
     (new_disseminator 10) self_id
     \<lparr>sc_protocol_period = 1000, sc_ping_timeout = 200, sc_suspect_timeout = 5000, sc_indirect_ping_peers = 3,
      sc_max_piggyback_updates = 8, sc_self_data_port = 2\<rparr>"

text \<open>
  An acknowledgement only marks the probe that waits for it: it never changes the member table. The
  code tries to bring a suspected or dead sender back to life with its own incarnation, but
  \<open>update_state\<close> accepts \<open>Alive\<close> only with a larger one; only the node itself can refute a suspicion.
\<close>
theorem ack_changes_no_member:
  "case on_ack now msg sw of (sw', calls) \<Rightarrow>
     sw_members sw' = sw_members sw \<and> sw_disseminator sw' = sw_disseminator sw \<and> calls = [] \<and>
     (\<forall>seq. um_find seq (sw_pending_acks sw') =
        (if seq = msg_seq_num msg then map_option (\<lambda>_. True) (um_find seq (sw_pending_acks sw)) else um_find seq (sw_pending_acks sw)))"
  by (auto simp: on_ack_eq split: option.split)

text \<open>
  Refuting a suspicion: a node that hears that it is suspected or dead increments its incarnation and
  queues the news that it is alive (or something stronger about itself is already queued). Whoever
  merges that news regards the node as alive again, provided that what it held had an incarnation
  up to the one before; a peer that holds a larger incarnation than the new one ignores it.
\<close>
theorem refutation:
  assumes "upd_node u = sw_self sw" and "upd_type u \<in> {Update_Suspect, Update_Dead}"
    and "sw_incarnation sw < sw_incarnation sw + 1" and "apply_updates now [u] sw = (sw', calls)"
  shows "sw_incarnation sw' = sw_incarnation sw + 1 \<and>
    (\<exists>e. queued (sw_disseminator sw') (sw_self sw) = Some e \<and>
       (sw_incarnation sw + 1, update_type_val Update_Alive) \<le> update_rank (ent_update e)) \<and>
    (\<forall>ml inc st t port. ml_view ml (sw_self sw) = Some (inc, st) \<longrightarrow>
       (let news = (default_node_info (sw_self sw) t)\<lparr>info_incarnation := sw_incarnation sw + 1, info_data_port := port\<rparr>;
            view = ml_view (fst (ml_add_node ml news)) (sw_self sw)
        in (inc \<le> sw_incarnation sw \<longrightarrow> view = Some (sw_incarnation sw + 1, Alive)) \<and>
           (sw_incarnation sw + 1 < inc \<longrightarrow> view = Some (inc, st))))"
proof -
  let ?i = "sw_incarnation sw + 1"
  let ?u = "\<lparr>upd_type = Update_Alive, upd_node = sw_self sw, upd_incarnation = ?i, upd_data_port = sc_self_data_port (sw_config sw)\<rparr>"
  have "sw_incarnation sw' = ?i" and d: "sw_disseminator sw' = enqueue (sw_disseminator sw) ?u"
    using assms by (auto simp: Let_def split: prod.splits)
  moreover have "\<exists>e. queued (sw_disseminator sw') (sw_self sw) = Some e \<and> (?i, update_type_val Update_Alive) \<le> update_rank (ent_update e)"
  proof -
    have "update_rank ?u = (?i, update_type_val Update_Alive)" by (simp add: update_rank_def)
    then show ?thesis unfolding d
      by (auto simp: queued_enqueue gossip.supersedes_iff not_less split: option.split intro: order.refl)
  qed
  moreover have "(inc \<le> sw_incarnation sw \<longrightarrow> ml_view (fst (ml_add_node ml ((default_node_info (sw_self sw) t)\<lparr>info_incarnation := ?i, info_data_port := port\<rparr>))) (sw_self sw) = Some (?i, Alive)) \<and>
      (?i < inc \<longrightarrow> ml_view (fst (ml_add_node ml ((default_node_info (sw_self sw) t)\<lparr>info_incarnation := ?i, info_data_port := port\<rparr>))) (sw_self sw) = Some (inc, st))"
    if v: "ml_view ml (sw_self sw) = Some (inc, st)" for ml inc st t port
  proof -
    have rank: "info_rank ((default_node_info (sw_self sw) t)\<lparr>info_incarnation := ?i, info_data_port := port\<rparr>) = (?i, Alive)"
      by (simp add: info_rank_def default_node_info_def)
    have "inc < ?i" if "inc \<le> sw_incarnation sw" using that assms(3) by (rule order.strict_trans1)
    then show ?thesis using v rank by (auto simp: ml_view_add default_node_info_def max_def)
  qed
  ultimately show ?thesis by (simp add: Let_def)
qed

theorem refutation_witness:
  "sw_incarnation (fst (apply_updates 9 [\<lparr>upd_type = Update_Suspect, upd_node = self_id, upd_incarnation = 0, upd_data_port = 0\<rparr>] example_swim)) = 1"
proof -
  let ?u = "\<lparr>upd_type = Update_Suspect, upd_node = self_id, upd_incarnation = 0, upd_data_port = 0\<rparr>"
  obtain sw' calls where a: "apply_updates 9 [?u] example_swim = (sw', calls)" by fastforce
  have "sw_incarnation sw' = sw_incarnation example_swim + 1"
    using refutation [OF _ _ _ a] by (simp add: new_swim_protocol_def)
  then show ?thesis by (simp only: a fst_conv) (simp add: new_swim_protocol_def)
qed

text \<open>
  The reaper declares exactly the expired suspicions dead: afterwards a node other than this one that
  was suspect for the configured time is dead since now, and every other entry is as it was.
\<close>
theorem reaper_spec:
  assumes "sw_ok sw" and "suspicion_reaper now sw = (sw', calls)"
  shows "ml_get_node (sw_members sw') n = map_option (reaped sw now n) (ml_get_node (sw_members sw) n)"
  using assms by (rule suspicion_reaper_get)

theorem reaper_spec_witness:
  "ml_get_node (sw_members (fst (suspicion_reaper 6000000000 example_swim))) other_id =
     Some ((default_node_info other_id 6000000000)\<lparr>info_state := Dead\<rparr>)"
proof -
  obtain sw' calls where r: "suspicion_reaper 6000000000 example_swim = (sw', calls)" by fastforce
  have "sw_ok example_swim" by (simp add: sw_ok_def new_swim_protocol_def ml_ok_def um_ok_def default_node_info_def)
  from reaper_spec [OF this r, of other_id] show ?thesis unfolding r fst_conv
    by (simp add: reaped_def expired_def elapsed_ms_def new_swim_protocol_def ml_get_node_def um_find_def default_node_info_def)
qed

end
