(* ===== verification/Protocol.thy ===== *)
theory Protocol
  imports Prelude
begin

text \<open>
  The client protocol (\<open>src/src/protocol/message.h\<close>): request and response headers, their
  serialisation into one buffer and the parsers for a contiguous buffer.

  The enumerations \<open>Opcode\<close> and \<open>Status\<close> have the underlying type \<open>uint8_t\<close>, and the parsers copy
  the byte from the wire without validating it, so a value of these types is any byte; the
  enumerators are named constants. A header struct has no padding, so \<open>memcpy\<close> of it is the
  concatenation of the images of its fields.
\<close>

section \<open>Data\<close>

type_synonym opcode = u8
type_synonym status = u8

definition Opcode_Get :: opcode where "Opcode_Get = 1"
definition Opcode_Put :: opcode where "Opcode_Put = 2"
definition Opcode_Del :: opcode where "Opcode_Del = 3"
definition Opcode_ClusterInfo :: opcode where "Opcode_ClusterInfo = 4"

definition Status_Ok :: status where "Status_Ok = 0"
definition Status_NotFound :: status where "Status_NotFound = 1"
definition Status_Error :: status where "Status_Error = 2"

lemmas enumerator_defs =
  Opcode_Get_def Opcode_Put_def Opcode_Del_def Opcode_ClusterInfo_def
  Status_Ok_def Status_NotFound_def Status_Error_def

record request_header =
  rqh_opcode :: opcode
  rqh_flags :: u8
  rqh_key_len :: u16
  rqh_value_len :: u32

record response_header =
  rsh_status :: status
  rsh_flags :: u8
  rsh_reserved :: u16
  rsh_value_len :: u32

record request =
  req_opcode :: opcode
  req_key :: string
  req_value :: string

record response =
  resp_status :: status
  resp_value :: string

definition kHeaderSize :: nat where "kHeaderSize = 8"

section \<open>Images of the headers\<close>

definition request_header_bytes :: "request_header \<Rightarrow> bytes" where
  "request_header_bytes h =
     [rqh_opcode h, rqh_flags h] @ le_bytes 2 (rqh_key_len h) @ le_bytes 4 (rqh_value_len h)"

definition request_header_of :: "bytes \<Rightarrow> request_header" where
  "request_header_of bs =
     \<lparr>rqh_opcode = bs ! 0, rqh_flags = bs ! 1,
      rqh_key_len = le_word (take 2 (drop 2 bs)), rqh_value_len = le_word (take 4 (drop 4 bs))\<rparr>"

definition response_header_bytes :: "response_header \<Rightarrow> bytes" where
  "response_header_bytes h =
     [rsh_status h, rsh_flags h] @ le_bytes 2 (rsh_reserved h) @ le_bytes 4 (rsh_value_len h)"

definition response_header_of :: "bytes \<Rightarrow> response_header" where
  "response_header_of bs =
     \<lparr>rsh_status = bs ! 0, rsh_flags = bs ! 1,
      rsh_reserved = le_word (take 2 (drop 2 bs)), rsh_value_len = le_word (take 4 (drop 4 bs))\<rparr>"

section \<open>Serialisation\<close>

text \<open>\<open>memcpy(buf + off, src, n)\<close>; a copy past the end would make the list longer.\<close>

definition memcpy_to :: "bytes \<Rightarrow> nat \<Rightarrow> bytes \<Rightarrow> bytes" where
  "memcpy_to buf off src = take off buf @ src @ drop (off + length src) buf"

definition serialize_request :: "request \<Rightarrow> bytes" where
  "serialize_request req =
     (let hdr = \<lparr>rqh_opcode = req_opcode req, rqh_flags = 0,
                 rqh_key_len = word_of_nat (length (req_key req)),
                 rqh_value_len = word_of_nat (length (req_value req))\<rparr>;
          buf = replicate (kHeaderSize + length (req_key req) + length (req_value req)) 0;
          buf = memcpy_to buf 0 (request_header_bytes hdr);
          buf = memcpy_to buf kHeaderSize (bytes_of (req_key req))
      in memcpy_to buf (kHeaderSize + length (req_key req)) (bytes_of (req_value req)))"

definition serialize_response :: "response \<Rightarrow> bytes" where
  "serialize_response resp =
     (let hdr = \<lparr>rsh_status = resp_status resp, rsh_flags = 0, rsh_reserved = 0,
                 rsh_value_len = word_of_nat (length (resp_value resp))\<rparr>;
          buf = replicate (kHeaderSize + length (resp_value resp)) 0;
          buf = memcpy_to buf 0 (response_header_bytes hdr)
      in memcpy_to buf kHeaderSize (bytes_of (resp_value resp)))"

section \<open>Parsing\<close>

definition parse_request :: "bytes \<Rightarrow> request option" where
  "parse_request data =
     (if length data < kHeaderSize then None
      else
        let hdr = request_header_of (take kHeaderSize data);
            payload_size = unat (rqh_key_len hdr) + unat (rqh_value_len hdr)
        in if length data < kHeaderSize + payload_size then None
           else
             let payload = drop kHeaderSize data
             in Some \<lparr>req_opcode = rqh_opcode hdr,
                      req_key = string_of (take (unat (rqh_key_len hdr)) payload),
                      req_value = string_of (take (unat (rqh_value_len hdr))
                                               (drop (unat (rqh_key_len hdr)) payload))\<rparr>)"

definition parse_response :: "bytes \<Rightarrow> response option" where
  "parse_response data =
     (if length data < kHeaderSize then None
      else
        let hdr = response_header_of (take kHeaderSize data)
        in if length data < kHeaderSize + unat (rsh_value_len hdr) then None
           else
             let payload = drop kHeaderSize data
             in Some \<lparr>resp_status = rsh_status hdr,
                      resp_value = string_of (take (unat (rsh_value_len hdr)) payload)\<rparr>)"

section \<open>Frames\<close>

text \<open>
  The frame the protocol documents for a message: the header with the given flag byte (and, in a
  response, reserved field) followed by the payload. It specifies what the parsers accept.
\<close>

definition request_frame :: "u8 \<Rightarrow> request \<Rightarrow> bytes" where
  "request_frame flags r =
     request_header_bytes \<lparr>rqh_opcode = req_opcode r, rqh_flags = flags,
       rqh_key_len = word_of_nat (length (req_key r)),
       rqh_value_len = word_of_nat (length (req_value r))\<rparr>
     @ bytes_of (req_key r) @ bytes_of (req_value r)"

definition response_frame :: "u8 \<Rightarrow> u16 \<Rightarrow> response \<Rightarrow> bytes" where
  "response_frame flags reserved r =
     response_header_bytes \<lparr>rsh_status = resp_status r, rsh_flags = flags, rsh_reserved = reserved,
       rsh_value_len = word_of_nat (length (resp_value r))\<rparr>
     @ bytes_of (resp_value r)"

definition request_fits :: "request \<Rightarrow> bool" where
  "request_fits r \<longleftrightarrow> length (req_key r) < 2 ^ 16 \<and> length (req_value r) < 2 ^ 32"

definition response_fits :: "response \<Rightarrow> bool" where
  "response_fits r \<longleftrightarrow> length (resp_value r) < 2 ^ 32"

section \<open>Lemmas\<close>

lemma length_request_header_bytes [simp]: "length (request_header_bytes h) = kHeaderSize"
  by (simp add: request_header_bytes_def kHeaderSize_def)

lemma length_response_header_bytes [simp]: "length (response_header_bytes h) = kHeaderSize"
  by (simp add: response_header_bytes_def kHeaderSize_def)

lemma header_image_split:
  assumes "length bs = kHeaderSize"
  shows "bs ! 0 # bs ! 1 # take 2 (drop 2 bs) @ take 4 (drop 4 bs) = bs"
proof -
  have "take 4 (drop 4 bs) = drop 4 bs" using assms by (simp add: kHeaderSize_def)
  moreover have "take 2 (drop 2 bs) @ drop 4 bs = drop 2 bs" using append_take_drop_id [of 2 "drop 2 bs"] by simp
  moreover have "bs ! 0 # bs ! 1 # drop 2 bs = bs"
    using assms by (auto simp: kHeaderSize_def Cons_nth_drop_Suc numeral_2_eq_2)
  ultimately show ?thesis by simp
qed

lemma request_header_of_bytes [simp, wire_simps]: "request_header_of (request_header_bytes h) = h"
  by (simp add: request_header_of_def request_header_bytes_def)

lemma response_header_of_bytes [simp, wire_simps]: "response_header_of (response_header_bytes h) = h"
  by (simp add: response_header_of_def response_header_bytes_def)

lemma request_header_bytes_of [simp, wire_simps]:
  assumes "length bs = kHeaderSize"
  shows "request_header_bytes (request_header_of bs) = bs"
  using header_image_split [OF assms] assms
  by (simp add: request_header_of_def request_header_bytes_def kHeaderSize_def)

lemma response_header_bytes_of [simp, wire_simps]:
  assumes "length bs = kHeaderSize"
  shows "response_header_bytes (response_header_of bs) = bs"
  using header_image_split [OF assms] assms
  by (simp add: response_header_of_def response_header_bytes_def kHeaderSize_def)

lemma memcpy_to_fill: "memcpy_to (xs @ replicate (length src + n) 0) (length xs) src = (xs @ src) @ replicate n 0"
  by (simp add: memcpy_to_def)

lemma serialize_request_frame: "serialize_request r = request_frame 0 r"
proof -
  define h where "h = request_header_bytes \<lparr>rqh_opcode = req_opcode r, rqh_flags = 0,
    rqh_key_len = word_of_nat (length (req_key r)), rqh_value_len = word_of_nat (length (req_value r))\<rparr>"
  have [simp]: "length h = kHeaderSize" by (simp add: h_def)
  show ?thesis
    using memcpy_to_fill [of "[]" h "length (req_key r) + length (req_value r)"]
      memcpy_to_fill [of h "bytes_of (req_key r)" "length (req_value r)"]
      memcpy_to_fill [of "h @ bytes_of (req_key r)" "bytes_of (req_value r)" 0]
    by (simp add: serialize_request_def request_frame_def Let_def add.assoc flip: h_def)
qed

lemma serialize_response_frame: "serialize_response r = response_frame 0 0 r"
proof -
  define h where "h = response_header_bytes \<lparr>rsh_status = resp_status r, rsh_flags = 0,
    rsh_reserved = 0, rsh_value_len = word_of_nat (length (resp_value r))\<rparr>"
  have [simp]: "length h = kHeaderSize" by (simp add: h_def)
  show ?thesis
    using memcpy_to_fill [of "[]" h "length (resp_value r)"]
      memcpy_to_fill [of h "bytes_of (resp_value r)" 0]
    by (simp add: serialize_response_def response_frame_def Let_def flip: h_def)
qed

lemma parse_request_header:
  "parse_request (request_header_bytes h @ payload) =
     (if length payload < unat (rqh_key_len h) + unat (rqh_value_len h) then None
      else Some \<lparr>req_opcode = rqh_opcode h, req_key = string_of (take (unat (rqh_key_len h)) payload),
        req_value = string_of (take (unat (rqh_value_len h)) (drop (unat (rqh_key_len h)) payload))\<rparr>)"
  by (simp add: parse_request_def Let_def)

lemma parse_response_header:
  "parse_response (response_header_bytes h @ payload) =
     (if length payload < unat (rsh_value_len h) then None
      else Some \<lparr>resp_status = rsh_status h, resp_value = string_of (take (unat (rsh_value_len h)) payload)\<rparr>)"
  by (simp add: parse_response_def Let_def)

lemma parse_request_frame:
  "request_fits r \<Longrightarrow> parse_request (request_frame flags r @ rest) = Some r"
  by (simp add: request_frame_def parse_request_header request_fits_def)

lemma parse_response_frame:
  "response_fits r \<Longrightarrow> parse_response (response_frame flags reserved r @ rest) = Some r"
  by (simp add: response_frame_def parse_response_header response_fits_def)

lemma parse_request_fits:
  assumes "parse_request data = Some r"
  shows "request_fits r"
  using assms
  by (auto simp: parse_request_def request_fits_def Let_def min_def
      intro: le_less_trans [OF _ unat_u16_less] le_less_trans [OF _ unat_u32_less] split: if_splits)

lemma parse_response_fits:
  assumes "parse_response data = Some r"
  shows "response_fits r"
  using assms
  by (auto simp: parse_response_def response_fits_def Let_def min_def
      intro: le_less_trans [OF _ unat_u32_less] split: if_splits)

lemma parse_request_SomeD:
  assumes "parse_request data = Some r"
  shows "\<exists>flags rest. data = request_frame flags r @ rest"
proof -
  define h where "h = request_header_of (take kHeaderSize data)"
  define payload where "payload = drop kHeaderSize data"
  have len: "kHeaderSize \<le> length data" using assms by (auto simp: parse_request_def split: if_splits)
  then have data: "data = request_header_bytes h @ payload" by (simp add: h_def payload_def)
  let ?k = "unat (rqh_key_len h)" and ?v = "unat (rqh_value_len h)"
  from assms have fits: "?k + ?v \<le> length payload"
    and r: "r = \<lparr>req_opcode = rqh_opcode h, req_key = string_of (take ?k payload),
                 req_value = string_of (take ?v (drop ?k payload))\<rparr>"
    unfolding data parse_request_header by (auto split: if_splits)
  have "payload = take ?k payload @ take ?v (drop ?k payload) @ drop (?k + ?v) payload"
    by (metis append_take_drop_id drop_drop add.commute)
  then have "data = request_frame (rqh_flags h) r @ drop (?k + ?v) payload"
    using fits unfolding data r request_frame_def by (cases h) simp
  then show ?thesis by blast
qed

lemma parse_response_SomeD:
  assumes "parse_response data = Some r"
  shows "\<exists>flags reserved rest. data = response_frame flags reserved r @ rest"
proof -
  define h where "h = response_header_of (take kHeaderSize data)"
  define payload where "payload = drop kHeaderSize data"
  have len: "kHeaderSize \<le> length data" using assms by (auto simp: parse_response_def split: if_splits)
  then have data: "data = response_header_bytes h @ payload" by (simp add: h_def payload_def)
  let ?v = "unat (rsh_value_len h)"
  from assms have fits: "?v \<le> length payload"
    and r: "r = \<lparr>resp_status = rsh_status h, resp_value = string_of (take ?v payload)\<rparr>"
    unfolding data parse_response_header by (auto split: if_splits)
  have "data = response_frame (rsh_flags h) (rsh_reserved h) r @ drop ?v payload"
    using fits unfolding data r response_frame_def by (cases h) simp
  then show ?thesis by blast
qed

section \<open>Properties\<close>

text \<open>
  The request parser accepts exactly the buffers that start with the frame of a request whose
  lengths fit in the header, and returns that request: it ignores the flag byte and whatever
  follows the frame, and a buffer that holds less than a frame is rejected.
\<close>
theorem parse_request_iff:
  "parse_request data = Some r \<longleftrightarrow> request_fits r \<and> (\<exists>flags rest. data = request_frame flags r @ rest)"
  using parse_request_fits parse_request_SomeD parse_request_frame by blast

text \<open>
  The same for responses: the parser accepts exactly the buffers that start with the frame of a
  response whose value length fits in the header, whatever the flag byte and the reserved field.
\<close>
theorem parse_response_iff:
  "parse_response data = Some r \<longleftrightarrow>
     response_fits r \<and> (\<exists>flags reserved rest. data = response_frame flags reserved r @ rest)"
  using parse_response_fits parse_response_SomeD parse_response_frame by blast

text \<open>
  C25. Serialising writes the whole buffer it allocates and nothing beyond, and parsing what was
  serialised gives the message back exactly when its lengths fit in the header fields. A request
  with a key of 65536 bytes or more is serialised with a truncated \<open>key_len\<close> and is never
  parsed back to what it was.
\<close>
theorem serialize_parse:
  "length (serialize_request r) = kHeaderSize + length (req_key r) + length (req_value r) \<and>
   length (serialize_response s) = kHeaderSize + length (resp_value s) \<and>
   (parse_request (serialize_request r) = Some r \<longleftrightarrow> request_fits r) \<and>
   (parse_response (serialize_response s) = Some s \<longleftrightarrow> response_fits s)"
  using parse_request_fits [of "serialize_request r" r] parse_request_frame [of r 0 "[]"]
    parse_response_fits [of "serialize_response s" s] parse_response_frame [of s 0 0 "[]"]
  by (auto simp: serialize_request_frame serialize_response_frame request_frame_def response_frame_def)

end
