(* ===== verification/Streams.thy ===== *)
theory Streams
  imports Protocol
begin

text \<open>
  Exact reads and writes on stream sockets (\<open>src/src/io/stream_utils.h\<close>), and the framing that the
  server and the clients build on them (the reading halves of \<open>Coordinator::handle_connection\<close>
  and \<open>PeerClient::send_request\<close>).

  What the kernel does with a socket is an argument: the inbound side is the list of what successive
  reads can deliver (bytes, in pieces of any size, or a failure; an empty piece and the end of
  the list are the end of the stream), the outbound side the list of how many bytes successive
  writes accept (0 stands for a failed write). The theorems hold for every way the bytes are cut
  into pieces.
\<close>

section \<open>Sockets\<close>

datatype delivery = Data bytes | Fail

text \<open>\<open>async_read\<close>: \<open>None\<close> for a negative result, \<open>Some []\<close> for 0.\<close>

fun async_read :: "delivery list \<Rightarrow> nat \<Rightarrow> delivery list \<times> bytes option" where
  "async_read [] len = ([], Some [])"
| "async_read (Fail # ds) len = (ds, None)"
| "async_read (Data bs # ds) len =
     (if length bs \<le> len then (ds, Some bs) else (Data (drop len bs) # ds, Some (take len bs)))"

fun async_write :: "nat list \<Rightarrow> nat \<Rightarrow> nat list \<times> nat" where
  "async_write [] len = ([], 0)"
| "async_write (r # rs) len = (rs, min r len)"

record conn =
  c_in :: "delivery list"
  c_wr :: "nat list"
  c_out :: bytes

section \<open>Exact reads and writes\<close>

function read_exact :: "delivery list \<Rightarrow> nat \<Rightarrow> delivery list \<times> bytes option" where
  "read_exact ds remaining =
     (if remaining = 0 then (ds, Some [])
      else case async_read ds remaining of
             (ds, None) \<Rightarrow> (ds, None)
           | (ds, Some bs) \<Rightarrow>
               if bs = [] then (ds, None)
               else case read_exact ds (remaining - length bs) of (ds, r) \<Rightarrow> (ds, map_option ((@) bs) r))"
  by pat_completeness auto

termination
  by (relation "measure snd") auto

declare read_exact.simps [simp del]

function write_all :: "nat list \<Rightarrow> bytes \<Rightarrow> bytes \<Rightarrow> nat list \<times> bytes \<times> bool" where
  "write_all rs out src =
     (if src = [] then (rs, out, True)
      else let (rs, n) = async_write rs (length src)
           in if n = 0 then (rs, out, False) else write_all rs (out @ take n src) (drop n src))"
  by pat_completeness auto

termination
  by (relation "measure (\<lambda>(rs, out, src). length src)") auto

declare write_all.simps [simp del]

section \<open>Framing\<close>

text \<open>The part of \<open>handle_connection\<close> that reads one request; \<open>None\<close> where the code breaks out of its loop.\<close>

definition read_request :: "delivery list \<Rightarrow> delivery list \<times> request option" where
  "read_request ds =
     (case read_exact ds kHeaderSize of
        (ds, None) \<Rightarrow> (ds, None)
      | (ds, Some hb) \<Rightarrow>
          let hdr = request_header_of hb;
              payload_len = unat (rqh_key_len hdr) + unat (rqh_value_len hdr)
          in case (if payload_len > 0 then read_exact ds payload_len else (ds, Some [])) of
               (ds, None) \<Rightarrow> (ds, None)
             | (ds, Some payload) \<Rightarrow>
                 (ds, Some \<lparr>req_opcode = rqh_opcode hdr,
                       req_key = string_of (take (unat (rqh_key_len hdr)) payload),
                       req_value = (if rqh_value_len hdr > 0
                                    then string_of (take (unat (rqh_value_len hdr)) (drop (unat (rqh_key_len hdr)) payload))
                                    else [])\<rparr>))"

text \<open>The part of \<open>send_request\<close> that reads the response, without a registered buffer.\<close>

definition read_response :: "delivery list \<Rightarrow> delivery list \<times> response option" where
  "read_response ds =
     (case read_exact ds kHeaderSize of
        (ds, None) \<Rightarrow> (ds, None)
      | (ds, Some hb) \<Rightarrow>
          let hdr = response_header_of hb
          in if rsh_value_len hdr > 0
             then case read_exact ds (unat (rsh_value_len hdr)) of
                    (ds, None) \<Rightarrow> (ds, None)
                  | (ds, Some v) \<Rightarrow> (ds, Some \<lparr>resp_status = rsh_status hdr, resp_value = string_of v\<rparr>)
             else (ds, Some \<lparr>resp_status = rsh_status hdr, resp_value = []\<rparr>))"

text \<open>\<open>Coordinator::write_response\<close>.\<close>

definition write_response :: "conn \<Rightarrow> response \<Rightarrow> conn \<times> bool" where
  "write_response c resp =
     (let hdr = \<lparr>rsh_status = resp_status resp, rsh_flags = 0, rsh_reserved = 0,
                 rsh_value_len = word_of_nat (length (resp_value resp))\<rparr>;
          buf = (if resp_value resp = [] then response_header_bytes hdr
                 else let buf = replicate (kHeaderSize + length (resp_value resp)) 0;
                          buf = memcpy_to buf 0 (response_header_bytes hdr)
                      in memcpy_to buf kHeaderSize (bytes_of (resp_value resp)));
          (rs, out, ok) = write_all (c_wr c) (c_out c) buf
      in (c\<lparr>c_wr := rs, c_out := out\<rparr>, ok))"

section \<open>Lemmas\<close>

text \<open>The bytes the inbound side delivers before its end or its first failure.\<close>

fun avail :: "delivery list \<Rightarrow> bytes" where
  "avail [] = []"
| "avail (Fail # ds) = []"
| "avail (Data bs # ds) = (if bs = [] then [] else bs @ avail ds)"

lemma read_exact_0 [simp]: "read_exact ds 0 = (ds, Some [])"
  by (simp add: read_exact.simps)

lemma read_exact_pos: "(if n > 0 then read_exact ds n else (ds, Some [])) = read_exact ds n"
  by simp

lemma string_of_Nil [simp]: "string_of [] = []"
  by (simp add: string_of_def)

lemma read_exact_avail:
  "case read_exact ds n of (ds', r) \<Rightarrow>
     r = (if n \<le> length (avail ds) then Some (take n (avail ds)) else None) \<and>
     (n \<le> length (avail ds) \<longrightarrow> avail ds' = drop n (avail ds))"
proof (induction ds n rule: read_exact.induct)
  case (1 ds n)
  show ?case
  proof (cases "n = 0")
    case False
    consider "ds = []" | ds' where "ds = Fail # ds'" | ds' where "ds = Data [] # ds'"
      | b bs ds' where "ds = Data (b # bs) # ds'"
      by (metis delivery.exhaust list.exhaust)
    then show ?thesis
    proof cases
      case (4 b bs ds')
      show ?thesis
      proof (cases "length (b # bs) \<le> n")
        case True
        obtain ds2 r where r: "read_exact ds' (n - length (b # bs)) = (ds2, r)" by fastforce
        have "read_exact ds n = (ds2, map_option ((@) (b # bs)) r)"
          using False True r unfolding 4 by (simp add: read_exact.simps [of "Data (b # bs) # ds'" n])
        moreover have "n - length (b # bs) \<le> length (avail ds') \<longleftrightarrow> n \<le> length (avail ds)" using 4 True by auto
        moreover have "(Some (b # bs)) = snd (async_read ds n)" "ds' = fst (async_read ds n)" using True 4 by simp_all
        then have "case read_exact ds' (n - length (b # bs)) of (ds2, r) \<Rightarrow>
            r = (if n - length (b # bs) \<le> length (avail ds') then Some (take (n - length (b # bs)) (avail ds')) else None) \<and>
            (n - length (b # bs) \<le> length (avail ds') \<longrightarrow> avail ds2 = drop (n - length (b # bs)) (avail ds'))"
          by (intro "1.IH" [OF False]) (auto simp: prod_eq_iff)
        moreover have "avail ds = (b # bs) @ avail ds'" using 4 by simp
        then have "take n (avail ds) = (b # bs) @ take (n - length (b # bs)) (avail ds')"
          and "drop n (avail ds) = drop (n - length (b # bs)) (avail ds')"
          using True by (simp_all only: take_append drop_append take_all drop_all append_Nil)
        ultimately show ?thesis using r by auto
      next
        case short: False
        then have "read_exact ds n = (Data (drop n (b # bs)) # ds', Some (take n (b # bs)))"
          using False unfolding 4 by (simp add: read_exact.simps [of "Data (b # bs) # ds'" n] min_def)
        moreover have "take n ((b # bs) @ avail ds') = take n (b # bs)" "drop n ((b # bs) @ avail ds') = drop n (b # bs) @ avail ds'"
          using short by (simp_all only: take_append drop_append) simp_all
        moreover have "drop n (b # bs) \<noteq> []" "n \<le> length ((b # bs) @ avail ds')" using short by simp_all
        moreover have "avail ds = (b # bs) @ avail ds'" using 4 by simp
        ultimately show ?thesis by (simp only: prod.case avail.simps if_True if_False simp_thms)
      qed
    qed (use False in \<open>simp_all add: read_exact.simps [of "[]"] read_exact.simps [of "Fail # _"] read_exact.simps [of "Data [] # _"]\<close>)
  qed simp
qed

lemma read_exact_Some:
  assumes "read_exact ds n = (ds', Some bs)"
  shows "n \<le> length (avail ds)" and "bs = take n (avail ds)" and "avail ds' = drop n (avail ds)"
  using read_exact_avail [where ds = ds and n = n] assms by (auto split: if_splits)

lemma read_exact_None: "read_exact ds n = (ds', None) \<Longrightarrow> length (avail ds) < n"
  using read_exact_avail [where ds = ds and n = n] by (auto split: if_splits)

lemma write_all_prefix:
  "case write_all rs out src of (rs', out', ok) \<Rightarrow>
     \<exists>sent. out' = out @ sent \<and> (\<exists>rest. src = sent @ rest \<and> (ok \<longleftrightarrow> rest = []))"
proof (induction rs out src rule: write_all.induct)
  case (1 rs out src)
  show ?case
  proof (cases "src = []")
    case True
    then show ?thesis by (simp add: write_all.simps)
  next
    case False
    obtain rs' n where a: "async_write rs (length src) = (rs', n)" by fastforce
    show ?thesis
    proof (cases "n = 0")
      case True
      then show ?thesis using False a by (simp add: write_all.simps [of rs out src])
    next
      case pos: False
      obtain rs2 out2 ok where w: "write_all rs' (out @ take n src) (drop n src) = (rs2, out2, ok)" by (metis surj_pair)
      with "1.IH" [OF False a [symmetric] refl pos] obtain sent rest where
        "out2 = (out @ take n src) @ sent" "drop n src = sent @ rest" "ok \<longleftrightarrow> rest = []" by auto
      moreover from this(2) have "src = (take n src @ sent) @ rest" by (metis append.assoc append_take_drop_id)
      ultimately show ?thesis using False a pos w by (auto simp: write_all.simps [of rs out src])
    qed
  qed
qed

lemma write_all_complete:
  assumes "length src \<le> sum_list (takeWhile (\<lambda>r. r \<noteq> 0) rs)"
  shows "\<exists>rs'. write_all rs out src = (rs', out @ src, True)"
  using assms
proof (induction rs arbitrary: out src)
  case Nil
  then show ?case by (simp add: write_all.simps)
next
  case (Cons r rs)
  show ?case
  proof (cases "src = [] \<or> r = 0")
    case True
    then show ?thesis using Cons.prems by (auto simp: write_all.simps)
  next
    case False
    then have "length (drop r src) \<le> sum_list (takeWhile (\<lambda>r. r \<noteq> 0) rs)" using Cons.prems by simp
    from Cons.IH [OF this, of "out @ take r src"] obtain rs' where
      "write_all rs (out @ take r src) (drop r src) = (rs', out @ src, True)" by auto
    then show ?thesis using False
      by (cases "r \<le> length src") (auto simp: write_all.simps [of "r # rs" out src] min_def)
  qed
qed

lemma write_response_eq:
  "write_response c resp =
     (case write_all (c_wr c) (c_out c) (serialize_response resp) of (rs, out, ok) \<Rightarrow> (c\<lparr>c_wr := rs, c_out := out\<rparr>, ok))"
proof (cases "resp_value resp = []")
  case True
  then have "serialize_response resp = response_header_bytes \<lparr>rsh_status = resp_status resp, rsh_flags = 0,
      rsh_reserved = 0, rsh_value_len = word_of_nat (length (resp_value resp))\<rparr>"
    by (simp add: serialize_response_frame response_frame_def)
  then show ?thesis using True by (simp add: write_response_def)
next
  case False
  then show ?thesis by (simp add: write_response_def serialize_response_def Let_def)
qed

lemma u32_pos_iff: "(0 :: u32) < w \<longleftrightarrow> 0 < unat w"
  by (simp add: word_less_nat_alt)

lemma read_request_parse:
  "snd (read_request ds) = parse_request (avail ds)"
  and read_request_rest: "read_request ds = (ds', Some r) \<Longrightarrow> avail ds = request_frame flags r @ rest \<Longrightarrow> avail ds' = rest"
proof -
  obtain ds1 hb where h: "read_exact ds kHeaderSize = (ds1, hb)" by fastforce
  define hdr where "hdr = request_header_of (take kHeaderSize (avail ds))"
  let ?k = "unat (rqh_key_len hdr)" and ?v = "unat (rqh_value_len hdr)"
  obtain ds2 pl where p: "read_exact ds1 (?k + ?v) = (ds2, pl)" by fastforce
  have "snd (read_request ds) = parse_request (avail ds) \<and>
      (\<forall>r. read_request ds = (ds', Some r) \<longrightarrow> avail ds' = drop (kHeaderSize + length (req_key r) + length (req_value r)) (avail ds))"
  proof (cases hb)
    case None
    then show ?thesis using h read_exact_None [of ds kHeaderSize ds1] by (simp add: read_request_def parse_request_def)
  next
    case (Some hbs)
    note s = read_exact_Some [OF h [unfolded Some]]
    have hdr: "request_header_of hbs = hdr" using s by (simp add: hdr_def)
    have avail1: "avail ds1 = drop kHeaderSize (avail ds)" by (rule s(3))
    have rr: "read_request ds = (case pl of None \<Rightarrow> (ds2, None) | Some payload \<Rightarrow>
        (ds2, Some \<lparr>req_opcode = rqh_opcode hdr, req_key = string_of (take ?k payload),
           req_value = string_of (take ?v (drop ?k payload))\<rparr>))"
      using h Some hdr p by (auto simp: read_request_def Let_def u32_pos_iff read_exact_pos split: option.splits)
    show ?thesis
    proof (cases pl)
      case None
      then have "length (avail ds) < kHeaderSize + (?k + ?v)" using p read_exact_None [of ds1 "?k + ?v" ds2] avail1 s(1) by simp
      then show ?thesis using rr None by (simp add: parse_request_def hdr_def Let_def)
    next
      case (Some payload)
      note s2 = read_exact_Some [OF p [unfolded Some]]
      have len: "kHeaderSize + (?k + ?v) \<le> length (avail ds)" using s2(1) avail1 s(1) by simp
      have pay: "payload = take (?k + ?v) (drop kHeaderSize (avail ds))" using s2(2) avail1 by simp
      have "parse_request (avail ds) = Some \<lparr>req_opcode = rqh_opcode hdr, req_key = string_of (take ?k payload),
           req_value = string_of (take ?v (drop ?k payload))\<rparr>"
        using len by (simp add: parse_request_def pay Let_def drop_take min_def flip: hdr_def)
      moreover have "avail ds2 = drop (kHeaderSize + (?k + ?v)) (avail ds)" using s2(3) avail1 by (simp add: add.commute)
      moreover have "length payload = ?k + ?v" using len by (simp add: pay)
      ultimately show ?thesis using rr Some by (auto simp: min_def add.assoc)
    qed
  qed
  then show "snd (read_request ds) = parse_request (avail ds)"
    and "read_request ds = (ds', Some r) \<Longrightarrow> avail ds = request_frame flags r @ rest \<Longrightarrow> avail ds' = rest"
    by (auto simp: request_frame_def)
qed

lemma read_response_parse:
  "snd (read_response ds) = parse_response (avail ds)"
  and read_response_rest: "read_response ds = (ds', Some r) \<Longrightarrow> avail ds = response_frame flags reserved r @ rest \<Longrightarrow> avail ds' = rest"
proof -
  obtain ds1 hb where h: "read_exact ds kHeaderSize = (ds1, hb)" by fastforce
  define hdr where "hdr = response_header_of (take kHeaderSize (avail ds))"
  let ?v = "unat (rsh_value_len hdr)"
  obtain ds2 pl where p: "read_exact ds1 ?v = (ds2, pl)" by fastforce
  have "snd (read_response ds) = parse_response (avail ds) \<and>
      (\<forall>r. read_response ds = (ds', Some r) \<longrightarrow> avail ds' = drop (kHeaderSize + length (resp_value r)) (avail ds))"
  proof (cases hb)
    case None
    then show ?thesis using h read_exact_None [of ds kHeaderSize ds1] by (simp add: read_response_def parse_response_def)
  next
    case (Some hbs)
    note s = read_exact_Some [OF h [unfolded Some]]
    have hdr: "response_header_of hbs = hdr" using s by (simp add: hdr_def)
    have avail1: "avail ds1 = drop kHeaderSize (avail ds)" by (rule s(3))
    have rr: "read_response ds = (case pl of None \<Rightarrow> (ds2, None) | Some v \<Rightarrow>
        (ds2, Some \<lparr>resp_status = rsh_status hdr, resp_value = string_of v\<rparr>))"
      using h Some hdr p by (cases "?v = 0") (auto simp: read_response_def Let_def u32_pos_iff split: option.splits)
    show ?thesis
    proof (cases pl)
      case None
      then have "length (avail ds) < kHeaderSize + ?v" using p read_exact_None [of ds1 ?v ds2] avail1 s(1) by simp
      then show ?thesis using rr None by (simp add: parse_response_def hdr_def Let_def)
    next
      case (Some v)
      note s2 = read_exact_Some [OF p [unfolded Some]]
      have len: "kHeaderSize + ?v \<le> length (avail ds)" using s2(1) avail1 s(1) by simp
      have "parse_response (avail ds) = Some \<lparr>resp_status = rsh_status hdr, resp_value = string_of v\<rparr>"
        using len s2(2) avail1 by (simp add: parse_response_def Let_def flip: hdr_def)
      moreover have "avail ds2 = drop (kHeaderSize + ?v) (avail ds)" using s2(3) avail1 by (simp add: add.commute)
      moreover have "length v = ?v" using len s2(2) avail1 by simp
      ultimately show ?thesis using rr Some by auto
    qed
  qed
  then show "snd (read_response ds) = parse_response (avail ds)"
    and "read_response ds = (ds', Some r) \<Longrightarrow> avail ds = response_frame flags reserved r @ rest \<Longrightarrow> avail ds' = rest"
    by (auto simp: response_frame_def)
qed

section \<open>Properties\<close>


text \<open>
  A response is written as its serialisation, whole or, if the connection fails, a proper prefix
  of it, and the caller learns which; and it is written whole as soon as the writes the kernel
  accepts before a failure add up to its length.
\<close>
theorem write_response_spec:
  "case write_response c resp of (c', ok) \<Rightarrow>
     (\<exists>sent rest. c_out c' = c_out c @ sent \<and> serialize_response resp = sent @ rest \<and> (ok \<longleftrightarrow> rest = [])) \<and>
     c_in c' = c_in c \<and>
     (length (serialize_response resp) \<le> sum_list (takeWhile (\<lambda>r. r \<noteq> 0) (c_wr c)) \<longrightarrow> ok)"
proof -
  obtain rs out ok where w: "write_all (c_wr c) (c_out c) (serialize_response resp) = (rs, out, ok)" by (metis surj_pair)
  then show ?thesis
    using write_all_prefix [where rs = "c_wr c" and out = "c_out c" and src = "serialize_response resp"]
      write_all_complete [where rs = "c_wr c" and out = "c_out c" and src = "serialize_response resp"]
    by (auto simp: write_response_eq)
qed

theorem write_response_spec_witness:
  "snd (write_response \<lparr>c_in = [], c_wr = [3, 6], c_out = []\<rparr> \<lparr>resp_status = Status_Ok, resp_value = ''v''\<rparr>)"
proof -
  let ?r = "\<lparr>resp_status = Status_Ok, resp_value = ''v''\<rparr>" and ?c = "\<lparr>c_in = [], c_wr = [3, 6], c_out = []\<rparr>"
  have "length (serialize_response ?r) = 9"
    by (simp add: serialize_response_frame response_frame_def kHeaderSize_def)
  then show ?thesis using write_response_spec [of ?c ?r] by (simp add: case_prod_beta)
qed

end
