(* ===== verification/BufferPool.thy ===== *)
theory BufferPool
  imports Prelude
begin

text \<open>
  Registered buffers (\<open>src/src/io/buffer_pool.h\<close> and \<open>buffer_pool.cpp\<close>).

  The size of the region is computed in 64 bits, with wrap-around and with the rounding mask of the
  code; indices are 16 bits wide. Whether \<open>aligned_alloc\<close> and \<open>io_uring_register_buffers\<close> succeed are
  arguments of the constructor. A buffer's address is its offset in the region.
\<close>

section \<open>State and operations\<close>

datatype pool_error = Alloc_Failed | Register_Failed

record buffer_pool =
  bp_buffer_size :: u64
  bp_buffer_count :: u64
  bp_region_size :: u64
  bp_iovecs :: "u64 list"
  bp_free_list :: "u16 list"

record buffer_handle =
  bh_index :: u16
  bh_data :: u64
  bh_size :: u64

definition region_size :: "u64 \<Rightarrow> u64 \<Rightarrow> u64" where
  "region_size buffer_size buffer_count =
     (let r = buffer_size * buffer_count in (r + 4096 - 1) AND NOT (4096 - 1))"

primrec fill_free :: "nat \<Rightarrow> u16 list \<Rightarrow> u16 list" where
  "fill_free 0 fl = fl"
| "fill_free (Suc i) fl = fill_free i (fl @ [word_of_nat i])"

definition new_buffer_pool :: "u64 \<Rightarrow> u64 \<Rightarrow> bool \<Rightarrow> bool \<Rightarrow> pool_error + buffer_pool" where
  "new_buffer_pool buffer_size buffer_count alloc_ok register_ok =
     (if \<not> alloc_ok then Inl Alloc_Failed
      else if \<not> register_ok then Inl Register_Failed
      else Inr \<lparr>bp_buffer_size = buffer_size, bp_buffer_count = buffer_count,
                bp_region_size = region_size buffer_size buffer_count,
                bp_iovecs = map (\<lambda>i. word_of_nat i * buffer_size) [0..<unat buffer_count],
                bp_free_list = fill_free (unat buffer_count) []\<rparr>)"

definition bp_acquire :: "buffer_pool \<Rightarrow> buffer_pool \<times> buffer_handle option" where
  "bp_acquire bp =
     (if bp_free_list bp = [] then (bp, None)
      else let idx = last (bp_free_list bp)
           in (bp\<lparr>bp_free_list := butlast (bp_free_list bp)\<rparr>,
               Some \<lparr>bh_index = idx, bh_data = bp_iovecs bp ! unat idx, bh_size = bp_buffer_size bp\<rparr>))"

definition bp_release :: "buffer_pool \<Rightarrow> u16 \<Rightarrow> buffer_pool" where
  "bp_release bp index = bp\<lparr>bp_free_list := bp_free_list bp @ [index]\<rparr>"

definition bp_available :: "buffer_pool \<Rightarrow> nat" where
  "bp_available bp = length (bp_free_list bp)"

section \<open>The region\<close>

lemma and_not_mask_eq: "(x :: u64) AND NOT (mask n) = push_bit n (drop_bit n x)"
  by (rule bit_word_eqI) (auto simp: bit_simps)

lemma unat_round_down: "unat ((x :: u64) AND NOT (4096 - 1)) = unat x div 4096 * 4096"
proof -
  have "(4096 - 1 :: u64) = mask 12" by (simp add: mask_eq_exp_minus_1)
  then have "(x :: u64) AND NOT (4096 - 1) = push_bit 12 (drop_bit 12 x)" using and_not_mask_eq [of x 12] by simp
  also have "unat \<dots> = unat (drop_bit 12 x) * 2 ^ 12"
  proof -
    have "unat (drop_bit 12 x) = unat x div 2 ^ 12" by (simp add: drop_bit_eq_div unat_div)
    moreover have "unat x div 2 ^ 12 * 2 ^ 12 \<le> unat x" by simp
    moreover have "unat x < 2 ^ 64" using unsigned_less [of x] by simp
    ultimately have "unat (drop_bit 12 x) * 2 ^ 12 < 2 ^ LENGTH(64)" by simp
    then show ?thesis by (simp add: push_bit_eq_mult unat_word_ariths unsigned_push_bit_eq take_bit_eq_mod)
  qed
  also have "\<dots> = unat x div 4096 * 4096" by (simp add: drop_bit_eq_div unat_div)
  finally show ?thesis .
qed

lemma unat_round_up:
  assumes "unat (r :: u64) + 4095 < 2 ^ 64"
  shows "unat ((r + 4096 - 1) AND NOT (4096 - 1)) = (unat r + 4095) div 4096 * 4096"
proof -
  have "r + 4096 - 1 = r + 4095" by (simp add: algebra_simps)
  moreover have "unat (r + 4095) = unat r + 4095" using assms by (subst unat_add_lem [THEN iffD1]) simp_all
  ultimately show ?thesis unfolding unat_round_down by (simp only:)
qed

lemma round_up_bounds:
  "n \<le> (n + 4095) div 4096 * (4096 :: nat)" "(n + 4095) div 4096 * 4096 mod (4096 :: nat) = 0"
  "(n + 4095) div 4096 * 4096 < n + (4096 :: nat)"
  by simp_all

lemma region_size_bounds:
  assumes "unat bs * unat cnt + 4095 < 2 ^ 64"
  shows "unat bs * unat cnt \<le> unat (region_size bs cnt)" and "unat (region_size bs cnt) mod 4096 = 0"
    and "unat (region_size bs cnt) < unat bs * unat cnt + 4096"
proof -
  have m: "unat (bs * cnt) = unat bs * unat cnt" using assms by (subst unat_mult_lem [THEN iffD1]) simp_all
  have r: "unat (region_size bs cnt) = (unat bs * unat cnt + 4095) div 4096 * 4096"
    unfolding region_size_def Let_def m [symmetric] by (rule unat_round_up) (use assms m in simp)
  show "unat bs * unat cnt \<le> unat (region_size bs cnt)" "unat (region_size bs cnt) mod 4096 = 0"
    "unat (region_size bs cnt) < unat bs * unat cnt + 4096"
    unfolding r by (rule round_up_bounds)+
qed

section \<open>Ownership of buffers\<close>

lemma fill_free_eq: "fill_free n fl = fl @ map word_of_nat (rev [0..<n])"
  by (induction n arbitrary: fl) simp_all

definition pool_ok :: "buffer_pool \<Rightarrow> u16 set \<Rightarrow> bool" where
  "pool_ok bp used \<longleftrightarrow>
     unat (bp_buffer_count bp) \<le> 2 ^ 16 \<and>
     length (bp_iovecs bp) = unat (bp_buffer_count bp) \<and>
     (\<forall>i < unat (bp_buffer_count bp). bp_iovecs bp ! i = word_of_nat i * bp_buffer_size bp) \<and>
     distinct (bp_free_list bp) \<and> set (bp_free_list bp) \<inter> used = {} \<and>
     set (bp_free_list bp) \<union> used = {i. unat i < unat (bp_buffer_count bp)}"

lemma pool_ok_acquire:
  assumes ok: "pool_ok bp used" and a: "bp_acquire bp = (bp', Some h)"
  shows "pool_ok bp' (insert (bh_index h) used)" and "bh_index h \<notin> used"
    and "unat (bh_index h) < unat (bp_buffer_count bp)"
    and "bh_data h = word_of_nat (unat (bh_index h)) * bp_buffer_size bp"
proof -
  have ne: "bp_free_list bp \<noteq> []" using a by (auto simp: bp_acquire_def)
  then obtain fl i where fl: "bp_free_list bp = fl @ [i]" by (metis rev_exhaust)
  have b: "bp' = bp\<lparr>bp_free_list := fl\<rparr>" and h: "bh_index h = i" "bh_data h = bp_iovecs bp ! unat i"
    using a fl by (auto simp: bp_acquire_def Let_def)
  have "i \<in> {i. unat i < unat (bp_buffer_count bp)}" using ok fl unfolding pool_ok_def by auto
  then show "unat (bh_index h) < unat (bp_buffer_count bp)" by (simp add: h)
  then show "bh_data h = word_of_nat (unat (bh_index h)) * bp_buffer_size bp"
    using ok h by (simp add: pool_ok_def)
  show "bh_index h \<notin> used" using ok fl h by (auto simp: pool_ok_def)
  show "pool_ok bp' (insert (bh_index h) used)" using ok fl b h unfolding pool_ok_def by auto
qed

lemma pool_ok_release:
  assumes "pool_ok bp used" and "i \<in> used"
  shows "pool_ok (bp_release bp i) (used - {i})"
  using assms unfolding pool_ok_def bp_release_def by auto

lemma pool_ok_new:
  assumes "new_buffer_pool bs cnt alloc_ok register_ok = Inr bp" and "unat cnt \<le> 2 ^ 16"
  shows "pool_ok bp {}"
proof -
  have bp: "bp = \<lparr>bp_buffer_size = bs, bp_buffer_count = cnt, bp_region_size = region_size bs cnt,
      bp_iovecs = map (\<lambda>i. word_of_nat i * bs) [0..<unat cnt], bp_free_list = map word_of_nat (rev [0..<unat cnt])\<rparr>"
    using assms(1) by (auto simp: new_buffer_pool_def fill_free_eq split: if_splits)
  have inj: "inj_on (word_of_nat :: nat \<Rightarrow> u16) {0..<unat cnt}"
  proof (rule inj_onI)
    fix x y assume "x \<in> {0..<unat cnt}" "y \<in> {0..<unat cnt}" and eq: "(word_of_nat x :: u16) = word_of_nat y"
    then have "x < 65536" "y < 65536" using assms(2) by auto
    then show "x = y" using arg_cong [OF eq, of unat] by simp
  qed
  have "i \<in> word_of_nat ` {0..<unat cnt} \<longleftrightarrow> unat i < unat cnt" for i :: u16
  proof
    assume "i \<in> word_of_nat ` {0..<unat cnt}"
    then show "unat i < unat cnt" using assms(2) by (auto simp: unat_of_nat)
  next
    assume "unat i < unat cnt"
    then show "i \<in> word_of_nat ` {0..<unat cnt}" by (intro image_eqI [of _ _ "unat i"]) simp_all
  qed
  then show ?thesis using inj assms(2) by (auto simp: pool_ok_def bp distinct_map)
qed

text \<open>The states the pool can be in, with the indices that are handed out.\<close>

inductive pool_reachable :: "u64 \<Rightarrow> u64 \<Rightarrow> buffer_pool \<Rightarrow> u16 set \<Rightarrow> bool" for bs :: u64 and cnt :: u64 where
  created: "new_buffer_pool bs cnt alloc_ok register_ok = Inr bp \<Longrightarrow> pool_reachable bs cnt bp {}"
| acquired: "pool_reachable bs cnt bp used \<Longrightarrow> bp_acquire bp = (bp', Some h) \<Longrightarrow>
    pool_reachable bs cnt bp' (insert (bh_index h) used)"
| released: "pool_reachable bs cnt bp used \<Longrightarrow> i \<in> used \<Longrightarrow> pool_reachable bs cnt (bp_release bp i) (used - {i})"

lemma pool_reachable_params:
  assumes "pool_reachable bs cnt bp used"
  shows "bp_buffer_size bp = bs" and "bp_buffer_count bp = cnt" and "bp_region_size bp = region_size bs cnt"
  using assms
  by (induction rule: pool_reachable.induct)
    (auto simp: new_buffer_pool_def bp_acquire_def bp_release_def Let_def split: if_splits)

lemma pool_reachable_ok:
  assumes "pool_reachable bs cnt bp used" and "unat cnt \<le> 2 ^ 16"
  shows "pool_ok bp used"
  using assms by (induction rule: pool_reachable.induct) (blast intro: pool_ok_new pool_ok_acquire pool_ok_release)+

lemma buffer_extent:
  assumes "unat bs * unat cnt + 4095 < 2 ^ 64" and "unat i < unat cnt"
  shows "unat (word_of_nat (unat (i :: u16)) * bs) = unat i * unat bs"
    and "unat i * unat bs + unat bs \<le> unat (region_size bs cnt)"
proof -
  have le: "(unat i + 1) * unat bs \<le> unat bs * unat cnt" using assms(2) mult_le_mono1 [of "unat i + 1" "unat cnt" "unat bs"]
    by (simp add: mult.commute)
  have "unat i < 65536" using unsigned_less [of i, where ?'a = nat] by simp
  then have "unat i mod 2 ^ 64 = unat i" by (intro mod_less, elim order.strict_trans) simp
  then have "unat (word_of_nat (unat i) :: u64) = unat i" by (simp add: unat_of_nat del: of_nat_unat)
  moreover have "unat i * unat bs < 2 ^ 64" using le assms(1) by simp
  ultimately show "unat (word_of_nat (unat i) * bs) = unat i * unat bs"
    by (subst unat_mult_lem [THEN iffD1]) simp_all
  show "unat i * unat bs + unat bs \<le> unat (region_size bs cnt)"
    using le region_size_bounds(1) [OF assms(1)] by (simp add: add.commute)
qed

section \<open>Properties\<close>

text \<open>
  C29. Registered buffers are exclusive and in bounds: as long as the region's size does not wrap and
  the indices fit 16 bits, \<open>acquire\<close> fails exactly when every buffer is handed out, and a buffer it
  hands out is not in use, lies inside the page-rounded region, and overlaps no other buffer of it.
\<close>
theorem buffer_pool_safe:
  assumes "pool_reachable bs cnt bp used" and "unat cnt \<le> 2 ^ 16" and "unat bs * unat cnt + 4095 < 2 ^ 64"
  shows "case bp_acquire bp of
           (bp', None) \<Rightarrow> bp' = bp \<and> used = {i. unat i < unat cnt}
         | (bp', Some h) \<Rightarrow> bh_index h \<notin> used \<and> bh_size h = bs \<and>
             unat (bh_data h) + unat bs \<le> unat (bp_region_size bp) \<and>
             (\<forall>j \<in> used. unat (bh_data h) + unat bs \<le> unat (bp_iovecs bp ! unat j) \<or>
                          unat (bp_iovecs bp ! unat j) + unat bs \<le> unat (bh_data h))"
proof -
  note ok = pool_reachable_ok [OF assms(1,2)] and pr = pool_reachable_params [OF assms(1)]
  note bound = buffer_extent [OF assms(3)]
  obtain bp' r where a: "bp_acquire bp = (bp', r)" by fastforce
  show ?thesis
  proof (cases r)
    case None
    then have "bp_free_list bp = []" "bp' = bp" using a by (auto simp: bp_acquire_def Let_def split: if_splits)
    then show ?thesis using a None ok pr by (simp add: pool_ok_def)
  next
    case (Some h)
    note acq = pool_ok_acquire [OF ok a [unfolded Some], unfolded pr]
    have size: "bh_size h = bs" using a Some pr by (auto simp: bp_acquire_def Let_def split: if_splits)
    have data: "unat (bh_data h) = unat (bh_index h) * unat bs" using acq(3,4) bound(1) by simp
    have "unat (bh_index h) * unat bs + unat bs \<le> unat j * unat bs \<or> unat j * unat bs + unat bs \<le> unat (bh_index h) * unat bs"
      and "unat (bp_iovecs bp ! unat j) = unat j * unat bs" if j: "j \<in> used" for j
    proof -
      have "j \<in> set (bp_free_list bp) \<union> used" using j by simp
      then have lt: "unat j < unat cnt" using ok pr unfolding pool_ok_def by simp
      then show "unat (bp_iovecs bp ! unat j) = unat j * unat bs" using ok pr bound(1) unfolding pool_ok_def by simp
      have "j \<noteq> bh_index h" using j acq(2) by auto
      then consider "unat j + 1 \<le> unat (bh_index h)" | "unat (bh_index h) + 1 \<le> unat j"
        by (metis Suc_eq_plus1 Suc_leI linorder_neqE_nat word_unat_eq_iff)
      then show "unat (bh_index h) * unat bs + unat bs \<le> unat j * unat bs \<or> unat j * unat bs + unat bs \<le> unat (bh_index h) * unat bs"
        by cases (drule mult_le_mono1 [of _ _ "unat bs"], simp)+
    qed
    then show ?thesis using a Some acq(2) size data bound(2) [OF acq(3)] pr by simp
  qed
qed

theorem buffer_pool_safe_witness:
  "\<exists>bp. snd (bp_acquire bp) = Some \<lparr>bh_index = 0, bh_data = 0, bh_size = 4096\<rparr> \<and>
        unat (bh_data (the (snd (bp_acquire bp)))) + 4096 \<le> unat (bp_region_size bp) \<and> bp_region_size bp = 8192"
proof -
  let ?bp = "\<lparr>bp_buffer_size = 4096, bp_buffer_count = 2, bp_region_size = 8192, bp_iovecs = [0, 4096], bp_free_list = [1, 0]\<rparr>"
  have "region_size 4096 2 = 8192" by (simp add: region_size_def)
  moreover have "[0..<2] = [0, 1]" "fill_free 2 [] = [1, 0]" by (simp_all add: upt_rec numeral_2_eq_2)
  ultimately have "new_buffer_pool 4096 2 True True = Inr ?bp" by (simp add: new_buffer_pool_def)
  then have "pool_reachable 4096 2 ?bp {}" by (rule pool_reachable.created)
  from buffer_pool_safe [OF this] show ?thesis
    by (intro exI [of _ ?bp]) (simp add: bp_acquire_def Let_def)
qed

end
