(* ===== verification/PeerClient.thy ===== *)
theory PeerClient
  imports Streams BufferPool
begin

text \<open>
  The outbound client of a node (\<open>src/src/coordinator/peer_client.h\<close> and \<open>peer_client.cpp\<close>): a pool
  of idle connections per peer, and the exchange of one request and one response.

  A descriptor is an \<open>int\<close> as in the code, negative where there is none. What \<open>socket\<close>,
  \<open>inet_pton\<close> and \<open>async_connect\<close> answer when a connection is opened is an argument (a \<open>dial\<close>); the
  operations return the descriptors they close. A registered buffer only lends its memory to one
  read: the bytes are copied out of it before it is released, and the theorem on buffer pools says
  that nobody else has it meanwhile, so the model lets the read return the bytes directly.
\<close>

section \<open>State and operations\<close>

type_synonym fd = int

record peer_client =
  pc_conn_pool :: "((string \<times> u16) \<times> fd list) list"

record dial =
  dial_socket :: fd
  dial_pton_ok :: bool
  dial_connect :: int

definition new_peer_client :: peer_client where
  "new_peer_client = \<lparr>pc_conn_pool = []\<rparr>"

definition open_connection :: "dial \<Rightarrow> fd \<times> fd list" where
  "open_connection d =
     (let fd = dial_socket d
      in if fd < 0 then (-1, [])
         else if \<not> dial_pton_ok d then (-1, [fd])
         else if dial_connect d < 0 then (-1, [fd])
         else (fd, []))"

definition pc_acquire :: "peer_client \<Rightarrow> string \<Rightarrow> u16 \<Rightarrow> dial \<Rightarrow> peer_client \<times> fd \<times> fd list" where
  "pc_acquire pc host port d =
     (case um_find (host, port) (pc_conn_pool pc) of
        Some (fd # fds) \<Rightarrow> (pc\<lparr>pc_conn_pool := um_set (host, port) fds (pc_conn_pool pc)\<rparr>, fd, [])
      | _ \<Rightarrow> (pc, open_connection d))"

definition pc_release :: "peer_client \<Rightarrow> string \<Rightarrow> u16 \<Rightarrow> fd \<Rightarrow> peer_client" where
  "pc_release pc host port fd =
     (let fds = (case um_find (host, port) (pc_conn_pool pc) of Some fds \<Rightarrow> fds | None \<Rightarrow> [])
      in pc\<lparr>pc_conn_pool := um_set (host, port) (fds @ [fd]) (pc_conn_pool pc)\<rparr>)"

definition pc_pool_size :: "peer_client \<Rightarrow> nat" where
  "pc_pool_size pc = sum_list (map (\<lambda>(key, fds). length fds) (pc_conn_pool pc))"

text \<open>The destructor: the descriptors it closes.\<close>

definition pc_destroy :: "peer_client \<Rightarrow> fd list" where
  "pc_destroy pc = concat (map snd (pc_conn_pool pc))"

text \<open>Reading the value of a response, through a registered buffer where there is one that is large enough.\<close>

definition read_value ::
  "buffer_pool option \<Rightarrow> delivery list \<Rightarrow> u32 \<Rightarrow> buffer_pool option \<times> delivery list \<times> bytes option" where
  "read_value bufs ds value_len =
     (case bufs of
        None \<Rightarrow> (None, read_exact ds (unat value_len))
      | Some bp \<Rightarrow>
          (case bp_acquire bp of
             (bp, Some h) \<Rightarrow>
               if bh_size h \<ge> ucast value_len
               then let (ds, r) = read_exact ds (unat value_len)
                    in (Some (bp_release bp (bh_index h)), ds, r)
               else let bp = bp_release bp (bh_index h) in (Some bp, read_exact ds (unat value_len))
           | (bp, None) \<Rightarrow> (Some bp, read_exact ds (unat value_len))))"

definition send_request :: "buffer_pool option \<Rightarrow> conn \<Rightarrow> request \<Rightarrow> buffer_pool option \<times> conn \<times> response" where
  "send_request bufs c req =
     (let error = \<lparr>resp_status = Status_Error, resp_value = []\<rparr>;
          (rs, out, ok) = write_all (c_wr c) (c_out c) (serialize_request req);
          c = c\<lparr>c_wr := rs, c_out := out\<rparr>
      in if \<not> ok then (bufs, c, error)
         else case read_exact (c_in c) kHeaderSize of
                (ds, None) \<Rightarrow> (bufs, c\<lparr>c_in := ds\<rparr>, error)
              | (ds, Some hb) \<Rightarrow>
                  let hdr = response_header_of hb
                  in if rsh_value_len hdr > 0
                     then case read_value bufs ds (rsh_value_len hdr) of
                            (bufs, ds, None) \<Rightarrow> (bufs, c\<lparr>c_in := ds\<rparr>, error)
                          | (bufs, ds, Some v) \<Rightarrow>
                              (bufs, c\<lparr>c_in := ds\<rparr>, \<lparr>resp_status = rsh_status hdr, resp_value = string_of v\<rparr>)
                     else (bufs, c\<lparr>c_in := ds\<rparr>, \<lparr>resp_status = rsh_status hdr, resp_value = []\<rparr>))"

section \<open>The exchange\<close>

lemma bp_release_acquire: "bp_acquire bp = (bp', Some h) \<Longrightarrow> bp_release bp' (bh_index h) = bp"
  by (auto simp: bp_acquire_def bp_release_def Let_def split: if_splits)

lemma bp_acquire_None: "bp_acquire bp = (bp', None) \<Longrightarrow> bp' = bp"
  by (auto simp: bp_acquire_def Let_def split: if_splits)

lemma read_value_eq: "read_value bufs ds n = (bufs, read_exact ds (unat n))"
  by (cases bufs)
    (auto simp: read_value_def Let_def bp_release_acquire dest: bp_acquire_None split: option.split prod.split)

lemma send_request_eq:
  "send_request bufs c req =
     (case write_all (c_wr c) (c_out c) (serialize_request req) of (rs, out, ok) \<Rightarrow>
        let c = c\<lparr>c_wr := rs, c_out := out\<rparr>; error = \<lparr>resp_status = Status_Error, resp_value = []\<rparr>
        in if \<not> ok then (bufs, c, error)
           else case read_response (c_in c) of (ds, r) \<Rightarrow>
                  (bufs, c\<lparr>c_in := ds\<rparr>, case r of None \<Rightarrow> error | Some resp \<Rightarrow> resp))"
  by (simp add: send_request_def read_response_def read_value_eq Let_def split: prod.split option.split)

section \<open>Ownership of descriptors\<close>

text \<open>\<open>held\<close> are the descriptors that callers hold, \<open>opn\<close> the open ones of this client.\<close>

definition fds_ok :: "peer_client \<Rightarrow> fd set \<Rightarrow> fd set \<Rightarrow> bool" where
  "fds_ok pc held opn \<longleftrightarrow>
     um_ok (pc_conn_pool pc) \<and> distinct (pc_destroy pc) \<and> set (pc_destroy pc) \<inter> held = {} \<and>
     opn = set (pc_destroy pc) \<union> held \<and> (\<forall>fd \<in> opn. 0 \<le> fd)"

text \<open>What the kernel guarantees: a descriptor it hands out is not open.\<close>

definition dial_fresh :: "dial \<Rightarrow> fd set \<Rightarrow> bool" where
  "dial_fresh d opn \<longleftrightarrow> dial_socket d \<notin> opn"

lemma um_set_absent: "um_find k m = None \<Longrightarrow> um_set k v m = m @ [(k, v)]"
  by (induction m) (auto simp: um_find_def um_set_def split: if_splits)

lemma um_set_present:
  "um_find k m = Some old \<Longrightarrow> \<exists>m1 m2. m = m1 @ (k, old) # m2 \<and> um_set k v m = m1 @ (k, v) # m2"
proof (induction m)
  case (Cons e m)
  obtain j w where e: "e = (j, w)" by fastforce
  show ?case
  proof (cases "j = k")
    case True
    then show ?thesis using Cons.prems e by (intro exI [of _ "[]"] exI [of _ m]) (simp add: um_find_def um_set_def)
  next
    case False
    then have "um_find k m = Some old" using Cons.prems e by (simp add: um_find_def)
    from Cons.IH [OF this] obtain m1 m2 where "m = m1 @ (k, old) # m2" "um_set k v m = m1 @ (k, v) # m2" by blast
    then show ?thesis using False e by (intro exI [of _ "e # m1"] exI [of _ m2]) (simp add: um_set_def)
  qed
qed (simp add: um_find_def)

lemma fds_ok_acquire:
  assumes ok: "fds_ok pc held opn" and fresh: "dial_fresh d opn" and a: "pc_acquire pc host port d = (pc', fd, closed)"
  shows "if 0 \<le> fd then closed = [] \<and> fd \<notin> held \<and> fds_ok pc' (insert fd held) (insert fd opn)
         else pc' = pc \<and> set closed \<inter> opn = {} \<and> distinct closed"
proof (cases "\<exists>f fds. um_find (host, port) (pc_conn_pool pc) = Some (f # fds)")
  case True
  then obtain f fds where f: "um_find (host, port) (pc_conn_pool pc) = Some (f # fds)" by blast
  then have r: "pc' = pc\<lparr>pc_conn_pool := um_set (host, port) fds (pc_conn_pool pc)\<rparr>" "fd = f" "closed = []"
    using a by (simp_all add: pc_acquire_def)
  obtain m1 m2 where m: "pc_conn_pool pc = m1 @ ((host, port), f # fds) # m2"
    "um_set (host, port) fds (pc_conn_pool pc) = m1 @ ((host, port), fds) # m2"
    using um_set_present [OF f] by blast
  have d: "pc_destroy pc = concat (map snd m1) @ (f # fds) @ concat (map snd m2)" by (simp add: pc_destroy_def m(1))
  have d': "pc_destroy pc' = concat (map snd m1) @ fds @ concat (map snd m2)" by (simp add: pc_destroy_def r(1) m(2))
  have "um_ok (pc_conn_pool pc')" using ok by (simp add: fds_ok_def r(1))
  then have "fds_ok pc' (insert f held) opn" "f \<notin> held" "f \<in> opn" "0 \<le> f"
    using ok unfolding fds_ok_def d d' by auto
  then show ?thesis using r by (simp add: insert_absorb)
next
  case False
  then have "pc' = pc" "open_connection d = (fd, closed)"
    using a by (auto simp: pc_acquire_def split: option.splits list.splits)
  then show ?thesis using ok fresh
    by (auto simp: open_connection_def Let_def dial_fresh_def fds_ok_def split: if_splits)
qed

lemma fds_ok_release:
  assumes ok: "fds_ok pc held opn" and h: "fd \<in> held"
  shows "fds_ok (pc_release pc host port fd) (held - {fd}) opn"
proof (cases "um_find (host, port) (pc_conn_pool pc)")
  case None
  then have m: "um_set (host, port) [fd] (pc_conn_pool pc) = pc_conn_pool pc @ [((host, port), [fd])]" by (rule um_set_absent)
  have "um_ok (um_set (host, port) [fd] (pc_conn_pool pc))" using ok by (simp add: fds_ok_def)
  then show ?thesis using ok h None by (auto simp: fds_ok_def pc_release_def pc_destroy_def m)
next
  case (Some fds)
  then obtain m1 m2 where m: "pc_conn_pool pc = m1 @ ((host, port), fds) # m2"
    "um_set (host, port) (fds @ [fd]) (pc_conn_pool pc) = m1 @ ((host, port), fds @ [fd]) # m2"
    using um_set_present [OF Some] by blast
  have d: "pc_destroy pc = concat (map snd m1) @ fds @ concat (map snd m2)" by (simp add: pc_destroy_def m(1))
  have d': "pc_destroy (pc_release pc host port fd) = concat (map snd m1) @ fds @ [fd] @ concat (map snd m2)"
    by (simp add: pc_destroy_def pc_release_def Some m(2))
  have "um_ok (pc_conn_pool (pc_release pc host port fd))" using ok by (simp add: fds_ok_def pc_release_def Let_def)
  then show ?thesis using ok h unfolding fds_ok_def d d' by auto
qed

lemma fds_ok_close: "fds_ok pc held opn \<Longrightarrow> fd \<in> held \<Longrightarrow> fds_ok pc (held - {fd}) (opn - {fd})"
  by (auto simp: fds_ok_def)

text \<open>Histories of a client: callers acquire, and then release or close what they hold.\<close>

inductive pc_reachable :: "peer_client \<Rightarrow> fd set \<Rightarrow> fd set \<Rightarrow> bool" where
  start: "pc_reachable new_peer_client {} {}"
| acquired: "pc_reachable pc held opn \<Longrightarrow> dial_fresh d opn \<Longrightarrow> pc_acquire pc host port d = (pc', fd, closed) \<Longrightarrow> 0 \<le> fd \<Longrightarrow>
    pc_reachable pc' (insert fd held) (insert fd opn)"
| failed: "pc_reachable pc held opn \<Longrightarrow> dial_fresh d opn \<Longrightarrow> pc_acquire pc host port d = (pc', fd, closed) \<Longrightarrow> fd < 0 \<Longrightarrow>
    pc_reachable pc' held (insert (dial_socket d) opn - set closed - {x. x < 0})"
| released: "pc_reachable pc held opn \<Longrightarrow> fd \<in> held \<Longrightarrow> pc_reachable (pc_release pc host port fd) (held - {fd}) opn"
| closed: "pc_reachable pc held opn \<Longrightarrow> fd \<in> held \<Longrightarrow> pc_reachable pc (held - {fd}) (opn - {fd})"

lemma acquire_failed:
  assumes "fds_ok pc held opn" and "dial_fresh d opn" and "pc_acquire pc host port d = (pc', fd, closed)" and "fd < 0"
  shows "insert (dial_socket d) opn - set closed - {x. x < 0} = opn"
proof (cases "\<exists>f fds. um_find (host, port) (pc_conn_pool pc) = Some (f # fds)")
  case True
  then have "0 \<le> fd" using fds_ok_acquire [OF assms(1-3)] assms(1,3) um_find_SomeD
    by (fastforce simp: pc_acquire_def fds_ok_def pc_destroy_def)
  then show ?thesis using assms(4) by simp
next
  case False
  then have "open_connection d = (fd, closed)" using assms(3) by (auto simp: pc_acquire_def split: option.splits list.splits)
  moreover have "\<not> x < 0" if "x \<in> opn" for x using that assms(1) by (metis fds_ok_def not_le)
  moreover have "dial_socket d \<notin> opn" using assms(2) by (simp add: dial_fresh_def)
  ultimately show ?thesis using assms(4) by (auto simp: open_connection_def Let_def split: if_splits)
qed

lemma pc_reachable_ok: "pc_reachable pc held opn \<Longrightarrow> fds_ok pc held opn"
proof (induction rule: pc_reachable.induct)
  case start
  then show ?case by (simp add: fds_ok_def new_peer_client_def pc_destroy_def)
next
  case (acquired pc held opn d host port pc' fd closed)
  then show ?case using fds_ok_acquire [OF acquired.IH acquired.hyps(2,3)] by simp
next
  case (failed pc held opn d host port pc' fd closed)
  then show ?case using fds_ok_acquire [OF failed.IH failed.hyps(2,3)] acquire_failed [OF failed.IH failed.hyps(2-4)] by simp
qed (simp_all add: fds_ok_release fds_ok_close)

section \<open>Properties\<close>

text \<open>
  One exchange with a peer: whether or not a registered buffer is used, and however the network cuts
  the stream, the answer is the first response the peer sends, provided the request could be
  written whole; it is an error otherwise, or when the stream ends before a whole response; and no
  registered buffer is lost.
\<close>
theorem send_request_spec:
  "\<exists>c' sent rest. send_request bufs c req =
       (bufs, c', if rest \<noteq> [] then \<lparr>resp_status = Status_Error, resp_value = []\<rparr>
                  else case parse_response (avail (c_in c)) of
                         None \<Rightarrow> \<lparr>resp_status = Status_Error, resp_value = []\<rparr> | Some resp \<Rightarrow> resp) \<and>
     c_out c' = c_out c @ sent \<and> serialize_request req = sent @ rest"
proof -
  obtain rs out ok where w: "write_all (c_wr c) (c_out c) (serialize_request req) = (rs, out, ok)" by (metis surj_pair)
  obtain sent rest where s: "out = c_out c @ sent" "serialize_request req = sent @ rest" "ok \<longleftrightarrow> rest = []"
    using write_all_prefix [where rs = "c_wr c" and out = "c_out c" and src = "serialize_request req"] w by auto
  obtain ds r where r: "read_response (c_in c) = (ds, r)" by fastforce
  then have "r = parse_response (avail (c_in c))" using read_response_parse [of "c_in c"] by simp
  then show ?thesis using w s r
    by (cases ok; intro exI [of _ "fst (snd (send_request bufs c req))"] exI [of _ sent] exI [of _ rest])
      (auto simp: send_request_eq)
qed

text \<open>
  No connection is lost or shared: an open descriptor of the client is either idle in exactly one
  place of the pool or held by exactly one caller, so \<open>acquire\<close> never hands out a descriptor
  that is in use, and the destructor closes every idle descriptor once and no held one.
\<close>
theorem peer_descriptors_conserved:
  assumes "pc_reachable pc held opn"
  shows "opn = set (pc_destroy pc) \<union> held \<and> set (pc_destroy pc) \<inter> held = {} \<and> distinct (pc_destroy pc) \<and>
    pc_pool_size pc = card (set (pc_destroy pc)) \<and>
    (\<forall>d host port. dial_fresh d opn \<longrightarrow> (case pc_acquire pc host port d of (pc', fd, closed) \<Rightarrow>
       fd \<notin> held \<and> set closed \<inter> opn = {} \<and>
       (0 \<le> fd \<longrightarrow> set (pc_destroy pc') = set (pc_destroy pc) - {fd}) \<and> (fd < 0 \<longrightarrow> pc' = pc)))"
proof -
  note ok = pc_reachable_ok [OF assms]
  have "pc_pool_size pc = length (pc_destroy pc)"
    by (simp add: pc_pool_size_def pc_destroy_def length_concat comp_def case_prod_beta')
  moreover have "fd \<notin> held \<and> set closed \<inter> opn = {} \<and> (0 \<le> fd \<longrightarrow> set (pc_destroy pc') = set (pc_destroy pc) - {fd}) \<and> (fd < 0 \<longrightarrow> pc' = pc)"
    if "dial_fresh d opn" "pc_acquire pc host port d = (pc', fd, closed)" for d host port pc' fd closed
  proof (cases "0 \<le> fd")
    case True
    with fds_ok_acquire [OF ok that] have c: "closed = []" "fd \<notin> held" "fds_ok pc' (insert fd held) (insert fd opn)" by simp_all
    have "set (pc_destroy pc') = insert fd opn - insert fd held" using c(3) by (auto simp: fds_ok_def)
    also have "\<dots> = set (pc_destroy pc) - {fd}" using ok by (auto simp: fds_ok_def)
    finally show ?thesis using c(1,2) True by simp
  next
    case False
    with fds_ok_acquire [OF ok that] show ?thesis using ok by (auto simp: fds_ok_def)
  qed
  then have "\<forall>d host port. dial_fresh d opn \<longrightarrow> (case pc_acquire pc host port d of (pc', fd, closed) \<Rightarrow>
       fd \<notin> held \<and> set closed \<inter> opn = {} \<and>
       (0 \<le> fd \<longrightarrow> set (pc_destroy pc') = set (pc_destroy pc) - {fd}) \<and> (fd < 0 \<longrightarrow> pc' = pc))"
    by (simp split: prod.split)
  ultimately show ?thesis using ok by (simp add: fds_ok_def distinct_card)
qed

theorem peer_descriptors_conserved_witness:
  "\<exists>pc held opn. pc_pool_size pc = 1 \<and> held = {} \<and> opn = {5} \<and> set (pc_destroy pc) = opn"
proof -
  let ?d = "\<lparr>dial_socket = 5, dial_pton_ok = True, dial_connect = 0\<rparr>"
  have "pc_acquire new_peer_client ''h'' 7 ?d = (new_peer_client, 5, [])"
    by (simp add: pc_acquire_def new_peer_client_def open_connection_def)
  then have "pc_reachable new_peer_client (insert 5 {}) (insert 5 {})"
    by (intro pc_reachable.acquired [OF pc_reachable.start]) (auto simp: dial_fresh_def)
  then have "pc_reachable (pc_release new_peer_client ''h'' 7 5) ({5} - {5}) {5}" by (rule pc_reachable.released) simp
  from peer_descriptors_conserved [OF this]
  have "{5} = set (pc_destroy (pc_release new_peer_client ''h'' 7 5))"
    "pc_pool_size (pc_release new_peer_client ''h'' 7 5) = card (set (pc_destroy (pc_release new_peer_client ''h'' 7 5)))"
    by simp_all
  then have "pc_pool_size (pc_release new_peer_client ''h'' 7 5) = 1" "set (pc_destroy (pc_release new_peer_client ''h'' 7 5)) = {5}"
    by (metis card.empty card.insert_remove card_1_singleton_iff One_nat_def, simp)
  then show ?thesis by blast
qed

end
