(* ===== verification/WaitGroup.thy ===== *)
theory WaitGroup
  imports Prelude
begin

text \<open>
  Request collapsing (\<open>src/src/coordinator/wait_group.h\<close> and \<open>wait_group.cpp\<close>).

  A \<open>FetchHandle\<close> is a shared pointer, and what joins and completions see of each other goes through
  the object it points to, so the fetches live in an explicit store: a list that only grows, with a
  handle as its index. (The object \<open>emplace\<close> constructs for a key that is already there is freed
  at once and never seen.) A coroutine handle is a number.

  \<open>complete\<close> has two critical sections, one on the table and one on the fetch, and other coroutines
  can run between them. The step relation at the end interleaves any number of coroutines at the
  level of these critical sections.
\<close>

section \<open>State and operations\<close>

record pending_fetch =
  pf_waiters :: "nat list"
  pf_result :: "string option"
  pf_completed :: bool

record wait_group =
  wg_fetches :: "pending_fetch list"
  wg_pending :: "(string \<times> nat) list"

definition new_pending_fetch :: pending_fetch where
  "new_pending_fetch = \<lparr>pf_waiters = [], pf_result = None, pf_completed = False\<rparr>"

definition new_wait_group :: wait_group where
  "new_wait_group = \<lparr>wg_fetches = [], wg_pending = []\<rparr>"

definition try_join :: "wait_group \<Rightarrow> string \<Rightarrow> wait_group \<times> bool \<times> nat" where
  "try_join wg key =
     (case um_find key (wg_pending wg) of
        Some h \<Rightarrow> (wg, False, h)
      | None \<Rightarrow>
          let h = length (wg_fetches wg)
          in (wg\<lparr>wg_fetches := wg_fetches wg @ [new_pending_fetch], wg_pending := um_set key h (wg_pending wg)\<rparr>,
              True, h))"

definition await_ready :: "wait_group \<Rightarrow> nat \<Rightarrow> bool" where
  "await_ready wg h = pf_completed (wg_fetches wg ! h)"

definition await_suspend :: "wait_group \<Rightarrow> nat \<Rightarrow> nat \<Rightarrow> wait_group \<times> bool" where
  "await_suspend wg h c =
     (let f = wg_fetches wg ! h
      in if pf_completed f then (wg, False)
         else (wg\<lparr>wg_fetches := (wg_fetches wg)[h := f\<lparr>pf_waiters := pf_waiters f @ [c]\<rparr>]\<rparr>, True))"

definition await_resume :: "wait_group \<Rightarrow> nat \<Rightarrow> string option" where
  "await_resume wg h = pf_result (wg_fetches wg ! h)"

text \<open>The two critical sections of \<open>complete\<close>.\<close>

definition complete_take :: "wait_group \<Rightarrow> string \<Rightarrow> wait_group \<times> nat option" where
  "complete_take wg key =
     (case um_find key (wg_pending wg) of
        None \<Rightarrow> (wg, None)
      | Some h \<Rightarrow> (wg\<lparr>wg_pending := um_erase key (wg_pending wg)\<rparr>, Some h))"

definition complete_publish :: "wait_group \<Rightarrow> nat \<Rightarrow> string option \<Rightarrow> wait_group \<times> nat list" where
  "complete_publish wg h v =
     (let f = wg_fetches wg ! h
      in (wg\<lparr>wg_fetches := (wg_fetches wg)[h := f\<lparr>pf_result := v, pf_completed := True, pf_waiters := []\<rparr>]\<rparr>,
          pf_waiters f))"

text \<open>\<open>complete\<close> without interference: the new state and the coroutines it resumes, in order.\<close>

definition complete_fetch :: "wait_group \<Rightarrow> string \<Rightarrow> string option \<Rightarrow> wait_group \<times> nat list" where
  "complete_fetch wg key v =
     (case complete_take wg key of
        (wg, None) \<Rightarrow> (wg, [])
      | (wg, Some h) \<Rightarrow> complete_publish wg h v)"

definition pending_count :: "wait_group \<Rightarrow> nat" where
  "pending_count wg = length (wg_pending wg)"

section \<open>Interleaving\<close>

text \<open>
  Where a coroutine is: fetching for a key, about to publish (the key already taken from the table),
  joined to somebody else's fetch, suspended on it, resumed, or done with a result.
\<close>

datatype phase =
    Idle
  | Fetching string nat
  | Publishing nat "string option"
  | Joined nat
  | Suspended nat
  | Resumed nat
  | Done nat "string option"

record wg_state =
  st_wg :: wait_group
  st_phase :: "nat \<Rightarrow> phase"

definition wg_init :: wg_state where
  "wg_init = \<lparr>st_wg = new_wait_group, st_phase = (\<lambda>_. Idle)\<rparr>"

inductive wg_step :: "wg_state \<Rightarrow> wg_state \<Rightarrow> bool" where
  join: "st_phase s c = Idle \<Longrightarrow> try_join (st_wg s) key = (wg, initiator, h) \<Longrightarrow>
    wg_step s \<lparr>st_wg = wg, st_phase = (st_phase s)(c := if initiator then Fetching key h else Joined h)\<rparr>"
| ready: "st_phase s c = Joined h \<Longrightarrow> await_ready (st_wg s) h \<Longrightarrow>
    wg_step s (s\<lparr>st_phase := (st_phase s)(c := Resumed h)\<rparr>)"
| suspend: "st_phase s c = Joined h \<Longrightarrow> await_suspend (st_wg s) h c = (wg, suspended) \<Longrightarrow>
    wg_step s \<lparr>st_wg = wg, st_phase = (st_phase s)(c := if suspended then Suspended h else Resumed h)\<rparr>"
| take: "st_phase s c = Fetching key h \<Longrightarrow> complete_take (st_wg s) key = (wg, Some h') \<Longrightarrow>
    wg_step s \<lparr>st_wg = wg, st_phase = (st_phase s)(c := Publishing h' v)\<rparr>"
| take_none: "st_phase s c = Fetching key h \<Longrightarrow> complete_take (st_wg s) key = (wg, None) \<Longrightarrow>
    wg_step s \<lparr>st_wg = wg, st_phase = (st_phase s)(c := Idle)\<rparr>"
| publish: "st_phase s c = Publishing h v \<Longrightarrow> complete_publish (st_wg s) h v = (wg, to_resume) \<Longrightarrow>
    wg_step s \<lparr>st_wg = wg,
      st_phase = (\<lambda>d. if d = c then Done h v else if d \<in> set to_resume then Resumed h else st_phase s d)\<rparr>"
| resume: "st_phase s c = Resumed h \<Longrightarrow>
    wg_step s (s\<lparr>st_phase := (st_phase s)(c := Done h (await_resume (st_wg s) h))\<rparr>)"
| again: "st_phase s c = Done h v \<Longrightarrow> wg_step s (s\<lparr>st_phase := (st_phase s)(c := Idle)\<rparr>)"

inductive wg_reachable :: "wg_state \<Rightarrow> bool" where
  init: "wg_reachable wg_init"
| step: "wg_reachable s \<Longrightarrow> wg_step s t \<Longrightarrow> wg_reachable t"

section \<open>Invariant\<close>

abbreviation fetch :: "wg_state \<Rightarrow> nat \<Rightarrow> pending_fetch" where
  "fetch s h \<equiv> wg_fetches (st_wg s) ! h"

text \<open>The coroutine \<open>c\<close> is responsible for fetch \<open>h\<close>: it will publish its result.\<close>

definition owns :: "wg_state \<Rightarrow> nat \<Rightarrow> nat \<Rightarrow> bool" where
  "owns s c h \<longleftrightarrow> (\<exists>key. st_phase s c = Fetching key h) \<or> (\<exists>v. st_phase s c = Publishing h v)"

fun phase_handle :: "phase \<Rightarrow> nat option" where
  "phase_handle Idle = None"
| "phase_handle (Fetching key h) = Some h"
| "phase_handle (Publishing h v) = Some h"
| "phase_handle (Joined h) = Some h"
| "phase_handle (Suspended h) = Some h"
| "phase_handle (Resumed h) = Some h"
| "phase_handle (Done h v) = Some h"

text \<open>Handles exist; the table lists exactly the fetches in progress; every fetch has one owner.\<close>

definition inv_table :: "wg_state \<Rightarrow> bool" where
  "inv_table s \<longleftrightarrow>
     (\<forall>c h. phase_handle (st_phase s c) = Some h \<longrightarrow> h < length (wg_fetches (st_wg s))) \<and>
     (\<forall>key h. um_find key (wg_pending (st_wg s)) = Some h \<longleftrightarrow> (\<exists>c. st_phase s c = Fetching key h)) \<and>
     (\<forall>c d h. owns s c h \<longrightarrow> owns s d h \<longrightarrow> c = d)"

text \<open>A fetch is completed exactly when nobody owns it, and its waiters are the coroutines suspended on it.\<close>

definition inv_fetches :: "wg_state \<Rightarrow> bool" where
  "inv_fetches s \<longleftrightarrow>
     (\<forall>h < length (wg_fetches (st_wg s)).
        (pf_completed (fetch s h) \<longleftrightarrow> \<not> (\<exists>c. owns s c h)) \<and>
        (\<forall>c. c \<in> set (pf_waiters (fetch s h)) \<longleftrightarrow> st_phase s c = Suspended h) \<and>
        (pf_completed (fetch s h) \<longrightarrow> pf_waiters (fetch s h) = []))"

text \<open>Who goes on has a completed fetch, and a result is the one that was published.\<close>

definition inv_results :: "wg_state \<Rightarrow> bool" where
  "inv_results s \<longleftrightarrow>
     (\<forall>c h. st_phase s c = Resumed h \<longrightarrow> pf_completed (fetch s h)) \<and>
     (\<forall>c h v. st_phase s c = Done h v \<longrightarrow> pf_completed (fetch s h) \<and> pf_result (fetch s h) = v)"

definition wg_inv :: "wg_state \<Rightarrow> bool" where
  "wg_inv s \<longleftrightarrow> inv_table s \<and> inv_fetches s \<and> inv_results s"

lemmas wg_op_defs = try_join_def await_ready_def await_suspend_def await_resume_def
  complete_take_def complete_publish_def new_pending_fetch_def

lemma handle_less: "inv_table s \<Longrightarrow> phase_handle (st_phase s c) = Some h \<Longrightarrow> h < length (wg_fetches (st_wg s))"
  by (simp add: inv_table_def)

lemma table_find:
  "inv_table s \<Longrightarrow> um_find key (wg_pending (st_wg s)) = Some h \<longleftrightarrow> (\<exists>c. st_phase s c = Fetching key h)"
  by (simp add: inv_table_def)

lemma owner_unique: "inv_table s \<Longrightarrow> owns s c h \<Longrightarrow> owns s d h \<Longrightarrow> c = d"
  unfolding inv_table_def by blast

lemma wg_inv_init: "wg_inv wg_init"
  by (simp add: wg_inv_def inv_table_def inv_fetches_def inv_results_def wg_init_def new_wait_group_def owns_def)

text \<open>A coroutine that neither owns a fetch nor is suspended may go to any other such phase.\<close>

fun idling :: "phase \<Rightarrow> bool" where
  "idling (Fetching key h) = False"
| "idling (Publishing h v) = False"
| "idling (Suspended h) = False"
| "idling _ = True"

lemma idling_neq:
  "idling p \<Longrightarrow> p \<noteq> Fetching key h" "idling p \<Longrightarrow> p \<noteq> Publishing h v" "idling p \<Longrightarrow> p \<noteq> Suspended h"
  by auto

lemma inv_idling:
  assumes inv: "wg_inv s" and p: "idling (st_phase s c)" and q: "idling q"
    and h: "\<And>h. phase_handle q = Some h \<Longrightarrow> h < length (wg_fetches (st_wg s))"
    and r: "\<And>h. q = Resumed h \<Longrightarrow> pf_completed (fetch s h)"
    and d: "\<And>h v. q = Done h v \<Longrightarrow> pf_completed (fetch s h) \<and> pf_result (fetch s h) = v"
  shows "wg_inv (s\<lparr>st_phase := (st_phase s)(c := q)\<rparr>)" (is "wg_inv ?t")
proof -
  have f: "st_phase ?t e = Fetching key h \<longleftrightarrow> st_phase s e = Fetching key h" for e key h
    using idling_neq [OF p] idling_neq [OF q] by auto
  have o: "owns ?t e h \<longleftrightarrow> owns s e h" for e h
    using idling_neq [OF p] idling_neq [OF q] by (auto simp: owns_def)
  have w: "st_phase ?t e = Suspended h \<longleftrightarrow> st_phase s e = Suspended h" for e h
    using idling_neq [OF p] idling_neq [OF q] by auto
  have "inv_table ?t" using inv h unfolding inv_table_def wg_inv_def o f by auto
  moreover have "inv_fetches ?t" using inv unfolding inv_fetches_def wg_inv_def o w by simp
  moreover have "inv_results ?t" using inv r d unfolding inv_results_def wg_inv_def by auto
  ultimately show ?thesis by (simp add: wg_inv_def)
qed

lemma inv_join:
  assumes inv: "wg_inv s" and c: "st_phase s c = Idle" and j: "try_join (st_wg s) key = (wg, initiator, h)"
  shows "wg_inv \<lparr>st_wg = wg, st_phase = (st_phase s)(c := if initiator then Fetching key h else Joined h)\<rparr>" (is "wg_inv ?t")
proof (cases "um_find key (wg_pending (st_wg s))")
  case (Some h')
  then obtain d where "st_phase s d = Fetching key h'" using inv by (auto simp: wg_inv_def inv_table_def)
  then have "h' < length (wg_fetches (st_wg s))" using inv handle_less [of s d h'] by (simp add: wg_inv_def)
  with inv_idling [OF inv, of c "Joined h'"] c have "wg_inv (s\<lparr>st_phase := (st_phase s)(c := Joined h')\<rparr>)" by simp
  with Some j show ?thesis by (cases s) (auto simp: try_join_def)
next
  case None
  let ?n = "length (wg_fetches (st_wg s))"
  have t: "?t = \<lparr>st_wg = (st_wg s)\<lparr>wg_fetches := wg_fetches (st_wg s) @ [new_pending_fetch],
      wg_pending := um_set key ?n (wg_pending (st_wg s))\<rparr>, st_phase = (st_phase s)(c := Fetching key ?n)\<rparr>"
    using None j by (auto simp: try_join_def Let_def)
  have less: "phase_handle (st_phase s d) = Some k \<Longrightarrow> k < ?n" for d k using inv by (auto simp: wg_inv_def inv_table_def)
  have old: "st_phase s d \<noteq> Fetching k' ?n" "st_phase s d \<noteq> Publishing ?n v" "st_phase s d \<noteq> Suspended ?n"
    "st_phase s d \<noteq> Resumed ?n" "st_phase s d \<noteq> Done ?n v" for d k' v using less [of d ?n] by auto
  have none: "st_phase s d \<noteq> Fetching key k" for d k using table_find [of s key k] inv None by (auto simp: wg_inv_def)
  have o: "owns ?t d k \<longleftrightarrow> (if d = c then k = ?n else owns s d k)" for d k by (auto simp: t owns_def)
  have o': "owns s d k \<Longrightarrow> k < ?n \<and> d \<noteq> c" for d k using less [of d k] c by (auto simp: owns_def)
  have pend: "um_find k (wg_pending (st_wg ?t)) = Some k' \<longleftrightarrow> (\<exists>d. st_phase ?t d = Fetching k k')" for k k'
  proof (cases "k = key")
    case True
    then show ?thesis using none by (auto simp: t)
  next
    case False
    have "st_phase ?t d = Fetching k k' \<longleftrightarrow> st_phase s d = Fetching k k'" for d using False c by (auto simp: t)
    moreover have "um_find k (wg_pending (st_wg ?t)) = um_find k (wg_pending (st_wg s))" using False by (simp add: t)
    ultimately show ?thesis using table_find [of s k k'] inv by (simp add: wg_inv_def)
  qed
  have uniq: "d = e" if "owns ?t d k" "owns ?t e k" for d e k
  proof (cases "k = ?n")
    case True
    then have "\<not> owns s d k" "\<not> owns s e k" using o' [of d k] o' [of e k] by auto
    then show ?thesis using that o [of d k] o [of e k] by (simp split: if_splits)
  next
    case False
    then have "owns s d k" "owns s e k" using that o [of d k] o [of e k] by (simp_all split: if_splits)
    then show ?thesis using owner_unique [of s d k e] inv by (simp add: wg_inv_def)
  qed
  have "k < length (wg_fetches (st_wg ?t))" if "phase_handle (st_phase ?t d) = Some k" for d k
    using that less [of d k] by (auto simp: t less_Suc_eq split: if_splits)
  then have "inv_table ?t" unfolding inv_table_def using pend uniq by blast
  moreover have "inv_fetches ?t" unfolding inv_fetches_def
  proof (intro allI impI)
    fix k assume "k < length (wg_fetches (st_wg ?t))"
    then consider "k < ?n" | "k = ?n" by (auto simp: t less_Suc_eq)
    then show "pf_completed (fetch ?t k) = (\<not> (\<exists>d. owns ?t d k)) \<and>
        (\<forall>d. d \<in> set (pf_waiters (fetch ?t k)) \<longleftrightarrow> st_phase ?t d = Suspended k) \<and>
        (pf_completed (fetch ?t k) \<longrightarrow> pf_waiters (fetch ?t k) = [])"
    proof cases
      case 1
      then have "owns ?t d k \<longleftrightarrow> owns s d k" for d using o [of d k] o' [of d k] by auto
      moreover have "st_phase ?t d = Suspended k \<longleftrightarrow> st_phase s d = Suspended k" for d using c by (auto simp: t)
      moreover have "fetch ?t k = fetch s k" using 1 by (simp add: t nth_append)
      ultimately show ?thesis using inv 1 by (simp add: wg_inv_def inv_fetches_def)
    next
      case 2
      then have "owns ?t c k" using o [of c k] by simp
      moreover have "st_phase ?t d \<noteq> Suspended k" for d using 2 old(3) [of d] by (auto simp: t)
      ultimately show ?thesis using 2 by (auto simp: t new_pending_fetch_def)
    qed
  qed
  moreover have "inv_results ?t"
  proof -
    have "st_phase s d = Resumed k \<Longrightarrow> k < ?n" "st_phase s d = Done k v \<Longrightarrow> k < ?n" for d k v
      using less [of d k] by simp_all
    then show ?thesis using inv by (auto simp: t wg_inv_def inv_results_def nth_append split: if_splits)
  qed
  ultimately show ?thesis by (simp add: wg_inv_def)
qed

lemma inv_suspend:
  assumes inv: "wg_inv s" and c: "st_phase s c = Joined h" and w: "await_suspend (st_wg s) h c = (wg, suspended)"
  shows "wg_inv \<lparr>st_wg = wg, st_phase = (st_phase s)(c := if suspended then Suspended h else Resumed h)\<rparr>" (is "wg_inv ?t")
proof -
  have h: "h < length (wg_fetches (st_wg s))" using inv c handle_less [of s c h] by (simp add: wg_inv_def)
  show ?thesis
  proof (cases "pf_completed (fetch s h)")
    case True
    then have "wg_inv (s\<lparr>st_phase := (st_phase s)(c := Resumed h)\<rparr>)"
      using inv_idling [OF inv, of c "Resumed h"] c h by simp
    with True w show ?thesis by (cases s) (auto simp: await_suspend_def)
  next
    case False
    let ?f = "(fetch s h)\<lparr>pf_waiters := pf_waiters (fetch s h) @ [c]\<rparr>"
    have t: "?t = \<lparr>st_wg = (st_wg s)\<lparr>wg_fetches := (wg_fetches (st_wg s))[h := ?f]\<rparr>, st_phase = (st_phase s)(c := Suspended h)\<rparr>"
      using False w by (auto simp: await_suspend_def Let_def)
    have o: "owns ?t d k \<longleftrightarrow> owns s d k" for d k using c by (auto simp: t owns_def)
    have f: "st_phase ?t d = Fetching key k \<longleftrightarrow> st_phase s d = Fetching key k" for d key k using c by (auto simp: t)
    have nth: "wg_fetches (st_wg ?t) ! k = (if k = h then ?f else fetch s k)"
      "length (wg_fetches (st_wg ?t)) = length (wg_fetches (st_wg s))" for k using h by (auto simp: t)
    have "inv_table ?t" unfolding inv_table_def o f nth(2) using inv h by (auto simp: t wg_inv_def inv_table_def)
    moreover have "inv_fetches ?t"
      unfolding inv_fetches_def o nth using inv c False by (auto simp: t wg_inv_def inv_fetches_def)
    moreover have "inv_results ?t"
      unfolding inv_results_def nth using inv False by (auto simp: t wg_inv_def inv_results_def)
    ultimately show ?thesis by (simp add: wg_inv_def)
  qed
qed

lemma inv_take:
  assumes inv: "wg_inv s" and c: "st_phase s c = Fetching key h" and w: "complete_take (st_wg s) key = (wg, f)"
  shows "f = Some h" and "wg_inv \<lparr>st_wg = wg, st_phase = (st_phase s)(c := Publishing h v)\<rparr>" (is "wg_inv ?t")
proof -
  have find: "um_find key (wg_pending (st_wg s)) = Some h" using inv c by (auto simp: wg_inv_def inv_table_def)
  then show "f = Some h" using w by (auto simp: complete_take_def)
  have t: "?t = \<lparr>st_wg = (st_wg s)\<lparr>wg_pending := um_erase key (wg_pending (st_wg s))\<rparr>, st_phase = (st_phase s)(c := Publishing h v)\<rparr>"
    using find w by (auto simp: complete_take_def)
  have o: "owns ?t d k \<longleftrightarrow> owns s d k" for d k using c by (auto simp: t owns_def)
  have only: "d = c" if "st_phase s d = Fetching key k" for d k
  proof -
    have "um_find key (wg_pending (st_wg s)) = Some k" using inv that by (auto simp: wg_inv_def inv_table_def)
    with find have "k = h" by simp
    then have "owns s d h" "owns s c h" using that c by (auto simp: owns_def)
    then show ?thesis using inv by (auto simp: wg_inv_def inv_table_def)
  qed
  have pend: "um_find k (wg_pending (st_wg ?t)) = Some k' \<longleftrightarrow> (\<exists>d. st_phase ?t d = Fetching k k')" for k k'
  proof -
    have "um_find k (wg_pending (st_wg s)) = Some k' \<longleftrightarrow> (\<exists>d. st_phase s d = Fetching k k')"
      using inv by (simp add: wg_inv_def inv_table_def)
    moreover have "st_phase ?t d = Fetching k k' \<longleftrightarrow> k \<noteq> key \<and> st_phase s d = Fetching k k'" for d
      using only [of d k'] c by (auto simp: t)
    moreover have "um_find k (wg_pending (st_wg ?t)) = (if k = key then None else um_find k (wg_pending (st_wg s)))"
      by (simp add: t)
    ultimately show ?thesis by simp
  qed
  have "inv_table ?t"
    unfolding inv_table_def o pend using inv c handle_less [of s c h] by (auto simp: t wg_inv_def inv_table_def)
  moreover have "inv_fetches ?t" unfolding inv_fetches_def o using inv c by (auto simp: t wg_inv_def inv_fetches_def)
  moreover have "inv_results ?t" using inv by (auto simp: t wg_inv_def inv_results_def)
  ultimately show "wg_inv ?t" by (simp add: wg_inv_def)
qed

lemma inv_publish:
  assumes inv: "wg_inv s" and c: "st_phase s c = Publishing h v" and w: "complete_publish (st_wg s) h v = (wg, to_resume)"
  shows "wg_inv \<lparr>st_wg = wg,
      st_phase = (\<lambda>d. if d = c then Done h v else if d \<in> set to_resume then Resumed h else st_phase s d)\<rparr>" (is "wg_inv ?t")
proof -
  let ?f = "(fetch s h)\<lparr>pf_result := v, pf_completed := True, pf_waiters := []\<rparr>"
  have h: "h < length (wg_fetches (st_wg s))" using inv c handle_less [of s c h] by (simp add: wg_inv_def)
  have res: "d \<in> set to_resume \<longleftrightarrow> st_phase s d = Suspended h" for d
    using inv w h by (auto simp: complete_publish_def Let_def wg_inv_def inv_fetches_def)
  have t: "?t = \<lparr>st_wg = (st_wg s)\<lparr>wg_fetches := (wg_fetches (st_wg s))[h := ?f]\<rparr>,
      st_phase = (\<lambda>d. if d = c then Done h v else if st_phase s d = Suspended h then Resumed h else st_phase s d)\<rparr>"
    using w unfolding res by (auto simp: complete_publish_def Let_def)
  have own: "owns s c h" using c by (auto simp: owns_def)
  have only: "owns s d h \<Longrightarrow> d = c" for d using inv own by (auto simp: wg_inv_def inv_table_def)
  have o: "owns ?t d k \<longleftrightarrow> owns s d k \<and> k \<noteq> h" for d k
  proof (cases "d = c")
    case True
    then show ?thesis using c by (simp add: t owns_def)
  next
    case False
    then have "owns ?t d k \<longleftrightarrow> owns s d k" by (simp add: t owns_def)
    then show ?thesis using False only by blast
  qed
  have f: "st_phase ?t d = Fetching key k \<longleftrightarrow> st_phase s d = Fetching key k" for d key k using c by (auto simp: t)
  have nth: "wg_fetches (st_wg ?t) ! k = (if k = h then ?f else fetch s k)"
    "length (wg_fetches (st_wg ?t)) = length (wg_fetches (st_wg s))" for k using h by (auto simp: t)
  have open_h: "\<not> pf_completed (fetch s h)" using inv own h by (auto simp: wg_inv_def inv_fetches_def)
  have "inv_table ?t" unfolding inv_table_def o f nth(2) using inv h by (auto simp: t wg_inv_def inv_table_def)
  moreover have "inv_fetches ?t"
  proof -
    have "st_phase ?t d = Suspended k \<longleftrightarrow> k \<noteq> h \<and> st_phase s d = Suspended k" for d k using c by (auto simp: t)
    then show ?thesis unfolding inv_fetches_def o nth using inv by (simp add: wg_inv_def inv_fetches_def)
  qed
  moreover have "inv_results ?t"
  proof -
    have "k = h \<or> pf_completed (fetch s k)" if "st_phase ?t d = Resumed k" for d k
      using that inv by (auto simp: t wg_inv_def inv_results_def split: if_splits)
    moreover have "k = h \<and> x = v \<or> k \<noteq> h \<and> pf_completed (fetch s k) \<and> pf_result (fetch s k) = x"
      if "st_phase ?t d = Done k x" for d k x
      using that inv open_h by (auto simp: t wg_inv_def inv_results_def split: if_splits)
    ultimately show ?thesis unfolding inv_results_def nth by fastforce
  qed
  ultimately show ?thesis by (simp add: wg_inv_def)
qed

lemma wg_inv_step: "wg_step s t \<Longrightarrow> wg_inv s \<Longrightarrow> wg_inv t"
proof (induction rule: wg_step.induct)
  case (join s c key wg initiator h)
  show ?case by (rule inv_join [OF join.prems join.hyps])
next
  case (ready s c h)
  then have "h < length (wg_fetches (st_wg s))" using handle_less [of s c h] by (simp add: wg_inv_def)
  with ready show ?case by (intro inv_idling) (simp_all add: await_ready_def)
next
  case (suspend s c h wg suspended)
  show ?case by (rule inv_suspend [OF suspend.prems suspend.hyps])
next
  case (take s c key h wg h' v)
  have "h' = h" using inv_take(1) [OF take.prems take.hyps] by simp
  then show ?case using inv_take(2) [OF take.prems take.hyps, of v] by simp
next
  case (take_none s c key h wg)
  then show ?case using inv_take(1) [OF take_none.prems take_none.hyps] by simp
next
  case (publish s c h v wg to_resume)
  show ?case by (rule inv_publish [OF publish.prems publish.hyps])
next
  case (resume s c h)
  then have "h < length (wg_fetches (st_wg s))" "pf_completed (fetch s h)"
    using handle_less [of s c h] by (auto simp: wg_inv_def inv_results_def)
  with resume show ?case by (intro inv_idling) (simp_all add: await_resume_def)
next
  case (again s c h v)
  then show ?case by (intro inv_idling) simp_all
qed

lemma wg_reachable_inv: "wg_reachable s \<Longrightarrow> wg_inv s"
  by (induction rule: wg_reachable.induct) (auto intro: wg_inv_init wg_inv_step)

lemma publish_resumes:
  assumes inv: "wg_inv s" and d: "st_phase s d = Publishing h v" and c: "st_phase s c = Suspended h"
  shows "\<exists>t. wg_step s t \<and> st_phase t c = Resumed h"
proof -
  obtain wg to_resume where w: "complete_publish (st_wg s) h v = (wg, to_resume)" by fastforce
  have "h < length (wg_fetches (st_wg s))" using inv c handle_less [of s c h] by (simp add: wg_inv_def)
  then have "c \<in> set to_resume"
    using inv w c by (auto simp: complete_publish_def Let_def wg_inv_def inv_fetches_def)
  moreover have "c \<noteq> d" using c d by auto
  ultimately show ?thesis using wg_step.publish [OF d w] by (intro exI conjI) (assumption, simp)
qed

lemma take_publishes:
  assumes inv: "wg_inv s" and d: "st_phase s d = Fetching key h" and c: "st_phase s c = Suspended h"
  shows "\<exists>t. wg_step s t \<and> st_phase t d = Publishing h v \<and> st_phase t c = Suspended h"
proof -
  obtain wg f where w: "complete_take (st_wg s) key = (wg, f)" by fastforce
  have "f = Some h" by (rule inv_take(1) [OF inv d w])
  with w have w': "complete_take (st_wg s) key = (wg, Some h)" by simp
  have "c \<noteq> d" using c d by auto
  then show ?thesis using wg_step.take [OF d w', of v] c by (intro exI conjI) (assumption, simp_all)
qed

lemma suspended_has_owner:
  assumes "wg_inv s" and "st_phase s c = Suspended h"
  shows "\<exists>d. owns s d h"
proof (rule ccontr)
  assume no: "\<not> (\<exists>d. owns s d h)"
  have h: "h < length (wg_fetches (st_wg s))" using assms handle_less [of s c h] by (simp add: wg_inv_def)
  with assms(1) no have "pf_completed (fetch s h)" and "pf_waiters (fetch s h) = []"
    by (auto simp: wg_inv_def inv_fetches_def)
  moreover have "c \<in> set (pf_waiters (fetch s h))" using assms h by (simp add: wg_inv_def inv_fetches_def)
  ultimately show False by simp
qed

section \<open>Properties\<close>

text \<open>
  C2. Whatever the interleaving, at most one coroutine fetches a key at any moment; a coroutine that
  is suspended has a fetch in progress that will wake it (in particular, when no fetch is in
  progress nobody is suspended); and all coroutines that shared a fetch got the same result.
\<close>
theorem wait_group_safe:
  assumes "wg_reachable s"
  shows "(\<forall>c d key h k. st_phase s c = Fetching key h \<longrightarrow> st_phase s d = Fetching key k \<longrightarrow> c = d) \<and>
    (\<forall>c h. st_phase s c = Suspended h \<longrightarrow>
       (\<exists>d. (\<exists>key. st_phase s d = Fetching key h) \<or> (\<exists>v. st_phase s d = Publishing h v))) \<and>
    (\<forall>c d h v w. st_phase s c = Done h v \<longrightarrow> st_phase s d = Done h w \<longrightarrow> v = w)"
proof (intro conjI allI impI)
  have inv: "wg_inv s" by (rule wg_reachable_inv [OF assms])
  fix c d key h k assume p: "st_phase s c = Fetching key h" "st_phase s d = Fetching key k"
  then have "um_find key (wg_pending (st_wg s)) = Some h" "um_find key (wg_pending (st_wg s)) = Some k"
    using inv table_find [of s key] by (auto simp: wg_inv_def)
  with p have "owns s c h" "owns s d h" by (auto simp: owns_def)
  then show "c = d" using inv owner_unique [of s c h d] by (simp add: wg_inv_def)
next
  fix c h assume "st_phase s c = Suspended h"
  from suspended_has_owner [OF wg_reachable_inv [OF assms] this]
  show "\<exists>d. (\<exists>key. st_phase s d = Fetching key h) \<or> (\<exists>v. st_phase s d = Publishing h v)" by (simp add: owns_def)
next
  fix c d h v w assume "st_phase s c = Done h v" "st_phase s d = Done h w"
  moreover have "pf_result (fetch s h) = x" if "st_phase s e = Done h x" for e x
    using that wg_reachable_inv [OF assms] unfolding wg_inv_def inv_results_def by blast
  ultimately show "v = w" by metis
qed

text \<open>The states of a run in which one coroutine fetches and a second one waits for it.\<close>

lemma example_run: "\<exists>s. wg_reachable s \<and> st_phase s 0 = Fetching ''k'' 0 \<and> st_phase s 1 = Suspended 0"
proof -
  let ?wg = "\<lparr>wg_fetches = [new_pending_fetch], wg_pending = [(''k'', 0)]\<rparr>"
  let ?s1 = "\<lparr>st_wg = ?wg, st_phase = (\<lambda>_. Idle)(0 := Fetching ''k'' 0)\<rparr>"
  let ?s2 = "\<lparr>st_wg = ?wg, st_phase = (st_phase ?s1)(1 := Joined 0)\<rparr>"
  let ?wg3 = "\<lparr>wg_fetches = [new_pending_fetch\<lparr>pf_waiters := [1]\<rparr>], wg_pending = [(''k'', 0)]\<rparr>"
  let ?s3 = "\<lparr>st_wg = ?wg3, st_phase = (st_phase ?s2)(1 := Suspended 0)\<rparr>"
  have "wg_step wg_init ?s1"
    using wg_step.join [of wg_init 0 "''k''" ?wg True 0]
    by (simp add: wg_init_def new_wait_group_def try_join_def um_set_def um_find_def)
  moreover have "wg_step ?s1 ?s2"
    using wg_step.join [of ?s1 1 "''k''" ?wg False 0] by (simp add: try_join_def um_find_def)
  moreover have "wg_step ?s2 ?s3"
    using wg_step.suspend [of ?s2 1 0 ?wg3 True] by (simp add: await_suspend_def new_pending_fetch_def)
  ultimately have "wg_reachable ?s3" by (blast intro: wg_reachable.intros)
  then show ?thesis by (intro exI [of _ ?s3]) simp
qed

theorem wait_group_safe_witness:
  "\<exists>s :: wg_state. st_phase s 1 = Suspended 0 \<and>
     (\<exists>d. (\<exists>key. st_phase s d = Fetching key 0) \<or> (\<exists>v. st_phase s d = Publishing 0 v))"
proof -
  obtain s where "wg_reachable s" "st_phase s 1 = Suspended 0" using example_run by blast
  with wait_group_safe [OF this(1)] show ?thesis by blast
qed



end
