(* ===== verification/SlabAllocator.thy ===== *)
theory SlabAllocator
  imports Prelude
begin

text \<open>
  The slab allocator (\<open>src/src/storage/slab_allocator.h\<close> and \<open>slab_allocator.cpp\<close>).

  A pointer into the arena is its offset from the arena's base, and \<open>nullptr\<close> is \<open>None\<close>. The two
  \<open>mmap\<close> calls of the arena's constructor are arguments that say whether they succeed. Sizes are
  natural numbers: the code computes none that can exceed 64 bits.

  The interface the store relies on is the locale \<open>slot_allocator\<close>: an allocator state stands for a
  set of slots in use; allocation adds a slot, deallocation removes it, and slots in use lie in the
  arena and do not overlap. It is interpreted on the operations below.
\<close>

section \<open>Arena\<close>

datatype arena_error = Invalid_Argument | Mmap_Failed

record arena =
  ar_capacity :: nat
  ar_hugepage :: bool

definition new_arena :: "nat \<Rightarrow> bool \<Rightarrow> bool \<Rightarrow> arena_error + arena" where
  "new_arena capacity mmap_huge_ok mmap_ok =
     (if capacity = 0 then Inl Invalid_Argument
      else if mmap_huge_ok then Inr \<lparr>ar_capacity = capacity, ar_hugepage = True\<rparr>
      else if \<not> mmap_ok then Inl Mmap_Failed
      else Inr \<lparr>ar_capacity = capacity, ar_hugepage = False\<rparr>)"

section \<open>Size classes\<close>

definition kPageSize :: nat where "kPageSize = 2 ^ 20"
definition kMinSlotSize :: nat where "kMinSlotSize = 64"
definition kMaxSlotSize :: nat where "kMaxSlotSize = 2 ^ 20"
definition kNumClasses :: nat where "kNumClasses = 15"

lemmas slab_consts = kPageSize_def kMinSlotSize_def kMaxSlotSize_def kNumClasses_def

text \<open>\<open>std::bit_width\<close>, \<open>std::bit_ceil\<close> and \<open>std::countr_zero\<close> of \<open><bit>\<close>.\<close>

fun bit_width :: "nat \<Rightarrow> nat" where
  "bit_width n = (if n = 0 then 0 else 1 + bit_width (n div 2))"

declare bit_width.simps [simp del]

definition bit_ceil :: "nat \<Rightarrow> nat" where
  "bit_ceil n = (if n \<le> 1 then 1 else 2 ^ bit_width (n - 1))"

fun countr_zero :: "nat \<Rightarrow> nat" where
  "countr_zero n = (if n = 0 then 64 else if odd n then 0 else 1 + countr_zero (n div 2))"

declare countr_zero.simps [simp del]

definition class_for_size :: "nat \<Rightarrow> nat" where
  "class_for_size sz =
     (if sz \<le> kMinSlotSize then 0
      else if sz > kMaxSlotSize then kNumClasses
      else let power_of_2 = bit_ceil sz
           in countr_zero power_of_2 - countr_zero kMinSlotSize)"

definition slot_size_for_class :: "nat \<Rightarrow> nat" where
  "slot_size_for_class cls = kMinSlotSize * 2 ^ cls"

section \<open>Allocator\<close>

record size_class =
  sc_slot_size :: nat
  sc_free_slots :: "nat list"

record slab_allocator =
  sa_arena :: arena
  sa_classes :: "size_class list"
  sa_next_page :: nat

definition new_slab_allocator :: "nat \<Rightarrow> bool \<Rightarrow> bool \<Rightarrow> arena_error + slab_allocator" where
  "new_slab_allocator total_size mmap_huge_ok mmap_ok =
     (case new_arena total_size mmap_huge_ok mmap_ok of
        Inl e \<Rightarrow> Inl e
      | Inr ar \<Rightarrow> Inr \<lparr>sa_arena = ar,
          sa_classes = map (\<lambda>i. \<lparr>sc_slot_size = kMinSlotSize * 2 ^ i, sc_free_slots = []\<rparr>) [0..<kNumClasses],
          sa_next_page = 0\<rparr>)"

definition pages_total :: "slab_allocator \<Rightarrow> nat" where
  "pages_total sa = ar_capacity (sa_arena sa) div kPageSize"

definition pages_used :: "slab_allocator \<Rightarrow> nat" where
  "pages_used sa = sa_next_page sa"

definition assign_page :: "slab_allocator \<Rightarrow> nat \<Rightarrow> slab_allocator" where
  "assign_page sa cls =
     (if sa_next_page sa \<ge> pages_total sa then sa
      else
        let page_base = sa_next_page sa * kPageSize;
            sc = sa_classes sa ! cls;
            slots_per_page = kPageSize div sc_slot_size sc;
            free_list = sc_free_slots sc @ map (\<lambda>i. page_base + i * sc_slot_size sc) [0..<slots_per_page]
        in sa\<lparr>sa_next_page := sa_next_page sa + 1,
              sa_classes := (sa_classes sa)[cls := sc\<lparr>sc_free_slots := free_list\<rparr>]\<rparr>)"

definition allocate :: "slab_allocator \<Rightarrow> nat \<Rightarrow> slab_allocator \<times> nat option" where
  "allocate sa sz =
     (let cls = class_for_size sz
      in if cls \<ge> kNumClasses then (sa, None)
         else
           let sa = (if sc_free_slots (sa_classes sa ! cls) = [] then assign_page sa cls else sa);
               sc = sa_classes sa ! cls
           in if sc_free_slots sc = [] then (sa, None)
              else (sa\<lparr>sa_classes := (sa_classes sa)[cls := sc\<lparr>sc_free_slots := butlast (sc_free_slots sc)\<rparr>]\<rparr>,
                    Some (last (sc_free_slots sc))))"

definition deallocate :: "slab_allocator \<Rightarrow> nat option \<Rightarrow> nat \<Rightarrow> slab_allocator" where
  "deallocate sa ptr sz =
     (let cls = class_for_size sz
      in case ptr of
           None \<Rightarrow> sa
         | Some p \<Rightarrow>
             if cls \<ge> kNumClasses then sa
             else let sc = sa_classes sa ! cls
                  in sa\<lparr>sa_classes := (sa_classes sa)[cls := sc\<lparr>sc_free_slots := sc_free_slots sc @ [p]\<rparr>]\<rparr>)"

section \<open>Size classes are the tightest fit\<close>

lemma bit_width_bounds: "0 < n \<Longrightarrow> 2 ^ (bit_width n - 1) \<le> n \<and> n < 2 ^ bit_width n \<and> 0 < bit_width n"
proof (induction n rule: bit_width.induct)
  case (1 n)
  show ?case
  proof (cases "n div 2 = 0")
    case True
    with "1.prems" have "n = 1" by auto
    then show ?thesis by (simp add: bit_width.simps [of "Suc 0"] bit_width.simps [of 0])
  next
    case False
    with "1" have ih: "2 ^ (bit_width (n div 2) - 1) \<le> n div 2" "n div 2 < 2 ^ bit_width (n div 2)"
      "0 < bit_width (n div 2)" by auto
    have "2 ^ bit_width (n div 2) = (2::nat) * 2 ^ (bit_width (n div 2) - 1)"
      using ih(3) by (simp flip: power_Suc)
    moreover have "n = 2 * (n div 2) + n mod 2" "n mod 2 < 2" by simp_all
    ultimately show ?thesis using ih "1.prems" by (simp add: bit_width.simps [of n]) linarith
  qed
qed

lemma countr_zero_power: "countr_zero (2 ^ k) = k"
  by (induction k) (simp_all add: countr_zero.simps [of "Suc 0"] countr_zero.simps [of "2 * _"])

lemma power_2_sandwich:
  assumes "2 ^ (a - 1) < (n::nat)" "n \<le> 2 ^ a" and "n \<le> 2 ^ b"
  shows "a \<le> b"
proof (rule ccontr)
  assume "\<not> a \<le> b"
  then have "b \<le> a - 1" by simp
  then have "(2::nat) ^ b \<le> 2 ^ (a - 1)" by (intro power_increasing) simp_all
  with assms show False by linarith
qed

lemma bit_ceil_bounds:
  assumes "1 < n"
  shows "2 ^ (bit_width (n - 1) - 1) < n \<and> n \<le> 2 ^ bit_width (n - 1) \<and> 0 < bit_width (n - 1)"
  using bit_width_bounds [of "n - 1"] assms by (auto simp: Suc_le_eq le_diff_conv)

lemma class_for_size_medium:
  assumes "kMinSlotSize < sz" and "sz \<le> kMaxSlotSize"
  shows "class_for_size sz = bit_width (sz - 1) - 6 \<and> 6 < bit_width (sz - 1) \<and> bit_width (sz - 1) \<le> 20"
proof -
  let ?w = "bit_width (sz - 1)"
  from assms(1) have gt1: "1 < sz" by (simp add: slab_consts)
  note b = bit_ceil_bounds [OF gt1]
  have "6 < ?w"
  proof (rule ccontr)
    assume "\<not> 6 < ?w"
    then have "(2::nat) ^ ?w \<le> 2 ^ 6" by (intro power_increasing) simp_all
    with b assms(1) show False by (simp add: slab_consts)
  qed
  moreover have "?w \<le> 20" by (rule power_2_sandwich [of _ sz]) (use b assms(2) in \<open>simp_all add: slab_consts\<close>)
  moreover have "countr_zero 64 = 6" using countr_zero_power [of 6] by simp
  moreover have "class_for_size sz = countr_zero (2 ^ ?w) - countr_zero 64"
    using assms gt1 by (simp add: class_for_size_def bit_ceil_def slab_consts)
  ultimately show ?thesis by (simp add: countr_zero_power)
qed

lemma class_for_size_less: "class_for_size sz < kNumClasses \<longleftrightarrow> sz \<le> kMaxSlotSize"
proof (cases "kMinSlotSize < sz \<and> sz \<le> kMaxSlotSize")
  case True
  then show ?thesis using class_for_size_medium [of sz] by (auto simp: kNumClasses_def)
next
  case False
  then show ?thesis by (auto simp: class_for_size_def slab_consts)
qed

lemma class_for_size_fits:
  assumes "sz \<le> kMaxSlotSize"
  shows "sz \<le> slot_size_for_class (class_for_size sz)"
    and "c < class_for_size sz \<Longrightarrow> slot_size_for_class c < sz"
proof -
  consider "sz \<le> kMinSlotSize" | "kMinSlotSize < sz" by linarith
  then have "sz \<le> slot_size_for_class (class_for_size sz) \<and>
      (c < class_for_size sz \<longrightarrow> slot_size_for_class c < sz)"
  proof cases
    case 1
    then show ?thesis by (simp add: class_for_size_def slot_size_for_class_def)
  next
    case 2
    let ?w = "bit_width (sz - 1)"
    note w = class_for_size_medium [OF 2 assms]
    have "kMinSlotSize * 2 ^ (?w - 6) = 2 ^ ?w"
      using w by (simp add: kMinSlotSize_def power_add [of "2::nat" 6 "?w - 6", simplified, symmetric])
    moreover have "kMinSlotSize * 2 ^ c \<le> 2 ^ (?w - 1)" if "c < ?w - 6"
    proof -
      have "kMinSlotSize * 2 ^ c = 2 ^ (6 + c)" by (simp add: kMinSlotSize_def power_add)
      also have "\<dots> \<le> 2 ^ (?w - 1)" using that by (intro power_increasing) simp_all
      finally show ?thesis .
    qed
    ultimately show ?thesis
      using w bit_ceil_bounds [of sz] 2 by (fastforce simp: slot_size_for_class_def slab_consts)
  qed
  then show "sz \<le> slot_size_for_class (class_for_size sz)"
    and "c < class_for_size sz \<Longrightarrow> slot_size_for_class c < sz" by blast+
qed

section \<open>Slots\<close>

text \<open>
  Ghost state of the invariant: the class each used page was given, and the slots handed out and
  not returned, as pairs of pointer and class.
\<close>

type_synonym slot = "nat \<times> nat"

definition page_slots :: "nat list \<Rightarrow> slot set" where
  "page_slots pcs = {(i * kPageSize + j * slot_size_for_class (pcs ! i), pcs ! i) | i j.
     i < length pcs \<and> j < kPageSize div slot_size_for_class (pcs ! i)}"

definition free_set :: "slab_allocator \<Rightarrow> slot set" where
  "free_set sa = {(p, c). c < kNumClasses \<and> p \<in> set (sc_free_slots (sa_classes sa ! c))}"

definition sa_inv :: "slab_allocator \<Rightarrow> nat list \<Rightarrow> slot set \<Rightarrow> bool" where
  "sa_inv sa pcs used \<longleftrightarrow>
     length (sa_classes sa) = kNumClasses \<and>
     (\<forall>c < kNumClasses. sc_slot_size (sa_classes sa ! c) = slot_size_for_class c \<and>
                        distinct (sc_free_slots (sa_classes sa ! c))) \<and>
     length pcs = sa_next_page sa \<and> sa_next_page sa \<le> pages_total sa \<and> (\<forall>c \<in> set pcs. c < kNumClasses) \<and>
     free_set sa \<inter> used = {} \<and> free_set sa \<union> used = page_slots pcs"

definition sa_ok :: "slab_allocator \<Rightarrow> slot set \<Rightarrow> bool" where
  "sa_ok sa used \<longleftrightarrow> (\<exists>pcs. sa_inv sa pcs used)"

definition slot_extent :: "slot \<Rightarrow> nat set" where
  "slot_extent s = {fst s ..< fst s + slot_size_for_class (snd s)}"

lemma slot_size_pos [simp]: "0 < slot_size_for_class c"
  by (simp add: slot_size_for_class_def kMinSlotSize_def)

lemma slot_size_neq_0 [simp]: "slot_size_for_class c \<noteq> 0"
  by (simp add: slot_size_for_class_def kMinSlotSize_def)

lemma slot_size_dvd: "c < kNumClasses \<Longrightarrow> slot_size_for_class c dvd kPageSize"
proof -
  assume "c < kNumClasses"
  then have "(2::nat) ^ (6 + c) dvd 2 ^ 20" by (intro le_imp_power_dvd) (simp add: kNumClasses_def)
  then show ?thesis by (simp add: slot_size_for_class_def slab_consts power_add)
qed

lemma page_slots_snoc:
  "page_slots (pcs @ [c]) =
     page_slots pcs \<union> {(length pcs * kPageSize + j * slot_size_for_class c, c) | j. j < kPageSize div slot_size_for_class c}"
proof -
  have "s \<in> page_slots (pcs @ [c]) \<longleftrightarrow> s \<in> page_slots pcs \<union>
      {(length pcs * kPageSize + j * slot_size_for_class c, c) | j. j < kPageSize div slot_size_for_class c}" for s
    unfolding page_slots_def by (auto simp: nth_append less_Suc_eq)
  then show ?thesis by blast
qed

lemma slot_in_page:
  assumes "j < kPageSize div slot_size_for_class c" and "c < kNumClasses"
  shows "j * slot_size_for_class c + slot_size_for_class c \<le> kPageSize"
proof -
  from slot_size_dvd [OF assms(2)] obtain q where q: "kPageSize = slot_size_for_class c * q" by auto
  then have "kPageSize div slot_size_for_class c = q" by (metis nonzero_mult_div_cancel_left slot_size_neq_0)
  with assms(1) have "Suc j \<le> q" by simp
  then have "Suc j * slot_size_for_class c \<le> q * slot_size_for_class c" by (rule mult_le_mono1)
  with q show ?thesis by (simp add: mult.commute)
qed

lemma page_of_extent:
  assumes "x \<in> slot_extent (i * kPageSize + j * slot_size_for_class c, c)"
    and "j < kPageSize div slot_size_for_class c" and "c < kNumClasses"
  shows "x div kPageSize = i \<and> (x mod kPageSize) div slot_size_for_class c = j"
proof -
  let ?s = "slot_size_for_class c"
  obtain r where r: "r < ?s" and x: "x = i * kPageSize + (j * ?s + r)"
    using assms(1) by (auto simp: slot_extent_def) (metis add.assoc add_less_cancel_left le_Suc_ex)
  have lt: "j * ?s + r < kPageSize" using slot_in_page [OF assms(2,3)] r by linarith
  have "x div kPageSize = i" and "x mod kPageSize = j * ?s + r" using lt unfolding x by simp_all
  moreover have "(j * ?s + r) div ?s = j" using r by simp
  ultimately show ?thesis by simp
qed

lemma page_slots_disjoint:
  assumes "\<forall>c \<in> set pcs. c < kNumClasses" and "s \<in> page_slots pcs" and "t \<in> page_slots pcs" and "s \<noteq> t"
  shows "slot_extent s \<inter> slot_extent t = {}"
proof (rule ccontr)
  assume "slot_extent s \<inter> slot_extent t \<noteq> {}"
  then obtain x where x: "x \<in> slot_extent s" "x \<in> slot_extent t" by blast
  from assms(2) obtain i j where s: "s = (i * kPageSize + j * slot_size_for_class (pcs ! i), pcs ! i)"
    and i: "i < length pcs" "j < kPageSize div slot_size_for_class (pcs ! i)" by (auto simp: page_slots_def)
  from assms(3) obtain i' j' where t: "t = (i' * kPageSize + j' * slot_size_for_class (pcs ! i'), pcs ! i')"
    and i': "i' < length pcs" "j' < kPageSize div slot_size_for_class (pcs ! i')" by (auto simp: page_slots_def)
  have "pcs ! i < kNumClasses" "pcs ! i' < kNumClasses" using assms(1) i(1) i'(1) by simp_all
  note p = page_of_extent [OF x(1) [unfolded s] i(2) this(1)]
    and p' = page_of_extent [OF x(2) [unfolded t] i'(2) this(2)]
  from p p' have "i = i'" by simp
  with p p' have "j = j'" by simp
  with \<open>i = i'\<close> s t assms(4) show False by simp
qed

lemma page_slots_in_pages:
  assumes "\<forall>c \<in> set pcs. c < kNumClasses" and "s \<in> page_slots pcs"
  shows "slot_extent s \<subseteq> {..< length pcs * kPageSize}" and "snd s < kNumClasses"
proof -
  from assms(2) obtain i j where s: "s = (i * kPageSize + j * slot_size_for_class (pcs ! i), pcs ! i)"
    and i: "i < length pcs" "j < kPageSize div slot_size_for_class (pcs ! i)" by (auto simp: page_slots_def)
  have c: "pcs ! i < kNumClasses" using assms(1) i(1) by simp
  have "Suc i * kPageSize \<le> length pcs * kPageSize" using i(1) by (intro mult_le_mono1) simp
  with slot_in_page [OF i(2) c] show "slot_extent s \<subseteq> {..< length pcs * kPageSize}"
    by (auto simp: slot_extent_def s)
  show "snd s < kNumClasses" using c s by simp
qed

section \<open>The allocator's contract\<close>

text \<open>
  What a client may rely on: \<open>ok a U\<close> says that allocator state \<open>a\<close> has handed out exactly the slots
  \<open>U\<close>.
\<close>

locale slot_allocator =
  fixes alloc :: "'a \<Rightarrow> nat \<Rightarrow> 'a \<times> nat option"
    and dealloc :: "'a \<Rightarrow> nat option \<Rightarrow> nat \<Rightarrow> 'a"
    and ok :: "'a \<Rightarrow> slot set \<Rightarrow> bool"
    and limit :: "'a \<Rightarrow> nat"
  assumes alloc_Some: "ok a U \<Longrightarrow> alloc a n = (a', Some p) \<Longrightarrow>
      n \<le> kMaxSlotSize \<and> (p, class_for_size n) \<notin> U \<and> ok a' (insert (p, class_for_size n) U)"
    and alloc_None: "ok a U \<Longrightarrow> alloc a n = (a', None) \<Longrightarrow> ok a' U"
    and alloc_too_large: "kMaxSlotSize < n \<Longrightarrow> alloc a n = (a, None)"
    and dealloc_ok: "ok a U \<Longrightarrow> (p, class_for_size n) \<in> U \<Longrightarrow> ok (dealloc a (Some p) n) (U - {(p, class_for_size n)})"
    and extents_disjoint: "ok a U \<Longrightarrow> s \<in> U \<Longrightarrow> t \<in> U \<Longrightarrow> s \<noteq> t \<Longrightarrow> slot_extent s \<inter> slot_extent t = {}"
    and extents_bounded: "ok a U \<Longrightarrow> s \<in> U \<Longrightarrow> slot_extent s \<subseteq> {..< limit a}"
    and limit_const: "limit (fst (alloc a n)) = limit a" "limit (dealloc a q n) = limit a"
begin

lemma used_pointers_distinct:
  assumes "ok a U" and "(p, c) \<in> U" and "(p, c') \<in> U"
  shows "c = c'"
proof (rule ccontr)
  assume "c \<noteq> c'"
  then have "slot_extent (p, c) \<inter> slot_extent (p, c') = {}" using extents_disjoint [OF assms] by auto
  moreover have "p \<in> slot_extent (p, c) \<inter> slot_extent (p, c')" by (simp add: slot_extent_def)
  ultimately show False by blast
qed

lemma alloc_fresh:
  assumes "ok a U" and "alloc a n = (a', Some p)" and "s \<in> U" and "x < n"
  shows "p + x \<notin> slot_extent s" and "p + x < limit a"
proof -
  let ?s = "(p, class_for_size n)"
  from alloc_Some [OF assms(1,2)] have n: "n \<le> kMaxSlotSize" and new: "?s \<notin> U" and ok': "ok a' (insert ?s U)" by auto
  have px: "p + x \<in> slot_extent ?s" using class_for_size_fits(1) [OF n] assms(4) by (simp add: slot_extent_def)
  have "s \<noteq> ?s" using new assms(3) by auto
  then have "slot_extent s \<inter> slot_extent ?s = {}" using extents_disjoint [OF ok', of s ?s] assms(3) by simp
  with px show "p + x \<notin> slot_extent s" by blast
  have "slot_extent ?s \<subseteq> {..< limit a'}" using extents_bounded [OF ok'] by simp
  moreover have "limit a' = limit a" using limit_const(1) [of a n] assms(2) by simp
  ultimately show "p + x < limit a" using px by auto
qed

end

lemma free_set_update:
  assumes "length (sa_classes sa) = kNumClasses" and "cls < kNumClasses"
  shows "free_set (sa\<lparr>sa_classes := (sa_classes sa)[cls := sc]\<rparr>) =
    {(p, c) \<in> free_set sa. c \<noteq> cls} \<union> {(p, cls) | p. p \<in> set (sc_free_slots sc)}"
  using assms by (auto simp: free_set_def nth_list_update)

lemma assign_page_inv:
  assumes inv: "sa_inv sa pcs used" and cls: "cls < kNumClasses" and page: "sa_next_page sa < pages_total sa"
  shows "sa_inv (assign_page sa cls) (pcs @ [cls]) used"
proof -
  let ?sc = "sa_classes sa ! cls" and ?s = "slot_size_for_class cls"
  let ?new = "map (\<lambda>i. sa_next_page sa * kPageSize + i * ?s) [0..<kPageSize div ?s]"
  let ?sc' = "?sc\<lparr>sc_free_slots := sc_free_slots ?sc @ ?new\<rparr>"
  let ?slots = "{(p, cls) | p. p \<in> set ?new}"
  have s: "sc_slot_size ?sc = ?s" and len: "length (sa_classes sa) = kNumClasses" "length pcs = sa_next_page sa"
    and pcs: "\<forall>c \<in> set pcs. c < kNumClasses" and un: "free_set sa \<inter> used = {}" "free_set sa \<union> used = page_slots pcs"
    and d: "distinct (sc_free_slots ?sc)"
    using inv cls by (auto simp: sa_inv_def)
  have sa': "assign_page sa cls = sa\<lparr>sa_next_page := sa_next_page sa + 1, sa_classes := (sa_classes sa)[cls := ?sc']\<rparr>"
    using page by (simp add: assign_page_def Let_def s)
  have slots: "page_slots (pcs @ [cls]) = page_slots pcs \<union> ?slots"
    by (auto simp: page_slots_snoc len)
  have fresh: "page_slots pcs \<inter> ?slots = {}"
  proof -
    have "fst s < length pcs * kPageSize" if "s \<in> page_slots pcs" for s
      using page_slots_in_pages(1) [OF pcs that] slot_size_pos [of "snd s"] by (fastforce simp: slot_extent_def)
    then show ?thesis by (fastforce simp: len)
  qed
  have free: "free_set (assign_page sa cls) = free_set sa \<union> ?slots"
    using cls len(1) by (auto simp: sa' free_set_def nth_list_update)
  have "distinct (sc_free_slots ?sc @ ?new)"
    using d fresh un(2) cls by (fastforce simp: distinct_map inj_on_def free_set_def)
  then show ?thesis
    using inv cls page pcs un fresh free slots
    by (auto simp: sa_inv_def sa' nth_list_update pages_total_def)
qed

definition set_free :: "slab_allocator \<Rightarrow> nat \<Rightarrow> nat list \<Rightarrow> slab_allocator" where
  "set_free sa cls fl = sa\<lparr>sa_classes := (sa_classes sa)[cls := (sa_classes sa ! cls)\<lparr>sc_free_slots := fl\<rparr>]\<rparr>"

lemma set_free_inv:
  assumes inv: "sa_inv sa pcs used" and cls: "cls < kNumClasses" and "distinct fl"
    and "used' \<inter> {(p, c) \<in> free_set sa. c \<noteq> cls} = {}"
    and "used' \<inter> {(p, cls) | p. p \<in> set fl} = {}"
    and "{(p, c) \<in> free_set sa. c \<noteq> cls} \<union> {(p, cls) | p. p \<in> set fl} \<union> used' = page_slots pcs"
  shows "sa_inv (set_free sa cls fl) pcs used'"
proof -
  have "free_set (set_free sa cls fl) = {(p, c) \<in> free_set sa. c \<noteq> cls} \<union> {(p, cls) | p. p \<in> set fl}"
    using inv cls by (simp add: set_free_def free_set_update sa_inv_def)
  then show ?thesis
    using assms unfolding sa_inv_def
    by (auto simp: set_free_def nth_list_update pages_total_def)
qed

lemma pop_inv:
  assumes inv: "sa_inv sa pcs used" and cls: "cls < kNumClasses" and fl: "sc_free_slots (sa_classes sa ! cls) = fl @ [p]"
  shows "(p, cls) \<notin> used \<and> sa_inv (set_free sa cls fl) pcs (insert (p, cls) used)"
proof -
  have d: "distinct (fl @ [p])" using inv cls fl by (auto simp: sa_inv_def simp flip: fl)
  have free: "(q, cls) \<in> free_set sa \<longleftrightarrow> q \<in> set fl \<or> q = p" for q
    using cls fl by (auto simp: free_set_def)
  have un: "free_set sa \<inter> used = {}" "free_set sa \<union> used = page_slots pcs" using inv by (auto simp: sa_inv_def)
  have "(p, cls) \<notin> used" using un(1) free by blast
  moreover have "sa_inv (set_free sa cls fl) pcs (insert (p, cls) used)"
  proof (rule set_free_inv [OF inv cls])
    show "{(p, c) \<in> free_set sa. c \<noteq> cls} \<union> {(p, cls) |p. p \<in> set fl} \<union> insert (p, cls) used = page_slots pcs"
      using free un(2) by auto
  qed (use d un(1) free in auto)
  ultimately show ?thesis by blast
qed

lemma push_inv:
  assumes inv: "sa_inv sa pcs used" and mem: "(p, cls) \<in> used"
  shows "cls < kNumClasses \<and> sa_inv (set_free sa cls (sc_free_slots (sa_classes sa ! cls) @ [p])) pcs (used - {(p, cls)})"
proof -
  let ?fl = "sc_free_slots (sa_classes sa ! cls)"
  have un: "free_set sa \<inter> used = {}" "free_set sa \<union> used = page_slots pcs" and "\<forall>c \<in> set pcs. c < kNumClasses"
    using inv by (auto simp: sa_inv_def)
  then have cls: "cls < kNumClasses" using page_slots_in_pages(2) [of pcs "(p, cls)"] mem by auto
  have free: "(q, cls) \<in> free_set sa \<longleftrightarrow> q \<in> set ?fl" for q using cls by (auto simp: free_set_def)
  have "p \<notin> set ?fl" using free mem un(1) by blast
  have "sa_inv (set_free sa cls (?fl @ [p])) pcs (used - {(p, cls)})"
  proof (rule set_free_inv [OF inv cls])
    show "distinct (?fl @ [p])" using inv cls \<open>p \<notin> set ?fl\<close> by (auto simp: sa_inv_def)
    show "{(p, c) \<in> free_set sa. c \<noteq> cls} \<union> {(q, cls) |q. q \<in> set (?fl @ [p])} \<union> (used - {(p, cls)}) = page_slots pcs"
      using free un(2) mem by auto
  qed (use un(1) free in auto)
  with cls show ?thesis by blast
qed

text \<open>\<open>allocate\<close> with the refill of an empty class done first.\<close>

definition refill :: "slab_allocator \<Rightarrow> nat \<Rightarrow> slab_allocator" where
  "refill sa cls = (if sc_free_slots (sa_classes sa ! cls) = [] then assign_page sa cls else sa)"

lemma refill_inv:
  assumes "sa_inv sa pcs used" and "cls < kNumClasses"
  shows "\<exists>pcs'. sa_inv (refill sa cls) pcs' used"
proof (cases "sc_free_slots (sa_classes sa ! cls) = [] \<and> sa_next_page sa < pages_total sa")
  case True
  then show ?thesis using assign_page_inv [OF assms] by (auto simp: refill_def)
next
  case False
  then have "refill sa cls = sa" by (auto simp: refill_def assign_page_def)
  with assms show ?thesis by auto
qed

lemma allocate_eq:
  "allocate sa n =
     (let cls = class_for_size n; sa' = refill sa cls; fl = sc_free_slots (sa_classes sa' ! cls)
      in if kMaxSlotSize < n then (sa, None)
         else if fl = [] then (sa', None) else (set_free sa' cls (butlast fl), Some (last fl)))"
  using class_for_size_less [of n] by (auto simp: allocate_def refill_def set_free_def Let_def)

lemma deallocate_eq:
  "deallocate sa (Some p) n =
     (if kMaxSlotSize < n then sa
      else set_free sa (class_for_size n) (sc_free_slots (sa_classes sa ! class_for_size n) @ [p]))"
  using class_for_size_less [of n] by (auto simp: deallocate_def set_free_def Let_def)

lemma allocate_Some:
  assumes "sa_ok sa used" and "allocate sa n = (sa', Some p)"
  shows "n \<le> kMaxSlotSize \<and> (p, class_for_size n) \<notin> used \<and> sa_ok sa' (insert (p, class_for_size n) used)"
proof -
  let ?c = "class_for_size n" and ?sa = "refill sa (class_for_size n)"
  let ?fl = "sc_free_slots (sa_classes ?sa ! ?c)"
  from assms(2) have n: "n \<le> kMaxSlotSize" and ne: "?fl \<noteq> []" and sa': "sa' = set_free ?sa ?c (butlast ?fl)" "p = last ?fl"
    by (auto simp: allocate_eq Let_def split: if_splits)
  have c: "?c < kNumClasses" using n by (simp add: class_for_size_less)
  obtain pcs where "sa_inv ?sa pcs used" using assms(1) refill_inv [OF _ c] unfolding sa_ok_def by blast
  from pop_inv [OF this c, of "butlast ?fl" "last ?fl"] n ne sa' show ?thesis by (auto simp: sa_ok_def)
qed

lemma allocate_None:
  assumes "sa_ok sa used" and "allocate sa n = (sa', None)"
  shows "sa_ok sa' used"
  using assms refill_inv [of sa _ used "class_for_size n"] class_for_size_less [of n]
  by (auto simp: allocate_eq sa_ok_def Let_def split: if_splits)

lemma deallocate_ok:
  assumes "sa_ok sa used" and "(p, class_for_size n) \<in> used"
  shows "sa_ok (deallocate sa (Some p) n) (used - {(p, class_for_size n)})"
  using assms push_inv [of sa _ used p "class_for_size n"] class_for_size_less [of n]
  by (auto simp: sa_ok_def deallocate_eq)

lemma arena_const [simp]:
  "sa_arena (fst (allocate sa n)) = sa_arena sa" "sa_arena (deallocate sa q n) = sa_arena sa"
  by (auto simp: allocate_eq refill_def assign_page_def set_free_def deallocate_def Let_def split: option.split)

lemma used_slots_bounded:
  assumes "sa_ok sa used" and "s \<in> used"
  shows "slot_extent s \<subseteq> {..< ar_capacity (sa_arena sa)}"
proof -
  from assms obtain pcs where "s \<in> page_slots pcs" "\<forall>c \<in> set pcs. c < kNumClasses" and
    len: "length pcs \<le> ar_capacity (sa_arena sa) div kPageSize"
    by (auto simp: sa_ok_def sa_inv_def pages_total_def)
  then have "slot_extent s \<subseteq> {..< length pcs * kPageSize}" using page_slots_in_pages(1) by blast
  moreover have "length pcs * kPageSize \<le> ar_capacity (sa_arena sa)"
    using mult_le_mono1 [OF len, of kPageSize] by (metis div_times_less_eq_dividend le_trans)
  ultimately show ?thesis by fastforce
qed

lemma used_slots_disjoint:
  assumes "sa_ok sa used" and "s \<in> used" and "t \<in> used" and "s \<noteq> t"
  shows "slot_extent s \<inter> slot_extent t = {}"
proof -
  from assms(1) obtain pcs where "used \<subseteq> page_slots pcs" "\<forall>c \<in> set pcs. c < kNumClasses"
    unfolding sa_ok_def sa_inv_def by (metis Un_upper2)
  with assms(2-4) page_slots_disjoint show ?thesis by blast
qed

interpretation slab: slot_allocator allocate deallocate sa_ok "\<lambda>sa. ar_capacity (sa_arena sa)"
proof (unfold_locales, goal_cases)
  case 3
  then show ?case by (simp add: allocate_eq Let_def)
qed (auto intro: allocate_None deallocate_ok dest: allocate_Some used_slots_disjoint used_slots_bounded)

lemma new_slab_allocator_ok: "new_slab_allocator cap huge ok = Inr sa \<Longrightarrow> sa_ok sa {}"
  by (auto simp: new_slab_allocator_def sa_ok_def sa_inv_def free_set_def page_slots_def slot_size_for_class_def
      split: sum.splits intro!: exI [of _ "[]"])

lemma allocate_None_iff:
  assumes "sa_ok sa used"
  shows "snd (allocate sa n) = None \<longleftrightarrow>
    kMaxSlotSize < n \<or>
    (sc_free_slots (sa_classes sa ! class_for_size n) = [] \<and> pages_total sa \<le> sa_next_page sa)"
proof -
  let ?c = "class_for_size n"
  from assms obtain pcs where inv: "sa_inv sa pcs used" by (auto simp: sa_ok_def)
  have "sc_free_slots (sa_classes (assign_page sa ?c) ! ?c) \<noteq> []" if "?c < kNumClasses" "sa_next_page sa < pages_total sa"
  proof -
    have "0 < kPageSize div slot_size_for_class ?c"
      using slot_size_dvd [OF that(1)] by (auto simp: kPageSize_def dvd_imp_le div_greater_zero_iff)
    then show ?thesis using that inv by (simp add: assign_page_def Let_def sa_inv_def)
  qed
  then show ?thesis
    using class_for_size_less [of n]
    by (auto simp: allocate_eq Let_def refill_def assign_page_def not_le not_less split: if_splits)
qed

section \<open>Histories of the allocator\<close>

text \<open>
  The states a client reaches that returns only slots it holds, with a size of the class they were
  requested for.
\<close>

inductive slab_reachable :: "slab_allocator \<Rightarrow> slot set \<Rightarrow> bool" where
  start: "new_slab_allocator cap huge ok = Inr sa \<Longrightarrow> slab_reachable sa {}"
| alloc: "slab_reachable sa used \<Longrightarrow> allocate sa n = (sa', Some p) \<Longrightarrow>
    slab_reachable sa' (insert (p, class_for_size n) used)"
| alloc_fails: "slab_reachable sa used \<Longrightarrow> allocate sa n = (sa', None) \<Longrightarrow> slab_reachable sa' used"
| dealloc: "slab_reachable sa used \<Longrightarrow> (p, class_for_size n) \<in> used \<Longrightarrow>
    slab_reachable (deallocate sa (Some p) n) (used - {(p, class_for_size n)})"

lemma slab_reachable_ok: "slab_reachable sa used \<Longrightarrow> sa_ok sa used"
  by (induction rule: slab_reachable.induct)
    (auto dest: new_slab_allocator_ok allocate_Some allocate_None intro: deallocate_ok)

lemma slab_example: "\<exists>sa p. slab_reachable sa {(p, class_for_size (2 ^ 20))}"
proof -
  obtain sa where sa: "new_slab_allocator (2 ^ 20) False True = Inr sa"
    by (simp add: new_slab_allocator_def new_arena_def)
  then have r: "slab_reachable sa {}" by (rule slab_reachable.start)
  have "snd (allocate sa (2 ^ 20)) \<noteq> None"
    using allocate_None_iff [OF slab_reachable_ok [OF r]] sa
    by (auto simp: kMaxSlotSize_def kPageSize_def pages_total_def new_slab_allocator_def new_arena_def)
  then obtain sa' p where "allocate sa (2 ^ 20) = (sa', Some p)" by (cases "allocate sa (2 ^ 20)") auto
  with r have "slab_reachable sa' {(p, class_for_size (2 ^ 20))}" by (rule slab_reachable.alloc)
  then show ?thesis by blast
qed

section \<open>Properties\<close>

text \<open>
  \<open>class_for_size\<close> picks the tightest size class: its slots hold the request, those of every
  smaller class do not; requests above 1 MB, and only those, get the marker \<open>kNumClasses\<close>.
\<close>
theorem class_for_size_tightest:
  "(class_for_size n = kNumClasses \<longleftrightarrow> kMaxSlotSize < n) \<and>
   (n \<le> kMaxSlotSize \<longrightarrow>
      class_for_size n < kNumClasses \<and> n \<le> slot_size_for_class (class_for_size n) \<and>
      (\<forall>c. c < class_for_size n \<longrightarrow> slot_size_for_class c < n))"
proof -
  have "class_for_size n = kNumClasses" if "kMaxSlotSize < n"
    using that by (simp add: class_for_size_def slab_consts)
  then show ?thesis using class_for_size_less [of n] class_for_size_fits [of n] by fastforce
qed

theorem class_for_size_tightest_witness:
  "(1000 :: nat) \<le> kMaxSlotSize \<and> class_for_size 1000 = 4 \<and> 1000 \<le> slot_size_for_class (class_for_size 1000)"
proof -
  have "bit_width 999 = 10" by (simp add: bit_width.simps)
  moreover have "countr_zero 1024 = 10" "countr_zero 64 = 6"
    using countr_zero_power [of 10] countr_zero_power [of 6] by simp_all
  ultimately have "class_for_size 1000 = 4" by (simp add: class_for_size_def bit_ceil_def slab_consts)
  then show ?thesis using class_for_size_tightest [of 1000] by (simp add: slab_consts)
qed



text \<open>
  No slot leaks: free slots and slots in use together are the slots of the assigned pages, so
  returning a slot makes the next request of its class succeed with that same slot, and leaves
  the allocator as it was before.
\<close>
theorem slab_reuse:
  assumes "slab_reachable sa used" and "(p, class_for_size n) \<in> used"
  shows "allocate (deallocate sa (Some p) n) n = (sa, Some p) \<and>
    (\<exists>pcs. length pcs = pages_used sa \<and> free_set sa \<union> used = page_slots pcs)"
proof -
  from slab_reachable_ok [OF assms(1)] obtain pcs where inv: "sa_inv sa pcs used" by (auto simp: sa_ok_def)
  let ?c = "class_for_size n" and ?fl = "sc_free_slots (sa_classes sa ! class_for_size n)"
  have c: "?c < kNumClasses" using push_inv [OF inv assms(2)] by blast
  have len: "length (sa_classes sa) = kNumClasses" using inv by (simp add: sa_inv_def)
  have "sa_classes (set_free sa ?c (?fl @ [p])) ! ?c = (sa_classes sa ! ?c)\<lparr>sc_free_slots := ?fl @ [p]\<rparr>"
    using c len by (simp add: set_free_def)
  moreover have "set_free (set_free sa ?c (?fl @ [p])) ?c ?fl = sa"
    using c len by (simp add: set_free_def)
  ultimately have "allocate (deallocate sa (Some p) n) n = (sa, Some p)"
    using c class_for_size_less [of n] by (simp add: deallocate_eq allocate_eq refill_def Let_def)
  with inv show ?thesis by (auto simp: sa_inv_def pages_used_def)
qed

theorem slab_reuse_witness:
  "\<exists>sa p. allocate (deallocate sa (Some p) (2 ^ 20)) (2 ^ 20) = (sa, Some p)"
proof -
  obtain sa p where "slab_reachable sa {(p, class_for_size (2 ^ 20))}" using slab_example by blast
  from slab_reuse [OF this] show ?thesis by blast
qed

end
