(* ===== verification/SlabEntry.thy ===== *)
theory SlabEntry
  imports Prelude
begin

text \<open>
  Entries in arena memory (\<open>src/src/storage/slab_entry.h\<close>).

  Memory is a function from arena offsets to bytes, and an entry is the offset of its header: 4 bytes
  key size, 4 bytes value size, the access bit, 7 reserved bytes, then key and value. \<open>entry_at\<close>
  says that a well-formed entry for a key and a value stands at an offset, whatever its access bit;
  reads and writes elsewhere do not disturb it.
\<close>

type_synonym mem = "nat \<Rightarrow> u8"

definition read_mem :: "mem \<Rightarrow> nat \<Rightarrow> nat \<Rightarrow> bytes" where
  "read_mem mem p n = map (\<lambda>i. mem (p + i)) [0..<n]"

definition write_mem :: "mem \<Rightarrow> nat \<Rightarrow> bytes \<Rightarrow> mem" where
  "write_mem mem p bs = (\<lambda>a. if p \<le> a \<and> a < p + length bs then bs ! (a - p) else mem a)"

section \<open>Operations\<close>

definition kEntryHeader :: nat where "kEntryHeader = 16"

definition entry_key_size :: "mem \<Rightarrow> nat \<Rightarrow> u32" where
  "entry_key_size mem p = le_word (read_mem mem p 4)"

definition entry_value_size :: "mem \<Rightarrow> nat \<Rightarrow> u32" where
  "entry_value_size mem p = le_word (read_mem mem (p + 4) 4)"

definition access_bit :: "mem \<Rightarrow> nat \<Rightarrow> u8" where
  "access_bit mem p = mem (p + 8)"

definition set_access_bit :: "mem \<Rightarrow> nat \<Rightarrow> u8 \<Rightarrow> mem" where
  "set_access_bit mem p b = mem(p + 8 := b)"

definition entry_key :: "mem \<Rightarrow> nat \<Rightarrow> string" where
  "entry_key mem p = string_of (read_mem mem (p + kEntryHeader) (unat (entry_key_size mem p)))"

definition entry_value :: "mem \<Rightarrow> nat \<Rightarrow> string" where
  "entry_value mem p =
     string_of (read_mem mem (p + kEntryHeader + unat (entry_key_size mem p)) (unat (entry_value_size mem p)))"

definition required_size :: "nat \<Rightarrow> nat \<Rightarrow> nat" where
  "required_size key_len val_len = kEntryHeader + key_len + val_len"

definition init_at :: "mem \<Rightarrow> nat \<Rightarrow> string \<Rightarrow> string \<Rightarrow> mem" where
  "init_at mem p key v =
     (let mem = write_mem mem p (le_bytes 4 (word_of_nat (length key) :: u32));
          mem = write_mem mem (p + 4) (le_bytes 4 (word_of_nat (length v) :: u32));
          mem = set_access_bit mem p 0;
          mem = write_mem mem (p + 9) (replicate 7 0);
          dst = p + kEntryHeader;
          mem = write_mem mem dst (bytes_of key)
      in write_mem mem (dst + length key) (bytes_of v))"

definition entry_at :: "mem \<Rightarrow> nat \<Rightarrow> string \<Rightarrow> string \<Rightarrow> bool" where
  "entry_at mem p key v \<longleftrightarrow>
     length key < 2 ^ 32 \<and> length v < 2 ^ 32 \<and>
     read_mem mem p 4 = le_bytes 4 (word_of_nat (length key) :: u32) \<and>
     read_mem mem (p + 4) 4 = le_bytes 4 (word_of_nat (length v) :: u32) \<and>
     read_mem mem (p + kEntryHeader) (length key) = bytes_of key \<and>
     read_mem mem (p + kEntryHeader + length key) (length v) = bytes_of v"

section \<open>Lemmas\<close>

lemma length_read_mem [simp]: "length (read_mem mem p n) = n"
  by (simp add: read_mem_def)

lemma read_mem_cong: "(\<And>i. i < n \<Longrightarrow> mem' (p + i) = mem (p + i)) \<Longrightarrow> read_mem mem' p n = read_mem mem p n"
  by (simp add: read_mem_def)

lemma read_write_same [simp]: "length bs = n \<Longrightarrow> read_mem (write_mem mem p bs) p n = bs"
  by (auto simp: read_mem_def write_mem_def intro: nth_equalityI)

lemma read_write_other [simp]:
  "p + n \<le> q \<or> q + length bs \<le> p \<Longrightarrow> read_mem (write_mem mem q bs) p n = read_mem mem p n"
  by (auto simp: read_mem_def write_mem_def)

lemma read_set_access_bit [simp]:
  "p + n \<le> q + 8 \<or> q + 8 < p \<Longrightarrow> read_mem (set_access_bit mem q b) p n = read_mem mem p n"
  by (auto simp: read_mem_def set_access_bit_def)

lemma entry_at_init:
  assumes "length key < 2 ^ 32" and "length v < 2 ^ 32"
  shows "entry_at (init_at mem p key v) p key v"
  using assms by (simp add: entry_at_def init_at_def kEntryHeader_def Let_def)

lemma access_bit_init [simp]: "access_bit (init_at mem p key v) p = 0"
  by (simp add: access_bit_def init_at_def set_access_bit_def write_mem_def kEntryHeader_def Let_def)

lemma init_at_frame:
  "x < p \<or> p + required_size (length key) (length v) \<le> x \<Longrightarrow> init_at mem p key v x = mem x"
  by (auto simp: init_at_def write_mem_def set_access_bit_def required_size_def kEntryHeader_def Let_def)

lemma entry_at_sizes:
  assumes "entry_at mem p key v"
  shows "unat (entry_key_size mem p) = length key" and "unat (entry_value_size mem p) = length v"
  using assms by (simp_all add: entry_at_def entry_key_size_def entry_value_size_def)

lemma entry_at_key: "entry_at mem p key v \<Longrightarrow> entry_key mem p = key"
  by (simp add: entry_key_def entry_at_sizes) (simp add: entry_at_def)

lemma entry_at_value: "entry_at mem p key v \<Longrightarrow> entry_value mem p = v"
  by (simp add: entry_value_def entry_at_sizes) (simp add: entry_at_def)

lemma entry_at_cong:
  assumes "entry_at mem p key v"
    and "\<And>i. i < required_size (length key) (length v) \<Longrightarrow> i \<noteq> 8 \<Longrightarrow> mem' (p + i) = mem (p + i)"
  shows "entry_at mem' p key v"
proof -
  let ?k = "length key" and ?v = "length v"
  have "read_mem mem' p 4 = read_mem mem p 4" "read_mem mem' (p + 4) 4 = read_mem mem (p + 4) 4"
    by (auto intro!: read_mem_cong simp: assms(2) required_size_def kEntryHeader_def add.assoc)
  moreover have "read_mem mem' (p + kEntryHeader) ?k = read_mem mem (p + kEntryHeader) ?k"
    "read_mem mem' (p + kEntryHeader + ?k) ?v = read_mem mem (p + kEntryHeader + ?k) ?v"
    by (auto intro!: read_mem_cong simp: assms(2) required_size_def kEntryHeader_def add.assoc)
  ultimately show ?thesis using assms(1) by (simp add: entry_at_def)
qed

section \<open>Properties\<close>

text \<open>
  An entry initialised in memory reads back as the key and the value it was given, with a clear
  access bit; initialisation touches only the \<open>required_size\<close> bytes of the entry; and marking the
  entry as accessed changes neither key nor value.
\<close>
theorem slab_entry_roundtrip:
  assumes "length key < 2 ^ 32" and "length v < 2 ^ 32"
  shows "entry_key (set_access_bit (init_at mem p key v) p b) p = key \<and>
    entry_value (set_access_bit (init_at mem p key v) p b) p = v \<and>
    access_bit (init_at mem p key v) p = 0 \<and>
    required_size (unat (entry_key_size (init_at mem p key v) p)) (unat (entry_value_size (init_at mem p key v) p)) =
      required_size (length key) (length v) \<and>
    (\<forall>x. x \<notin> {p ..< p + required_size (length key) (length v)} \<longrightarrow> init_at mem p key v x = mem x)"
proof -
  note e = entry_at_init [OF assms, of mem p]
  have "entry_at (set_access_bit (init_at mem p key v) p b) p key v"
    by (rule entry_at_cong [OF e]) (simp add: set_access_bit_def)
  then show ?thesis using e by (auto simp: entry_at_key entry_at_value entry_at_sizes init_at_frame)
qed

theorem slab_entry_roundtrip_witness:
  "entry_value (set_access_bit (init_at (\<lambda>_. 7) 64 ''key'' ''value'') 64 1) 64 = ''value''"
  using slab_entry_roundtrip [of "''key''" "''value''"] by simp

end
