(* ===== verification/ClockEvictor.thy ===== *)
theory ClockEvictor
  imports SlabEntry
begin

text \<open>
  CLOCK eviction (\<open>src/src/storage/clock_evictor.h\<close> and \<open>clock_evictor.cpp\<close>).

  The ring holds entry pointers, the index the position of each in the ring. \<open>evict_one\<close> reads and
  clears access bits in arena memory, so it takes the memory and returns the new one. The loop of at
  most twice the ring's size is structural recursion on the iterations left; that it never runs out
  without a victim is proved, not assumed.
\<close>

section \<open>State and operations\<close>

record clock_evictor =
  ce_ring :: "nat list"
  ce_index :: "(nat \<times> nat) list"
  ce_hand :: nat

definition new_clock_evictor :: clock_evictor where
  "new_clock_evictor = \<lparr>ce_ring = [], ce_index = [], ce_hand = 0\<rparr>"

definition swap_remove :: "clock_evictor \<Rightarrow> nat \<Rightarrow> clock_evictor" where
  "swap_remove ce idx =
     (let removed = ce_ring ce ! idx;
          back = last (ce_ring ce);
          index = um_erase removed (ce_index ce);
          (ring, index) = (if idx \<noteq> length (ce_ring ce) - 1
                           then ((ce_ring ce)[idx := back], um_set back idx index)
                           else (ce_ring ce, index))
      in ce\<lparr>ce_ring := butlast ring, ce_index := index\<rparr>)"

definition track :: "clock_evictor \<Rightarrow> nat \<Rightarrow> clock_evictor" where
  "track ce p =
     ce\<lparr>ce_index := um_set p (length (ce_ring ce)) (ce_index ce), ce_ring := ce_ring ce @ [p]\<rparr>"

definition untrack :: "clock_evictor \<Rightarrow> nat \<Rightarrow> clock_evictor" where
  "untrack ce p =
     (case um_find p (ce_index ce) of
        None \<Rightarrow> ce
      | Some idx \<Rightarrow>
          let ce = swap_remove ce idx
          in if ce_ring ce = [] then ce\<lparr>ce_hand := 0\<rparr>
             else if ce_hand ce \<ge> length (ce_ring ce) then ce\<lparr>ce_hand := 0\<rparr>
             else ce)"

fun evict_loop :: "nat \<Rightarrow> clock_evictor \<Rightarrow> mem \<Rightarrow> clock_evictor \<times> mem \<times> nat option" where
  "evict_loop 0 ce mem = (ce, mem, None)"
| "evict_loop (Suc iters) ce mem =
     (let ce = (if ce_hand ce \<ge> length (ce_ring ce) then ce\<lparr>ce_hand := 0\<rparr> else ce);
          entry = ce_ring ce ! ce_hand ce
      in if access_bit mem entry = 0
         then let ce = swap_remove ce (ce_hand ce);
                  ce = (if ce_hand ce \<ge> length (ce_ring ce) \<and> ce_ring ce \<noteq> [] then ce\<lparr>ce_hand := 0\<rparr> else ce)
              in (ce, mem, Some entry)
         else evict_loop iters (ce\<lparr>ce_hand := (ce_hand ce + 1) mod length (ce_ring ce)\<rparr>)
                (set_access_bit mem entry 0))"

definition evict_one :: "clock_evictor \<Rightarrow> mem \<Rightarrow> clock_evictor \<times> mem \<times> nat option" where
  "evict_one ce mem =
     (if ce_ring ce = [] then (ce, mem, None)
      else evict_loop (length (ce_ring ce) * 2) ce mem)"

definition tracked :: "clock_evictor \<Rightarrow> nat" where
  "tracked ce = length (ce_ring ce)"

section \<open>Invariant\<close>

text \<open>The index is the inverse of the ring, and the hand points into it.\<close>

definition ce_ok :: "clock_evictor \<Rightarrow> bool" where
  "ce_ok ce \<longleftrightarrow>
     distinct (ce_ring ce) \<and>
     (\<forall>p i. um_find p (ce_index ce) = Some i \<longleftrightarrow> i < length (ce_ring ce) \<and> ce_ring ce ! i = p) \<and>
     (ce_hand ce < length (ce_ring ce) \<or> ce_ring ce = [] \<and> ce_hand ce = 0)"

text \<open>The entries in the order the hand visits them.\<close>

definition clock_order :: "clock_evictor \<Rightarrow> nat list" where
  "clock_order ce = rotate (ce_hand ce) (ce_ring ce)"

definition clear_bits :: "nat list \<Rightarrow> mem \<Rightarrow> mem" where
  "clear_bits ps mem = fold (\<lambda>p mem. set_access_bit mem p 0) ps mem"

text \<open>
  The second-chance policy: pass over the entries whose access bit is set, clearing it; the victim is
  the first entry with a clear bit, or, if all bits were set, the one the hand started at.
\<close>

definition second_chance :: "nat list \<Rightarrow> mem \<Rightarrow> nat \<times> mem" where
  "second_chance order mem =
     ((case dropWhile (\<lambda>p. access_bit mem p \<noteq> 0) order of [] \<Rightarrow> hd order | p # _ \<Rightarrow> p),
      clear_bits (takeWhile (\<lambda>p. access_bit mem p \<noteq> 0) order) mem)"

section \<open>Removal\<close>

lemma swap_remove_ring:
  assumes "idx < length (ce_ring ce)"
  shows "ce_ring (swap_remove ce idx) = butlast ((ce_ring ce)[idx := last (ce_ring ce)])"
proof (cases "idx = length (ce_ring ce) - 1")
  case True
  then have "(ce_ring ce)[idx := last (ce_ring ce)] = ce_ring ce"
    using assms by (metis last_conv_nth length_0_conv less_nat_zero_code list_update_id)
  then show ?thesis using True by (simp add: swap_remove_def Let_def)
qed (simp add: swap_remove_def Let_def)

lemma nth_swap_remove:
  assumes "idx < length xs" and "i < length xs - 1"
  shows "butlast (xs[idx := last xs]) ! i = (if i = idx then last xs else xs ! i)"
  using assms by (simp add: nth_butlast nth_list_update)

lemma set_swap_remove:
  assumes "distinct xs" and "idx < length xs"
  shows "set (butlast (xs[idx := last xs])) = set xs - {xs ! idx} \<and> distinct (butlast (xs[idx := last xs]))"
proof -
  from assms(2) obtain ys y where xs: "xs = ys @ [y]" by (metis length_0_conv less_nat_zero_code rev_exhaust)
  show ?thesis
  proof (cases "idx = length ys")
    case True
    then show ?thesis using assms(1) xs by auto
  next
    case False
    then have idx: "idx < length ys" using assms(2) xs by simp
    then have "butlast (xs[idx := last xs]) = ys[idx := y]" and "xs ! idx = ys ! idx"
      by (simp_all add: xs list_update_append nth_append)
    moreover have "distinct ys" and "y \<notin> set ys" using assms(1) xs by simp_all
    moreover have "ys ! idx \<noteq> y" using idx \<open>y \<notin> set ys\<close> nth_mem by metis
    ultimately show ?thesis
      using idx set_update_distinct [of ys idx y] distinct_list_update [of ys y idx] by (auto simp: xs)
  qed
qed

lemma swap_remove_index:
  assumes "ce_ok ce" and "idx < length (ce_ring ce)"
  shows "um_find p (ce_index (swap_remove ce idx)) = Some i \<longleftrightarrow>
    i < length (ce_ring ce) - 1 \<and> butlast ((ce_ring ce)[idx := last (ce_ring ce)]) ! i = p"
proof -
  let ?r = "ce_ring ce" and ?n = "length (ce_ring ce)"
  have d: "distinct ?r" and ix: "um_find q (ce_index ce) = Some k \<longleftrightarrow> k < ?n \<and> ?r ! k = q" for q k
    using assms(1) by (auto simp: ce_ok_def)
  have last: "last ?r = ?r ! (?n - 1)" using assms(2) by (metis last_conv_nth length_0_conv less_nat_zero_code)
  have inj: "?r ! a = ?r ! b \<longleftrightarrow> a = b" if "a < ?n" "b < ?n" for a b using d that by (simp add: nth_eq_iff_index_eq)
  have find: "um_find p (ce_index (swap_remove ce idx)) = Some i \<longleftrightarrow>
      (if p = ?r ! (?n - 1) \<and> idx \<noteq> ?n - 1 then i = idx else p \<noteq> ?r ! idx \<and> i < ?n \<and> ?r ! i = p)"
    using ix by (auto simp: swap_remove_def Let_def last)
  have nth: "i < ?n - 1 \<Longrightarrow> butlast (?r[idx := last ?r]) ! i = (if i = idx then ?r ! (?n - 1) else ?r ! i)"
    using nth_swap_remove [OF assms(2)] last by simp
  show ?thesis
  proof (cases "i < ?n - 1")
    case True
    then have "i < ?n" by simp
    with find nth [OF True] inj [of i "?n - 1"] inj [of i idx] inj [of "?n - 1" idx] assms(2) True
    show ?thesis by auto
  next
    case False
    with find inj [of i "?n - 1"] inj [of "?n - 1" idx] assms(2) show ?thesis by (auto simp: not_less)
  qed
qed

lemma swap_remove_ok:
  assumes "ce_ok ce" and "idx < length (ce_ring ce)"
  shows "set (ce_ring (swap_remove ce idx)) = set (ce_ring ce) - {ce_ring ce ! idx}"
    and "length (ce_ring (swap_remove ce idx)) = length (ce_ring ce) - 1"
    and "h < length (ce_ring ce) - 1 \<or> h = 0 \<Longrightarrow> ce_ok ((swap_remove ce idx)\<lparr>ce_hand := h\<rparr>)"
proof -
  have d: "distinct (ce_ring ce)" using assms(1) by (simp add: ce_ok_def)
  note s = set_swap_remove [OF d assms(2)] and r = swap_remove_ring [OF assms(2)]
  show "set (ce_ring (swap_remove ce idx)) = set (ce_ring ce) - {ce_ring ce ! idx}" using s r by simp
  show "length (ce_ring (swap_remove ce idx)) = length (ce_ring ce) - 1" using r by simp
  assume "h < length (ce_ring ce) - 1 \<or> h = 0"
  then have "h < length (butlast ((ce_ring ce)[idx := last (ce_ring ce)])) \<or>
      butlast ((ce_ring ce)[idx := last (ce_ring ce)]) = [] \<and> h = 0"
    by (metis bot_nat_0.not_eq_extremum length_0_conv length_butlast length_list_update)
  then show "ce_ok ((swap_remove ce idx)\<lparr>ce_hand := h\<rparr>)"
    using s swap_remove_index [OF assms] by (simp add: ce_ok_def r)
qed

lemma swap_remove_hand [simp]: "ce_hand (swap_remove ce idx) = ce_hand ce"
  by (simp add: swap_remove_def Let_def)

lemma track_ok:
  assumes "ce_ok ce" and "p \<notin> set (ce_ring ce)"
  shows "ce_ok (track ce p)"
  using assms unfolding ce_ok_def
  by (auto simp: track_def nth_append less_Suc_eq in_set_conv_nth)

lemma ce_ok_indexD: "ce_ok ce \<Longrightarrow> um_find p (ce_index ce) = Some i \<Longrightarrow> i < length (ce_ring ce) \<and> ce_ring ce ! i = p"
  by (simp add: ce_ok_def)

lemma ce_ok_index_None: "ce_ok ce \<Longrightarrow> um_find p (ce_index ce) = None \<longleftrightarrow> p \<notin> set (ce_ring ce)"
  unfolding ce_ok_def in_set_conv_nth by (metis not_None_eq)

lemma untrack_ok:
  assumes "ce_ok ce"
  shows "ce_ok (untrack ce p) \<and> set (ce_ring (untrack ce p)) = set (ce_ring ce) - {p}"
proof (cases "um_find p (ce_index ce)")
  case None
  then show ?thesis using assms ce_ok_index_None [OF assms, of p] by (auto simp: untrack_def)
next
  case (Some idx)
  then have idx: "idx < length (ce_ring ce)" and p: "ce_ring ce ! idx = p" using ce_ok_indexD [OF assms] by auto
  define c where "c = swap_remove ce idx"
  note sw = swap_remove_ok [OF assms idx, folded c_def]
  have hand: "untrack ce p = c\<lparr>ce_hand := if ce_hand c < length (ce_ring c) then ce_hand c else 0\<rparr>"
    using Some by (cases c) (auto simp: untrack_def c_def [symmetric] Let_def)
  have "ce_ok (untrack ce p)" unfolding hand by (rule sw(3)) (simp add: sw(2))
  then show ?thesis using sw(1) p by (simp add: hand)
qed

section \<open>Eviction\<close>

lemma clear_bits_apply: "clear_bits ps mem a = (if a \<in> (\<lambda>p. p + 8) ` set ps then 0 else mem a)"
  by (induction ps arbitrary: mem) (auto simp: clear_bits_def set_access_bit_def)

lemma access_bit_clear_bits [simp]: "access_bit (clear_bits ps mem) p = (if p \<in> set ps then 0 else access_bit mem p)"
  by (auto simp: access_bit_def clear_bits_apply)

lemma clear_bits_snoc: "clear_bits (ps @ [p]) mem = set_access_bit (clear_bits ps mem) p 0"
  by (simp add: clear_bits_def)

definition evict_at :: "clock_evictor \<Rightarrow> clock_evictor" where
  "evict_at ce =
     (let ce = swap_remove ce (ce_hand ce)
      in if ce_hand ce \<ge> length (ce_ring ce) \<and> ce_ring ce \<noteq> [] then ce\<lparr>ce_hand := 0\<rparr> else ce)"

lemma evict_loop_Suc:
  assumes "ce_hand ce < length (ce_ring ce)"
  shows "evict_loop (Suc m) ce mem =
    (let p = ce_ring ce ! ce_hand ce
     in if access_bit mem p = 0 then (evict_at ce, mem, Some p)
        else evict_loop m (ce\<lparr>ce_hand := (ce_hand ce + 1) mod length (ce_ring ce)\<rparr>) (set_access_bit mem p 0))"
  using assms by (simp add: evict_at_def Let_def)

lemma evict_at_ok:
  assumes "ce_ok ce" and "ce_ring ce \<noteq> []"
  shows "ce_ok (evict_at ce) \<and> set (ce_ring (evict_at ce)) = set (ce_ring ce) - {ce_ring ce ! ce_hand ce}"
proof -
  have h: "ce_hand ce < length (ce_ring ce)" using assms by (auto simp: ce_ok_def)
  define c where "c = swap_remove ce (ce_hand ce)"
  note sw = swap_remove_ok [OF assms(1) h, folded c_def]
  have hc: "ce_hand c = ce_hand ce" by (simp add: c_def)
  have hand: "evict_at ce = c\<lparr>ce_hand := if ce_hand c < length (ce_ring c) then ce_hand c else 0\<rparr>"
    using h sw(2) hc by (cases c) (auto simp: evict_at_def c_def [symmetric] Let_def)
  have "ce_ok (evict_at ce)" unfolding hand by (rule sw(3)) (simp add: sw(2))
  then show ?thesis using sw(1) by (simp add: hand)
qed

lemma nth_clock_order:
  "i < length (ce_ring ce) \<Longrightarrow> clock_order ce ! i = ce_ring ce ! ((ce_hand ce + i) mod length (ce_ring ce))"
  by (simp add: clock_order_def nth_rotate)

lemma evict_pass:
  assumes ok: "ce_ok ce" and k: "k \<le> length (ce_ring ce)" and ne: "ce_ring ce \<noteq> []"
    and bits: "\<forall>p \<in> set (take k (clock_order ce)). access_bit mem p \<noteq> 0"
  shows "evict_loop (k + m) ce mem =
    evict_loop m (ce\<lparr>ce_hand := (ce_hand ce + k) mod length (ce_ring ce)\<rparr>) (clear_bits (take k (clock_order ce)) mem)"
  using k bits
proof (induction k arbitrary: m)
  case 0
  have "ce_hand ce < length (ce_ring ce)" using ok ne by (auto simp: ce_ok_def)
  then show ?case by (simp add: clear_bits_def)
next
  case (Suc k)
  let ?n = "length (ce_ring ce)" and ?ord = "clock_order ce"
  let ?ce = "ce\<lparr>ce_hand := (ce_hand ce + k) mod ?n\<rparr>" and ?mem = "clear_bits (take k ?ord) mem"
  have len: "length ?ord = ?n" and d: "distinct ?ord" using ok by (simp_all add: clock_order_def ce_ok_def)
  have k: "k < ?n" using Suc.prems(1) by simp
  have tk: "take (Suc k) ?ord = take k ?ord @ [?ord ! k]" using k len by (simp add: take_Suc_conv_app_nth)
  have "?ord ! k \<notin> set (take k ?ord)" using d tk by (metis distinct_append distinct_take not_distinct_conv_prefix)
  then have bit: "access_bit ?mem (?ord ! k) \<noteq> 0" using Suc.prems(2) tk by simp
  have "evict_loop (Suc k + m) ce mem = evict_loop (Suc m) ?ce ?mem"
    using Suc.IH [of "Suc m"] Suc.prems tk by simp
  also have "\<dots> = evict_loop m (ce\<lparr>ce_hand := ((ce_hand ce + k) mod ?n + 1) mod ?n\<rparr>) (set_access_bit ?mem (?ord ! k) 0)"
    using evict_loop_Suc [of ?ce m ?mem] ne bit by (simp add: Let_def nth_clock_order [OF k] del: evict_loop.simps)
  finally show ?case by (simp add: tk clear_bits_snoc mod_simps)
qed

lemma evict_one_second_chance:
  assumes ok: "ce_ok ce" and ne: "ce_ring ce \<noteq> []" and sc: "second_chance (clock_order ce) mem = (victim, mem')"
  shows "\<exists>ce'. evict_one ce mem = (ce', mem', Some victim) \<and> ce_ok ce' \<and>
    victim \<in> set (ce_ring ce) \<and> set (ce_ring ce') = set (ce_ring ce) - {victim}"
proof -
  let ?n = "length (ce_ring ce)" and ?ord = "clock_order ce" and ?P = "\<lambda>p. access_bit mem p \<noteq> 0"
  define k where "k = length (takeWhile ?P ?ord)"
  let ?ce = "ce\<lparr>ce_hand := (ce_hand ce + k) mod ?n\<rparr>"
  have len: "length ?ord = ?n" and n: "0 < ?n" using ne by (simp_all add: clock_order_def)
  have k: "k \<le> ?n" unfolding k_def using length_takeWhile_le [of ?P ?ord] len by simp
  have tk: "take k ?ord = takeWhile ?P ?ord" by (simp add: k_def takeWhile_eq_take [symmetric])
  have mem': "mem' = clear_bits (takeWhile ?P ?ord) mem" using sc by (simp add: second_chance_def)
  have victim: "ce_ring ce ! ((ce_hand ce + k) mod ?n) = victim \<and> access_bit mem' victim = 0"
  proof (cases "k < ?n")
    case True
    then have dw: "dropWhile ?P ?ord = ?ord ! k # drop (Suc k) ?ord"
      by (simp add: dropWhile_eq_drop k_def [symmetric] Cons_nth_drop_Suc len)
    then have "victim = ?ord ! k" using sc by (simp add: second_chance_def)
    moreover have "access_bit mem (?ord ! k) = 0" using hd_dropWhile [of ?P ?ord] dw by simp
    ultimately show ?thesis using nth_clock_order [OF True] by (simp add: mem')
  next
    case False
    with k have "k = ?n" by simp
    then have all: "takeWhile ?P ?ord = ?ord" using tk len by simp
    then have dw: "dropWhile ?P ?ord = []" by (metis append_self_conv takeWhile_dropWhile_id)
    have "?ord \<noteq> []" using len n by auto
    then have "victim = ?ord ! 0" using sc unfolding second_chance_def dw by (simp add: hd_conv_nth)
    moreover have "mem' = clear_bits ?ord mem" using mem' by (simp only: all)
    moreover have "?ord ! 0 \<in> set ?ord" using \<open>?ord \<noteq> []\<close> by simp
    ultimately show ?thesis using nth_clock_order [of 0 ce] n \<open>k = ?n\<close> by simp
  qed
  have "\<forall>p \<in> set (take k ?ord). access_bit mem p \<noteq> 0" unfolding tk by (auto dest: set_takeWhileD)
  note pass = evict_pass [OF ok k ne this, of "?n * 2 - k"]
  have "0 < ?n * 2 - k" using k n by linarith
  then obtain m where m: "?n * 2 - k = Suc m" using gr0_implies_Suc by blast
  have "evict_one ce mem = evict_loop (Suc m) ?ce mem'"
    using pass ne le_add_diff_inverse [of k "?n * 2"] k n
    unfolding m by (simp add: evict_one_def tk mem' del: evict_loop.simps)
  then have e: "evict_one ce mem = (evict_at ?ce, mem', Some victim)"
    using evict_loop_Suc [of ?ce m mem'] victim n by (simp add: Let_def del: evict_loop.simps)
  have "ce_ok ?ce" using ok n by (simp add: ce_ok_def)
  from evict_at_ok [OF this] victim ne have
    "ce_ok (evict_at ?ce) \<and> set (ce_ring (evict_at ?ce)) = set (ce_ring ce) - {victim}" by simp
  moreover have "victim \<in> set (ce_ring ce)" using victim n by (metis mod_less_divisor nth_mem)
  ultimately show ?thesis using e by blast
qed

section \<open>Properties\<close>

text \<open>
  C28. Eviction never fails on a non-empty ring: within two turns it returns the victim of the
  second-chance policy, has cleared exactly the access bits of the entries it passed over and changed
  nothing else in memory, and no longer tracks the victim.
\<close>
theorem evict_one_spec:
  assumes "ce_ok ce" and "ce_ring ce \<noteq> []"
  shows "\<exists>ce' mem' victim. evict_one ce mem = (ce', mem', Some victim) \<and>
    (victim, mem') = second_chance (clock_order ce) mem \<and>
    ce_ok ce' \<and> victim \<in> set (ce_ring ce) \<and> set (ce_ring ce') = set (ce_ring ce) - {victim}"
  using evict_one_second_chance [OF assms, of mem] by (metis surj_pair)

theorem evict_one_spec_witness:
  "\<exists>ce'. evict_one \<lparr>ce_ring = [64, 128], ce_index = [(64, 0), (128, 1)], ce_hand = 0\<rparr> (\<lambda>a. if a = 72 then 1 else 0)
     = (ce', \<lambda>_. 0, Some 128)"
proof -
  let ?ce = "\<lparr>ce_ring = [64, 128], ce_index = [(64, 0), (128, 1)], ce_hand = 0\<rparr>" and ?mem = "\<lambda>a::nat. if a = 72 then 1 else 0 :: u8"
  have "ce_ok ?ce" by (auto simp: ce_ok_def um_find_def less_Suc_eq nth_Cons')
  moreover have "second_chance (clock_order ?ce) ?mem = (128, \<lambda>_. 0)"
    by (auto simp: second_chance_def clock_order_def access_bit_def clear_bits_apply fun_eq_iff)
  ultimately show ?thesis using evict_one_spec [of ?ce ?mem] by auto
qed

text \<open>
  Tracking and untracking keep the index the inverse of the ring and the hand inside it, and add
  or remove exactly the entry named.
\<close>
theorem clock_invariant:
  assumes "ce_ok ce"
  shows "ce_ok (untrack ce p) \<and> set (ce_ring (untrack ce p)) = set (ce_ring ce) - {p} \<and>
    (p \<notin> set (ce_ring ce) \<longrightarrow> ce_ok (track ce p) \<and> set (ce_ring (track ce p)) = insert p (set (ce_ring ce)))"
  using untrack_ok [OF assms, of p] track_ok [OF assms, of p] by (auto simp: track_def)

theorem clock_invariant_witness: "ce_ok (track new_clock_evictor 64)"
  using clock_invariant [of new_clock_evictor 64] by (simp add: ce_ok_def new_clock_evictor_def)

end
