(* ===== verification/LocalStore.thy ===== *)
theory LocalStore
  imports Hasher SlabAllocator ClockEvictor
begin

text \<open>
  The node-local store (\<open>src/src/storage/local_store.h\<close> and \<open>local_store.cpp\<close>).

  The state holds the allocator, the shards and the arena memory. Every operation runs under the
  mutex of one shard and is one step here; calls of the allocator by operations on other shards can
  come in between in the program, and are not interleaved in this model.

  The proofs look at one shard: \<open>shard_work\<close> describes it next to the set of slots that belong to
  the other shards. The elementary changes of a shard (marking entries as accessed, removing an
  entry, inserting one) keep that description and leave the bytes of foreign slots alone; the
  operations of the store are sequences of such changes, lifted to the whole store by \<open>lift_shard\<close>.
\<close>

section \<open>State and operations\<close>

record shard =
  sh_map :: "(string \<times> nat) list"
  sh_evictor :: clock_evictor

record local_store =
  ls_allocator :: slab_allocator
  ls_shards :: "shard list"
  ls_mem :: mem

definition kMaxEvictAttempts :: nat where "kMaxEvictAttempts = 8"

definition new_local_store :: "nat \<Rightarrow> nat \<Rightarrow> bool \<Rightarrow> bool \<Rightarrow> arena_error + local_store" where
  "new_local_store total_memory num_shards mmap_huge_ok mmap_ok =
     (case new_slab_allocator total_memory mmap_huge_ok mmap_ok of
        Inl e \<Rightarrow> Inl e
      | Inr sa \<Rightarrow> Inr \<lparr>ls_allocator = sa,
          ls_shards = replicate num_shards \<lparr>sh_map = [], sh_evictor = new_clock_evictor\<rparr>,
          ls_mem = (\<lambda>_. 0)\<rparr>)"

definition shard_for :: "local_store \<Rightarrow> string \<Rightarrow> nat" where
  "shard_for ls key = unat (hash_key key) mod length (ls_shards ls)"

definition ls_get :: "local_store \<Rightarrow> string \<Rightarrow> local_store \<times> string option" where
  "ls_get ls key =
     (case um_find key (sh_map (ls_shards ls ! shard_for ls key)) of
        None \<Rightarrow> (ls, None)
      | Some p \<Rightarrow>
          let mem = set_access_bit (ls_mem ls) p 1
          in (ls\<lparr>ls_mem := mem\<rparr>, Some (entry_value mem p)))"

definition entry_size :: "mem \<Rightarrow> nat \<Rightarrow> nat" where
  "entry_size mem p = required_size (unat (entry_key_size mem p)) (unat (entry_value_size mem p))"

text \<open>The three statements \<open>put\<close> and \<open>del\<close> share: untrack an entry, free its slot, erase it from the map.\<close>

definition drop_entry :: "slab_allocator \<Rightarrow> shard \<Rightarrow> mem \<Rightarrow> string \<Rightarrow> nat \<Rightarrow> slab_allocator \<times> shard" where
  "drop_entry sa sh mem key p =
     (let ev = untrack (sh_evictor sh) p;
          sa = deallocate sa (Some p) (entry_size mem p)
      in (sa, sh\<lparr>sh_evictor := ev, sh_map := um_erase key (sh_map sh)\<rparr>))"

text \<open>The allocation loop of \<open>put\<close>; the first argument counts the attempts left.\<close>

fun put_loop :: "nat \<Rightarrow> nat \<Rightarrow> slab_allocator \<Rightarrow> shard \<Rightarrow> mem \<Rightarrow> slab_allocator \<times> shard \<times> mem \<times> nat option" where
  "put_loop 0 alloc_size sa sh mem = (sa, sh, mem, None)"
| "put_loop (Suc attempts) alloc_size sa sh mem =
     (case allocate sa alloc_size of
        (sa, Some ptr) \<Rightarrow> (sa, sh, mem, Some ptr)
      | (sa, None) \<Rightarrow>
          (case evict_one (sh_evictor sh) mem of
             (ev, mem, None) \<Rightarrow> (sa, sh\<lparr>sh_evictor := ev\<rparr>, mem, None)
           | (ev, mem, Some victim) \<Rightarrow>
               let victim_size = entry_size mem victim;
                   vmap = (case um_find (entry_key mem victim) (sh_map sh) of
                             None \<Rightarrow> sh_map sh
                           | Some _ \<Rightarrow> um_erase (entry_key mem victim) (sh_map sh));
                   sa = deallocate sa (Some victim) victim_size
               in put_loop attempts alloc_size sa (sh\<lparr>sh_evictor := ev, sh_map := vmap\<rparr>) mem))"

text \<open>\<open>emplace\<close> inserts only if the key is absent.\<close>

definition um_emplace :: "'k \<Rightarrow> 'v \<Rightarrow> ('k \<times> 'v) list \<Rightarrow> ('k \<times> 'v) list" where
  "um_emplace k v m = (case um_find k m of None \<Rightarrow> um_set k v m | Some _ \<Rightarrow> m)"

definition ls_put :: "local_store \<Rightarrow> string \<Rightarrow> string \<Rightarrow> local_store \<times> bool" where
  "ls_put ls key v =
     (let alloc_size = required_size (length key) (length v);
          s = shard_for ls key;
          sh = ls_shards ls ! s;
          (sa, sh) = (case um_find key (sh_map sh) of
                        None \<Rightarrow> (ls_allocator ls, sh)
                      | Some old \<Rightarrow> drop_entry (ls_allocator ls) sh (ls_mem ls) key old);
          (sa, sh, mem, ptr) = put_loop (kMaxEvictAttempts + 1) alloc_size sa sh (ls_mem ls)
      in case ptr of
           None \<Rightarrow> (ls\<lparr>ls_allocator := sa, ls_shards := (ls_shards ls)[s := sh], ls_mem := mem\<rparr>, False)
         | Some p \<Rightarrow>
             let mem = init_at mem p key v;
                 sh = sh\<lparr>sh_map := um_emplace key p (sh_map sh), sh_evictor := track (sh_evictor sh) p\<rparr>
             in (ls\<lparr>ls_allocator := sa, ls_shards := (ls_shards ls)[s := sh], ls_mem := mem\<rparr>, True))"

definition ls_del :: "local_store \<Rightarrow> string \<Rightarrow> local_store \<times> bool" where
  "ls_del ls key =
     (let s = shard_for ls key; sh = ls_shards ls ! s
      in case um_find key (sh_map sh) of
           None \<Rightarrow> (ls, False)
         | Some p \<Rightarrow>
             let (sa, sh) = drop_entry (ls_allocator ls) sh (ls_mem ls) key p
             in (ls\<lparr>ls_allocator := sa, ls_shards := (ls_shards ls)[s := sh]\<rparr>, True))"

definition ls_size :: "local_store \<Rightarrow> nat" where
  "ls_size ls = sum_list (map (\<lambda>sh. length (sh_map sh)) (ls_shards ls))"

definition memory_used :: "local_store \<Rightarrow> nat" where
  "memory_used ls = pages_used (ls_allocator ls) * kPageSize"

section \<open>Invariant and abstraction\<close>

definition shard_ptrs :: "shard \<Rightarrow> nat set" where
  "shard_ptrs sh = snd ` set (sh_map sh)"

definition entry_slot :: "mem \<Rightarrow> nat \<Rightarrow> slot" where
  "entry_slot mem p = (p, class_for_size (entry_size mem p))"

definition shard_slots :: "mem \<Rightarrow> shard \<Rightarrow> slot set" where
  "shard_slots mem sh = entry_slot mem ` shard_ptrs sh"

text \<open>Map and evictor hold the same entries, each stands in memory under its key and fits a slot.\<close>

definition shard_ok :: "mem \<Rightarrow> shard \<Rightarrow> bool" where
  "shard_ok mem sh \<longleftrightarrow>
     um_ok (sh_map sh) \<and> ce_ok (sh_evictor sh) \<and> set (ce_ring (sh_evictor sh)) = shard_ptrs sh \<and>
     inj_on snd (set (sh_map sh)) \<and>
     (\<forall>(k, p) \<in> set (sh_map sh). \<exists>v. entry_at mem p k v \<and> required_size (length k) (length v) \<le> kMaxSlotSize)"

definition shard_work :: "slot set \<Rightarrow> slab_allocator \<Rightarrow> shard \<Rightarrow> mem \<Rightarrow> bool" where
  "shard_work foreign sa sh mem \<longleftrightarrow>
     shard_ok mem sh \<and> sa_ok sa (foreign \<union> shard_slots mem sh) \<and> foreign \<inter> shard_slots mem sh = {}"

text \<open>The contents of a shard and of the store, as the map the store implements.\<close>

definition shard_view :: "mem \<Rightarrow> shard \<Rightarrow> string \<Rightarrow> string option" where
  "shard_view mem sh k = map_option (entry_value mem) (um_find k (sh_map sh))"

definition ls_view :: "local_store \<Rightarrow> string \<Rightarrow> string option" where
  "ls_view ls k = shard_view (ls_mem ls) (ls_shards ls ! shard_for ls k) k"

definition foreign_slots :: "local_store \<Rightarrow> nat \<Rightarrow> slot set" where
  "foreign_slots ls i = (\<Union>j \<in> {..< length (ls_shards ls)} - {i}. shard_slots (ls_mem ls) (ls_shards ls ! j))"

definition ls_ok :: "local_store \<Rightarrow> bool" where
  "ls_ok ls \<longleftrightarrow>
     ls_shards ls \<noteq> [] \<and>
     (\<forall>i < length (ls_shards ls).
        shard_work (foreign_slots ls i) (ls_allocator ls) (ls_shards ls ! i) (ls_mem ls) \<and>
        (\<forall>k \<in> fst ` set (sh_map (ls_shards ls ! i)). shard_for ls k = i))"

text \<open>The bytes of the given slots are the same in two memories.\<close>

definition same_slots :: "slot set \<Rightarrow> mem \<Rightarrow> mem \<Rightarrow> bool" where
  "same_slots slots mem mem' \<longleftrightarrow> (\<forall>s \<in> slots. \<forall>a \<in> slot_extent s. mem' a = mem a)"

lemma map_le_SomeI: "(\<And>j x. f j = Some x \<Longrightarrow> g j = Some x) \<Longrightarrow> f \<subseteq>\<^sub>m g"
  by (auto simp: map_le_def dom_def)

lemma map_le_SomeD: "f \<subseteq>\<^sub>m g \<Longrightarrow> f j = Some x \<Longrightarrow> g j = Some x"
  by (metis domI map_le_def)

section \<open>Entries and their slots\<close>

lemma entry_size_at: "entry_at mem p k v \<Longrightarrow> entry_size mem p = required_size (length k) (length v)"
  by (simp add: entry_size_def entry_at_sizes)

lemma shard_okD:
  assumes "shard_ok mem sh" and "um_find k (sh_map sh) = Some p"
  obtains v where "entry_at mem p k v" and "required_size (length k) (length v) \<le> kMaxSlotSize"
proof -
  have "(k, p) \<in> set (sh_map sh)" using assms(2) by (rule um_find_SomeD)
  with assms(1) have "\<exists>v. entry_at mem p k v \<and> required_size (length k) (length v) \<le> kMaxSlotSize"
    unfolding shard_ok_def by blast
  with that show thesis by blast
qed

lemma um_values:
  assumes "um_ok m"
  shows "q \<in> snd ` set m \<longleftrightarrow> (\<exists>k. um_find k m = Some q)"
proof
  assume "q \<in> snd ` set m"
  then obtain k where "(k, q) \<in> set m" by auto
  then show "\<exists>k. um_find k m = Some q" using um_find_mem [OF assms] by blast
next
  assume "\<exists>k. um_find k m = Some q"
  then obtain k where "(k, q) \<in> set m" using um_find_mem [OF assms] by blast
  then show "q \<in> snd ` set m" by force
qed

lemma ptrs_find: "shard_ok mem sh \<Longrightarrow> p \<in> shard_ptrs sh \<longleftrightarrow> (\<exists>k. um_find k (sh_map sh) = Some p)"
  by (simp add: um_values shard_ptrs_def shard_ok_def)

lemma entry_in_slot:
  assumes "entry_at mem p k v" and "required_size (length k) (length v) \<le> kMaxSlotSize"
    and "i < required_size (length k) (length v)"
  shows "p + i \<in> slot_extent (entry_slot mem p)"
  using assms class_for_size_fits(1) [OF assms(2)]
  by (simp add: slot_extent_def entry_slot_def entry_size_at)

lemma header_in_slot:
  assumes "entry_at mem p k v" and "required_size (length k) (length v) \<le> kMaxSlotSize"
  shows "p + 8 \<in> slot_extent (entry_slot mem p)"
  by (rule entry_in_slot [OF assms]) (simp add: required_size_def kEntryHeader_def)

lemma find_inj:
  assumes "shard_ok mem sh" and "um_find k (sh_map sh) = Some p" and "um_find k' (sh_map sh) = Some p"
  shows "k = k'"
proof -
  have "(k, p) \<in> set (sh_map sh)" "(k', p) \<in> set (sh_map sh)" using assms(2,3) by (auto dest: um_find_SomeD)
  moreover have "inj_on snd (set (sh_map sh))" using assms(1) by (simp add: shard_ok_def)
  ultimately show ?thesis using inj_onD [of snd "set (sh_map sh)" "(k, p)" "(k', p)"] by simp
qed

lemma entry_slot_cong:
  assumes "entry_at mem p k v" and "entry_at mem' p k v"
  shows "entry_slot mem' p = entry_slot mem p"
  using assms by (simp add: entry_slot_def entry_size_at)

section \<open>Changing access bits\<close>

lemma bits_entry_at:
  assumes w: "shard_work foreign sa sh mem" and k: "um_find k (sh_map sh) = Some p"
    and e: "entry_at mem p k v" "required_size (length k) (length v) \<le> kMaxSlotSize"
    and bits: "\<And>a. a \<notin> (\<lambda>q. q + 8) ` shard_ptrs sh \<Longrightarrow> mem' a = mem a"
  shows "entry_at mem' p k v"
proof (rule entry_at_cong [OF e(1)])
  fix i assume i: "i < required_size (length k) (length v)" "i \<noteq> 8"
  have ok: "shard_ok mem sh" and sa: "sa_ok sa (foreign \<union> shard_slots mem sh)" using w by (auto simp: shard_work_def)
  have "p + i \<noteq> q + 8" if q: "q \<in> shard_ptrs sh" for q
  proof (cases "q = p")
    case False
    obtain k' v' where "entry_at mem q k' v'" "required_size (length k') (length v') \<le> kMaxSlotSize"
      using q ptrs_find [OF ok] shard_okD [OF ok] by metis
    from header_in_slot [OF this] have "q + 8 \<in> slot_extent (entry_slot mem q)" .
    moreover have "p + i \<in> slot_extent (entry_slot mem p)" by (rule entry_in_slot [OF e i(1)])
    moreover have "entry_slot mem p \<noteq> entry_slot mem q" using False by (simp add: entry_slot_def)
    moreover have "p \<in> shard_ptrs sh" using k ptrs_find [OF ok] by blast
    ultimately show ?thesis
      using slab.extents_disjoint [OF sa, of "entry_slot mem p" "entry_slot mem q"] q by (auto simp: shard_slots_def)
  qed (use i in simp)
  then show "mem' (p + i) = mem (p + i)" by (intro bits) auto
qed

lemma bits_shard_work:
  assumes w: "shard_work foreign sa sh mem"
    and bits: "\<And>a. a \<notin> (\<lambda>q. q + 8) ` shard_ptrs sh \<Longrightarrow> mem' a = mem a"
  shows "shard_work foreign sa sh mem'" and "shard_view mem' sh = shard_view mem sh"
    and "shard_slots mem' sh = shard_slots mem sh" and "same_slots foreign mem mem'"
proof -
  have ok: "shard_ok mem sh" and sa: "sa_ok sa (foreign \<union> shard_slots mem sh)"
    and disj: "foreign \<inter> shard_slots mem sh = {}" using w by (auto simp: shard_work_def)
  have ex: "\<exists>v. entry_at mem p k v \<and> entry_at mem' p k v \<and> required_size (length k) (length v) \<le> kMaxSlotSize"
    if "um_find k (sh_map sh) = Some p" for k p
    using shard_okD [OF ok that] bits_entry_at [OF w that _ _ bits] by metis
  have slot: "entry_slot mem' p = entry_slot mem p" if "p \<in> shard_ptrs sh" for p
    using that ptrs_find [OF ok] ex entry_slot_cong by metis
  then show slots: "shard_slots mem' sh = shard_slots mem sh" by (simp add: shard_slots_def)
  show "shard_view mem' sh = shard_view mem sh"
  proof
    fix k
    show "shard_view mem' sh k = shard_view mem sh k"
      using ex [of k] entry_at_value by (cases "um_find k (sh_map sh)") (auto simp: shard_view_def)
  qed
  have "shard_ok mem' sh"
    using ok ex unfolding shard_ok_def by (auto simp: um_find_mem) blast
  with sa disj slots show "shard_work foreign sa sh mem'" by (simp add: shard_work_def)
  have "a \<notin> (\<lambda>q. q + 8) ` shard_ptrs sh" if s: "s \<in> foreign" "a \<in> slot_extent s" for s a
  proof
    assume "a \<in> (\<lambda>q. q + 8) ` shard_ptrs sh"
    then obtain q where q: "q \<in> shard_ptrs sh" and a: "a = q + 8" by auto
    obtain k' v' where "entry_at mem q k' v'" "required_size (length k') (length v') \<le> kMaxSlotSize"
      using q ptrs_find [OF ok] shard_okD [OF ok] by metis
    from header_in_slot [OF this] have "a \<in> slot_extent (entry_slot mem q)" by (simp add: a)
    moreover have "entry_slot mem q \<in> shard_slots mem sh" using q by (simp add: shard_slots_def)
    ultimately show False using slab.extents_disjoint [OF sa, of s "entry_slot mem q"] s disj by blast
  qed
  then show "same_slots foreign mem mem'" using bits by (auto simp: same_slots_def)
qed

section \<open>Removing an entry\<close>

abbreviation without :: "shard \<Rightarrow> clock_evictor \<Rightarrow> string \<Rightarrow> shard" where
  "without sh ev k \<equiv> sh\<lparr>sh_evictor := ev, sh_map := um_erase k (sh_map sh)\<rparr>"

lemma remove_shard_work:
  assumes w: "shard_work foreign sa sh mem" and k: "um_find k (sh_map sh) = Some p"
    and ev: "ce_ok ev" "set (ce_ring ev) = shard_ptrs sh - {p}"
  shows "shard_work foreign (deallocate sa (Some p) (entry_size mem p))
      (without sh ev k) mem"
    and "shard_view mem (without sh ev k) = (shard_view mem sh)(k := None)"
    and "fst ` set (sh_map (without sh ev k)) = fst ` set (sh_map sh) - {k}"
proof -
  let ?sh = "without sh ev k"
  have ok: "shard_ok mem sh" and sa: "sa_ok sa (foreign \<union> shard_slots mem sh)"
    and disj: "foreign \<inter> shard_slots mem sh = {}" using w by (auto simp: shard_work_def)
  have p: "p \<in> shard_ptrs sh" using k ptrs_find [OF ok] by blast
  have sub: "set (um_erase k (sh_map sh)) \<subseteq> set (sh_map sh)" by (auto simp: um_erase_def AList.delete_eq)
  have um: "um_ok (sh_map sh)" "um_ok (um_erase k (sh_map sh))" using ok by (auto simp: shard_ok_def)
  have find: "um_find k' (sh_map ?sh) = (if k' = k then None else um_find k' (sh_map sh))" for k' by simp
  have ptr_iff: "q \<in> shard_ptrs ?sh \<longleftrightarrow> (\<exists>k'. um_find k' (sh_map ?sh) = Some q)" for q
    using um_values [OF um(2)] by (simp add: shard_ptrs_def)
  have ptrs: "shard_ptrs ?sh = shard_ptrs sh - {p}"
  proof (rule set_eqI)
    fix q
    have "q \<in> shard_ptrs ?sh \<longleftrightarrow> (\<exists>k'. k' \<noteq> k \<and> um_find k' (sh_map sh) = Some q)"
      unfolding ptr_iff find by auto
    also have "\<dots> \<longleftrightarrow> (\<exists>k'. um_find k' (sh_map sh) = Some q) \<and> q \<noteq> p"
      using find_inj [OF ok k] k by (metis option.inject)
    finally show "q \<in> shard_ptrs ?sh \<longleftrightarrow> q \<in> shard_ptrs sh - {p}" using ptrs_find [OF ok] by simp
  qed
  have "shard_ok mem ?sh"
    using ok um(2) ev ptrs sub by (auto simp: shard_ok_def intro: inj_on_subset)
  moreover have slots: "shard_slots mem ?sh = shard_slots mem sh - {entry_slot mem p}"
    using ptrs by (auto simp: shard_slots_def entry_slot_def)
  moreover have "sa_ok (deallocate sa (Some p) (entry_size mem p)) ((foreign \<union> shard_slots mem sh) - {entry_slot mem p})"
    using slab.dealloc_ok [OF sa, of p "entry_size mem p"] p by (auto simp: shard_slots_def entry_slot_def)
  moreover have "entry_slot mem p \<notin> foreign" using disj p by (auto simp: shard_slots_def)
  ultimately show "shard_work foreign (deallocate sa (Some p) (entry_size mem p)) ?sh mem"
    using disj by (auto simp: shard_work_def Un_Diff)
  show "shard_view mem ?sh = (shard_view mem sh)(k := None)" by (auto simp: shard_view_def)
  show "fst ` set (sh_map ?sh) = fst ` set (sh_map sh) - {k}" by simp
qed

lemma drop_entry_work:
  assumes w: "shard_work foreign sa sh mem" and k: "um_find k (sh_map sh) = Some p"
    and d: "drop_entry sa sh mem k p = (sa', sh')"
  shows "shard_work foreign sa' sh' mem" and "shard_view mem sh' = (shard_view mem sh)(k := None)"
    and "fst ` set (sh_map sh') = fst ` set (sh_map sh) - {k}"
proof -
  have ok: "shard_ok mem sh" using w by (simp add: shard_work_def)
  then have "ce_ok (untrack (sh_evictor sh) p)" "set (ce_ring (untrack (sh_evictor sh) p)) = shard_ptrs sh - {p}"
    using untrack_ok [of "sh_evictor sh" p] by (auto simp: shard_ok_def)
  note r = remove_shard_work [OF w k this]
  have "sa' = deallocate sa (Some p) (entry_size mem p)"
    and "sh' = sh\<lparr>sh_evictor := untrack (sh_evictor sh) p, sh_map := um_erase k (sh_map sh)\<rparr>"
    using d by (auto simp: drop_entry_def Let_def)
  with r show "shard_work foreign sa' sh' mem" "shard_view mem sh' = (shard_view mem sh)(k := None)"
    "fst ` set (sh_map sh') = fst ` set (sh_map sh) - {k}" by simp_all
qed

lemma evict_work:
  assumes w: "shard_work foreign sa sh mem" and ne: "ce_ring (sh_evictor sh) \<noteq> []"
  obtains ev mem' victim k where "evict_one (sh_evictor sh) mem = (ev, mem', Some victim)"
    and "entry_key mem' victim = k" and "um_find k (sh_map sh) = Some victim"
    and "shard_work foreign (deallocate sa (Some victim) (entry_size mem' victim))
      (without sh ev k) mem'"
    and "shard_view mem' (without sh ev k) = (shard_view mem sh)(k := None)"
    and "same_slots foreign mem mem'"
proof -
  have ok: "shard_ok mem sh" using w by (simp add: shard_work_def)
  then have ce: "ce_ok (sh_evictor sh)" and ring: "set (ce_ring (sh_evictor sh)) = shard_ptrs sh"
    by (simp_all add: shard_ok_def)
  obtain victim mem' where sc: "second_chance (clock_order (sh_evictor sh)) mem = (victim, mem')" by fastforce
  from evict_one_second_chance [OF ce ne sc] ring obtain ev where
    e: "evict_one (sh_evictor sh) mem = (ev, mem', Some victim)" "ce_ok ev"
    and v: "victim \<in> shard_ptrs sh" "set (ce_ring ev) = shard_ptrs sh - {victim}" by auto
  have "mem' a = mem a" if "a \<notin> (\<lambda>q. q + 8) ` shard_ptrs sh" for a
    using sc that ring by (auto simp: second_chance_def clear_bits_apply clock_order_def dest!: set_takeWhileD)
  note b = bits_shard_work [OF w this]
  have ok': "shard_ok mem' sh" using b(1) by (simp add: shard_work_def)
  from v(1) obtain k where k: "um_find k (sh_map sh) = Some victim" using ptrs_find [OF ok] by blast
  then obtain x where "entry_at mem' victim k x" using shard_okD [OF ok'] by metis
  then have "entry_key mem' victim = k" by (rule entry_at_key)
  moreover note remove_shard_work [OF b(1) k e(2) v(2)]
  ultimately show thesis using that e(1) k b(2,4) by metis
qed

section \<open>The allocation loop\<close>

lemma same_slots_trans: "same_slots F m1 m2 \<Longrightarrow> same_slots F m2 m3 \<Longrightarrow> same_slots F m1 m3"
  by (simp add: same_slots_def)

lemma same_slots_refl [simp]: "same_slots F m m"
  by (simp add: same_slots_def)

definition loop_result :: "slot set \<Rightarrow> nat \<Rightarrow> slab_allocator \<Rightarrow> shard \<Rightarrow> mem \<Rightarrow> nat option \<Rightarrow> bool" where
  "loop_result foreign n sa sh mem ptr \<longleftrightarrow>
     (case ptr of
        None \<Rightarrow> shard_work foreign sa sh mem
      | Some p \<Rightarrow> \<exists>sa0. shard_work foreign sa0 sh mem \<and> allocate sa0 n = (sa, Some p))"

lemma put_loop_work:
  assumes "shard_work foreign sa sh mem" and "put_loop attempts n sa sh mem = (sa', sh', mem', ptr)"
  shows "loop_result foreign n sa' sh' mem' ptr \<and> shard_view mem' sh' \<subseteq>\<^sub>m shard_view mem sh \<and>
    fst ` set (sh_map sh') \<subseteq> fst ` set (sh_map sh) \<and> same_slots foreign mem mem'"
  using assms
proof (induction attempts arbitrary: sa sh mem)
  case 0
  then show ?case by (simp add: loop_result_def)
next
  case (Suc attempts)
  note w = Suc.prems(1)
  obtain sa1 q where a: "allocate sa n = (sa1, q)" by fastforce
  show ?case
  proof (cases q)
    case (Some p)
    then show ?thesis using Suc.prems a by (auto simp: loop_result_def)
  next
    case None
    have w1: "shard_work foreign sa1 sh mem"
      using w a None slab.alloc_None by (auto simp: shard_work_def)
    show ?thesis
    proof (cases "ce_ring (sh_evictor sh) = []")
      case True
      then have "evict_one (sh_evictor sh) mem = (sh_evictor sh, mem, None)" by (simp add: evict_one_def)
      then show ?thesis using Suc.prems a None w1 by (auto simp: loop_result_def)
    next
      case False
      from evict_work [OF w1 False] obtain ev mem1 victim k where
        e: "evict_one (sh_evictor sh) mem = (ev, mem1, Some victim)" "entry_key mem1 victim = k"
          "um_find k (sh_map sh) = Some victim"
        and w2: "shard_work foreign (deallocate sa1 (Some victim) (entry_size mem1 victim))
          (without sh ev k) mem1"
        and v2: "shard_view mem1 (without sh ev k) = (shard_view mem sh)(k := None)"
        and s2: "same_slots foreign mem mem1" .
      have "put_loop attempts n (deallocate sa1 (Some victim) (entry_size mem1 victim))
          (without sh ev k) mem1 = (sa', sh', mem', ptr)"
        using Suc.prems(2) a None e by (simp add: Let_def)
      from Suc.IH [OF w2 this] have ih: "loop_result foreign n sa' sh' mem' ptr"
        "shard_view mem' sh' \<subseteq>\<^sub>m (shard_view mem sh)(k := None)"
        "fst ` set (sh_map sh') \<subseteq> fst ` set (sh_map sh) - {k}" "same_slots foreign mem1 mem'"
        by (simp_all add: v2 del: fun_upd_apply)
      have "shard_view mem' sh' \<subseteq>\<^sub>m shard_view mem sh" using ih(2) upd_None_map_le by (rule map_le_trans)
      with ih(1,3) same_slots_trans [OF s2 ih(4)] show ?thesis by blast
    qed
  qed
qed

section \<open>Inserting an entry\<close>

abbreviation with_entry :: "shard \<Rightarrow> string \<Rightarrow> nat \<Rightarrow> shard" where
  "with_entry sh k p \<equiv> sh\<lparr>sh_map := um_set k p (sh_map sh), sh_evictor := track (sh_evictor sh) p\<rparr>"

lemma with_entry_keys:
  "\<forall>j \<in> fst ` set (sh_map sh). P j \<Longrightarrow> P k \<Longrightarrow> \<forall>j \<in> fst ` set (sh_map (with_entry sh k p)). P j"
proof -
  have "fst ` set (sh_map (with_entry sh k p)) = insert k (fst ` set (sh_map sh))" by simp
  moreover assume "\<forall>j \<in> fst ` set (sh_map sh). P j" and "P k"
  ultimately show ?thesis by (metis insertE)
qed

lemma same_slots_shard:
  assumes ok: "shard_ok mem sh" and same: "same_slots S mem mem'" and sub: "shard_slots mem sh \<subseteq> S"
  shows "shard_ok mem' sh" and "shard_slots mem' sh = shard_slots mem sh" and "shard_view mem' sh = shard_view mem sh"
proof -
  have ex: "\<exists>v. entry_at mem p k v \<and> entry_at mem' p k v \<and> required_size (length k) (length v) \<le> kMaxSlotSize"
    if k: "um_find k (sh_map sh) = Some p" for k p
  proof -
    from shard_okD [OF ok k] obtain v where e: "entry_at mem p k v" "required_size (length k) (length v) \<le> kMaxSlotSize" .
    have "entry_slot mem p \<in> S" using sub k ptrs_find [OF ok, of p] by (auto simp: shard_slots_def)
    then have "entry_at mem' p k v"
      using same entry_in_slot [OF e] by (intro entry_at_cong [OF e(1)]) (auto simp: same_slots_def)
    with e show ?thesis by blast
  qed
  have "entry_slot mem' p = entry_slot mem p" if "p \<in> shard_ptrs sh" for p
    using that ptrs_find [OF ok] ex entry_slot_cong by metis
  then show "shard_slots mem' sh = shard_slots mem sh" by (simp add: shard_slots_def)
  show "shard_view mem' sh = shard_view mem sh"
  proof
    fix k
    show "shard_view mem' sh k = shard_view mem sh k"
      using ex [of k] entry_at_value by (cases "um_find k (sh_map sh)") (auto simp: shard_view_def)
  qed
  show "shard_ok mem' sh"
    using ok ex unfolding shard_ok_def by (auto simp: um_find_mem) blast
qed

lemma insert_memory:
  assumes sa: "sa_ok sa0 U" and a: "allocate sa0 (required_size (length k) (length v)) = (sa, Some p)"
  shows "same_slots U mem (init_at mem p k v)" and "entry_at (init_at mem p k v) p k v"
    and "required_size (length k) (length v) \<le> kMaxSlotSize"
    and "entry_slot (init_at mem p k v) p = (p, class_for_size (required_size (length k) (length v)))"
proof -
  let ?n = "required_size (length k) (length v)"
  show n: "?n \<le> kMaxSlotSize" using slab.alloc_Some [OF sa a] by blast
  have "x < p \<or> p + ?n \<le> x" if "s \<in> U" "x \<in> slot_extent s" for s x
  proof (rule ccontr)
    assume "\<not> (x < p \<or> p + ?n \<le> x)"
    then have "p \<le> x" and "x - p < ?n" by auto
    from slab.alloc_fresh(1) [OF sa a that(1) this(2)] \<open>p \<le> x\<close> that(2) show False by simp
  qed
  then show "same_slots U mem (init_at mem p k v)" by (simp add: same_slots_def init_at_frame)
  have "length k < 2 ^ 32" "length v < 2 ^ 32" using n by (simp_all add: required_size_def kMaxSlotSize_def)
  then show e: "entry_at (init_at mem p k v) p k v" by (rule entry_at_init)
  show "entry_slot (init_at mem p k v) p = (p, class_for_size ?n)"
    by (simp add: entry_slot_def entry_size_at [OF e])
qed

lemma shard_ok_insert:
  assumes ok: "shard_ok mem sh" and k: "um_find k (sh_map sh) = None" and p: "p \<notin> shard_ptrs sh"
    and e: "entry_at mem p k v" "required_size (length k) (length v) \<le> kMaxSlotSize"
  shows "shard_ok mem (with_entry sh k p)" and "shard_ptrs (with_entry sh k p) = insert p (shard_ptrs sh)"
proof -
  let ?sh = "with_entry sh k p"
  have um: "um_ok (sh_map sh)" "um_ok (um_set k p (sh_map sh))" using ok by (simp_all add: shard_ok_def)
  have sets: "set (um_set k p (sh_map sh)) = insert (k, p) (set (sh_map sh))"
  proof (rule set_eqI, clarify)
    fix k' q
    show "(k', q) \<in> set (um_set k p (sh_map sh)) \<longleftrightarrow> (k', q) \<in> insert (k, p) (set (sh_map sh))"
      using k by (auto simp: um_find_mem [OF um(1)] um_find_mem [OF um(2)] split: if_splits)
  qed
  show ptrs: "shard_ptrs ?sh = insert p (shard_ptrs sh)" by (simp add: shard_ptrs_def sets)
  have "ce_ok (track (sh_evictor sh) p)" using ok p by (intro track_ok) (auto simp: shard_ok_def)
  moreover have "set (ce_ring (track (sh_evictor sh) p)) = insert p (shard_ptrs sh)"
    using ok by (simp add: track_def shard_ok_def)
  moreover have "inj_on snd (insert (k, p) (set (sh_map sh)))"
    using ok p by (auto simp: shard_ok_def shard_ptrs_def)
  moreover have "\<forall>(k, p) \<in> insert (k, p) (set (sh_map sh)). \<exists>v. entry_at mem p k v \<and> required_size (length k) (length v) \<le> kMaxSlotSize"
    using ok e by (auto simp: shard_ok_def)
  ultimately show "shard_ok mem ?sh" unfolding shard_ok_def ptrs using um(2) by (simp add: sets)
qed

lemma insert_work:
  assumes w: "shard_work foreign sa0 sh mem" and k: "um_find k (sh_map sh) = None"
    and a: "allocate sa0 (required_size (length k) (length v)) = (sa, Some p)"
  shows "shard_work foreign sa (with_entry sh k p) (init_at mem p k v)"
    and "shard_view (init_at mem p k v) (with_entry sh k p) = (shard_view mem sh)(k \<mapsto> v)"
    and "same_slots foreign mem (init_at mem p k v)"
proof -
  let ?sh = "with_entry sh k p" and ?mem = "init_at mem p k v"
  let ?U = "foreign \<union> shard_slots mem sh" and ?s = "(p, class_for_size (required_size (length k) (length v)))"
  have ok: "shard_ok mem sh" and sa: "sa_ok sa0 ?U" and disj: "foreign \<inter> shard_slots mem sh = {}"
    using w by (auto simp: shard_work_def)
  note m = insert_memory(1,2) [OF sa a, of mem] insert_memory(3) [OF sa a] insert_memory(4) [OF sa a, of mem]
  show "same_slots foreign mem ?mem" using m(1) by (auto simp: same_slots_def)
  have same: "same_slots (shard_slots mem sh) mem ?mem" using m(1) by (auto simp: same_slots_def)
  note s = same_slots_shard [OF ok same subset_refl]
  have new: "?s \<notin> ?U" and sa': "sa_ok sa (insert ?s ?U)" using slab.alloc_Some [OF sa a] by auto
  have p: "p \<notin> shard_ptrs sh"
  proof
    assume "p \<in> shard_ptrs sh"
    then have "entry_slot mem p \<in> ?U" by (simp add: shard_slots_def)
    moreover have "p + 0 \<in> slot_extent (entry_slot mem p)" by (simp add: slot_extent_def entry_slot_def)
    moreover have "0 < required_size (length k) (length v)" by (simp add: required_size_def kEntryHeader_def)
    ultimately show False using slab.alloc_fresh(1) [OF sa a] by blast
  qed
  note i = shard_ok_insert [OF s(1) k p m(2,3)]
  have slots: "shard_slots ?mem ?sh = insert ?s (shard_slots mem sh)"
    using s(2) by (simp add: shard_slots_def i(2) m(4))
  show "shard_work foreign sa ?sh ?mem"
    using i(1) sa' new disj by (simp add: shard_work_def slots)
  show "shard_view ?mem ?sh = (shard_view mem sh)(k \<mapsto> v)"
    using s(3) entry_at_value [OF m(2)] by (auto simp: shard_view_def fun_eq_iff)
qed

section \<open>From one shard to the store\<close>

abbreviation nth_slots :: "local_store \<Rightarrow> nat \<Rightarrow> slot set" where
  "nth_slots ls i \<equiv> shard_slots (ls_mem ls) (ls_shards ls ! i)"

lemma foreign_Un: "i < length (ls_shards ls) \<Longrightarrow>
    foreign_slots ls i \<union> nth_slots ls i = (\<Union>j < length (ls_shards ls). nth_slots ls j)"
  by (auto simp: foreign_slots_def)

lemma foreign_Int: "foreign_slots ls i \<inter> nth_slots ls i = {} \<longleftrightarrow>
    (\<forall>j < length (ls_shards ls). j \<noteq> i \<longrightarrow> nth_slots ls j \<inter> nth_slots ls i = {})"
  by (auto simp: foreign_slots_def)

lemma all_less_split: "0 < (n::nat) \<Longrightarrow>
    (\<forall>i<n. (A i \<and> B \<and> C i) \<and> D i) \<longleftrightarrow> (\<forall>i<n. A i) \<and> (\<forall>i<n. D i) \<and> (\<forall>i<n. C i) \<and> B"
  by blast

lemma ls_ok_iff:
  "ls_ok ls \<longleftrightarrow>
     ls_shards ls \<noteq> [] \<and>
     (\<forall>i < length (ls_shards ls). shard_ok (ls_mem ls) (ls_shards ls ! i)) \<and>
     (\<forall>i < length (ls_shards ls). \<forall>k \<in> fst ` set (sh_map (ls_shards ls ! i)). shard_for ls k = i) \<and>
     (\<forall>i < length (ls_shards ls). \<forall>j < length (ls_shards ls). j \<noteq> i \<longrightarrow> nth_slots ls j \<inter> nth_slots ls i = {}) \<and>
     sa_ok (ls_allocator ls) (\<Union>j < length (ls_shards ls). nth_slots ls j)"
proof (cases "ls_shards ls = []")
  case True
  then show ?thesis by (simp add: ls_ok_def)
next
  case False
  then have "0 < length (ls_shards ls)" by simp
  moreover have "shard_work (foreign_slots ls i) (ls_allocator ls) (ls_shards ls ! i) (ls_mem ls) \<longleftrightarrow>
      shard_ok (ls_mem ls) (ls_shards ls ! i) \<and>
      sa_ok (ls_allocator ls) (\<Union>j < length (ls_shards ls). nth_slots ls j) \<and>
      (\<forall>j < length (ls_shards ls). j \<noteq> i \<longrightarrow> nth_slots ls j \<inter> nth_slots ls i = {})"
    if "i < length (ls_shards ls)" for i
    unfolding shard_work_def foreign_Un [OF that] foreign_Int ..
  then have "ls_ok ls \<longleftrightarrow> (\<forall>i < length (ls_shards ls).
      (shard_ok (ls_mem ls) (ls_shards ls ! i) \<and>
       sa_ok (ls_allocator ls) (\<Union>j < length (ls_shards ls). nth_slots ls j) \<and>
       (\<forall>j < length (ls_shards ls). j \<noteq> i \<longrightarrow> nth_slots ls j \<inter> nth_slots ls i = {})) \<and>
      (\<forall>k \<in> fst ` set (sh_map (ls_shards ls ! i)). shard_for ls k = i))"
    using False unfolding ls_ok_def by (simp only: cong: imp_cong) simp
  ultimately show ?thesis using False by (simp only: all_less_split) simp
qed

definition set_shard :: "local_store \<Rightarrow> nat \<Rightarrow> slab_allocator \<Rightarrow> shard \<Rightarrow> mem \<Rightarrow> local_store" where
  "set_shard ls i sa sh mem = ls\<lparr>ls_allocator := sa, ls_shards := (ls_shards ls)[i := sh], ls_mem := mem\<rparr>"

lemma shard_for_set_shard [simp]: "shard_for (set_shard ls i sa sh mem) k = shard_for ls k"
  by (simp add: shard_for_def set_shard_def)

lemma shard_for_less: "ls_ok ls \<Longrightarrow> shard_for ls k < length (ls_shards ls)"
  by (simp add: shard_for_def ls_ok_def)

lemma lift_shard:
  assumes ok: "ls_ok ls" and i: "i < length (ls_shards ls)"
    and w: "shard_work (foreign_slots ls i) sa sh mem" and same: "same_slots (foreign_slots ls i) (ls_mem ls) mem"
    and keys: "\<forall>k \<in> fst ` set (sh_map sh). shard_for ls k = i"
  shows "ls_ok (set_shard ls i sa sh mem)"
    and "ls_view (set_shard ls i sa sh mem) k = (if shard_for ls k = i then shard_view mem sh k else ls_view ls k)"
proof -
  let ?ls = "set_shard ls i sa sh mem" and ?n = "length (ls_shards ls)"
  note ok' = ok [unfolded ls_ok_iff]
  have other: "shard_ok mem (ls_shards ls ! j) \<and> shard_slots mem (ls_shards ls ! j) = nth_slots ls j \<and>
      shard_view mem (ls_shards ls ! j) = shard_view (ls_mem ls) (ls_shards ls ! j)" if "j < ?n" "j \<noteq> i" for j
  proof -
    have "nth_slots ls j \<subseteq> foreign_slots ls i" using that by (auto simp: foreign_slots_def)
    with same_slots_shard [OF _ same this] ok' that(1) show ?thesis by blast
  qed
  have nth: "ls_shards ?ls ! j = (if j = i then sh else ls_shards ls ! j)" "length (ls_shards ?ls) = ?n"
    "ls_mem ?ls = mem" "ls_allocator ?ls = sa" for j using i by (simp_all add: set_shard_def)
  have slots: "nth_slots ?ls j = (if j = i then shard_slots mem sh else nth_slots ls j)" if "j < ?n" for j
    using other [OF that] by (simp add: nth)
  have foreign: "foreign_slots ?ls i = foreign_slots ls i" using slots by (auto simp: foreign_slots_def nth(2))
  have "sa_ok sa (\<Union>j < ?n. nth_slots ?ls j)"
    using w foreign_Un [of i ?ls] i slots [OF i] unfolding foreign by (simp add: shard_work_def nth(2))
  moreover have disj: "nth_slots ?ls j \<inter> nth_slots ?ls i = {}" if "j < ?n" "j \<noteq> i" for j
    using w foreign_Int [of ?ls i] that slots [OF i] unfolding foreign by (simp add: shard_work_def nth(2))
  moreover have "nth_slots ?ls j \<inter> nth_slots ?ls l = {}" if "j < ?n" "l < ?n" "j \<noteq> l" for j l
    using disj [of j] disj [of l] that ok' slots [OF that(1)] slots [OF that(2)] by (cases "j = i"; cases "l = i") auto
  moreover have "shard_ok mem (ls_shards ?ls ! j)" if "j < ?n" for j
    using other [OF that] w by (simp add: nth(1) shard_work_def)
  moreover have "\<forall>k \<in> fst ` set (sh_map (ls_shards ?ls ! j)). shard_for ls k = j" if "j < ?n" for j
    using keys ok' that unfolding nth(1) by (cases "j = i") simp_all
  moreover have "ls_shards ?ls \<noteq> []" using i nth(2) by (metis length_0_conv less_nat_zero_code)
  ultimately show "ls_ok ?ls"
    unfolding ls_ok_iff nth(2-4) shard_for_set_shard by blast
  show "ls_view ?ls k = (if shard_for ls k = i then shard_view mem sh k else ls_view ls k)"
    using other [of "shard_for ls k"] shard_for_less [OF ok] by (simp add: ls_view_def nth)
qed

lemma ls_ok_shard: "ls_ok ls \<Longrightarrow> i < length (ls_shards ls) \<Longrightarrow>
    shard_work (foreign_slots ls i) (ls_allocator ls) (ls_shards ls ! i) (ls_mem ls) \<and>
    (\<forall>k \<in> fst ` set (sh_map (ls_shards ls ! i)). shard_for ls k = i)"
  by (simp add: ls_ok_def)

section \<open>The operations of the store\<close>

lemma ls_get_sim:
  assumes ok: "ls_ok ls" and g: "ls_get ls k = (ls', r)"
  shows "ls_ok ls'" and "ls_view ls' = ls_view ls" and "r = ls_view ls k"
proof -
  let ?i = "shard_for ls k" and ?sh = "ls_shards ls ! shard_for ls k"
  have i: "?i < length (ls_shards ls)" by (rule shard_for_less [OF ok])
  have w: "shard_work (foreign_slots ls ?i) (ls_allocator ls) ?sh (ls_mem ls)"
    and keys: "\<forall>k \<in> fst ` set (sh_map ?sh). shard_for ls k = ?i" using ls_ok_shard [OF ok i] by auto
  have "ls_ok ls' \<and> ls_view ls' = ls_view ls \<and> r = ls_view ls k"
  proof (cases "um_find k (sh_map ?sh)")
    case None
    then show ?thesis using g ok by (auto simp: ls_get_def ls_view_def shard_view_def)
  next
    case (Some p)
    let ?mem = "set_access_bit (ls_mem ls) p 1"
    have p: "p \<in> shard_ptrs ?sh" using w Some ptrs_find by (auto simp: shard_work_def)
    have "?mem a = ls_mem ls a" if "a \<notin> (\<lambda>q. q + 8) ` shard_ptrs ?sh" for a
      using that p by (auto simp: set_access_bit_def)
    note b = bits_shard_work [OF w this]
    have ls': "ls' = set_shard ls ?i (ls_allocator ls) ?sh ?mem" and r: "r = shard_view ?mem ?sh k"
      using g Some i by (auto simp: ls_get_def set_shard_def shard_view_def Let_def)
    note l = lift_shard [OF ok i b(1) b(4) keys, folded ls']
    have "ls_view ls' = ls_view ls" using l(2) b(2) by (auto simp: fun_eq_iff ls_view_def)
    with l(1) r b(2) show ?thesis by (simp add: ls_view_def)
  qed
  then show "ls_ok ls'" "ls_view ls' = ls_view ls" "r = ls_view ls k" by auto
qed

lemma ls_del_sim:
  assumes ok: "ls_ok ls" and d: "ls_del ls k = (ls', b)"
  shows "ls_ok ls'" and "ls_view ls' = (ls_view ls)(k := None)" and "b \<longleftrightarrow> ls_view ls k \<noteq> None"
proof -
  let ?i = "shard_for ls k" and ?sh = "ls_shards ls ! shard_for ls k"
  have i: "?i < length (ls_shards ls)" by (rule shard_for_less [OF ok])
  have w: "shard_work (foreign_slots ls ?i) (ls_allocator ls) ?sh (ls_mem ls)"
    and keys: "\<forall>k \<in> fst ` set (sh_map ?sh). shard_for ls k = ?i" using ls_ok_shard [OF ok i] by auto
  have "ls_ok ls' \<and> ls_view ls' = (ls_view ls)(k := None) \<and> (b \<longleftrightarrow> ls_view ls k \<noteq> None)"
  proof (cases "um_find k (sh_map ?sh)")
    case None
    then show ?thesis using d ok by (auto simp: ls_del_def ls_view_def shard_view_def fun_eq_iff)
  next
    case (Some p)
    obtain sa sh where e: "drop_entry (ls_allocator ls) ?sh (ls_mem ls) k p = (sa, sh)" by fastforce
    note r = drop_entry_work [OF w Some e]
    have ls': "ls' = set_shard ls ?i sa sh (ls_mem ls)" and b: "b" using d Some e by (auto simp: ls_del_def set_shard_def Let_def)
    have keys': "\<forall>k \<in> fst ` set (sh_map sh). shard_for ls k = ?i" using r(3) keys by blast
    note l = lift_shard [OF ok i r(1) same_slots_refl keys', folded ls']
    have "ls_view ls' = (ls_view ls)(k := None)" using l(2) r(2) by (auto simp: fun_eq_iff ls_view_def)
    with l(1) b Some show ?thesis by (simp add: ls_view_def shard_view_def)
  qed
  then show "ls_ok ls'" "ls_view ls' = (ls_view ls)(k := None)" "b \<longleftrightarrow> ls_view ls k \<noteq> None" by auto
qed

text \<open>The part of \<open>put\<close> before the allocation loop: the old entry of the key is dropped.\<close>

definition put_prepare :: "local_store \<Rightarrow> string \<Rightarrow> slab_allocator \<times> shard" where
  "put_prepare ls k =
     (let sh = ls_shards ls ! shard_for ls k
      in case um_find k (sh_map sh) of
           None \<Rightarrow> (ls_allocator ls, sh)
         | Some old \<Rightarrow> drop_entry (ls_allocator ls) sh (ls_mem ls) k old)"

lemma put_prepare_work:
  assumes ok: "ls_ok ls" and p: "put_prepare ls k = (sa, sh)"
  shows "shard_work (foreign_slots ls (shard_for ls k)) sa sh (ls_mem ls)"
    and "shard_view (ls_mem ls) sh = (shard_view (ls_mem ls) (ls_shards ls ! shard_for ls k))(k := None)"
    and "fst ` set (sh_map sh) = fst ` set (sh_map (ls_shards ls ! shard_for ls k)) - {k}"
proof -
  let ?i = "shard_for ls k" and ?sh = "ls_shards ls ! shard_for ls k"
  have w: "shard_work (foreign_slots ls ?i) (ls_allocator ls) ?sh (ls_mem ls)"
    using ls_ok_shard [OF ok shard_for_less [OF ok]] by blast
  have "shard_work (foreign_slots ls ?i) sa sh (ls_mem ls) \<and>
      shard_view (ls_mem ls) sh = (shard_view (ls_mem ls) ?sh)(k := None) \<and>
      fst ` set (sh_map sh) = fst ` set (sh_map ?sh) - {k}"
  proof (cases "um_find k (sh_map ?sh)")
    case None
    then have "sa = ls_allocator ls" and "sh = ?sh" using p by (simp_all add: put_prepare_def Let_def)
    moreover have "k \<notin> fst ` set (sh_map ?sh)" using None um_find_None_iff by metis
    ultimately show ?thesis using w None by (auto simp: shard_view_def fun_eq_iff)
  next
    case (Some old)
    then show ?thesis using p drop_entry_work [OF w Some] by (simp add: put_prepare_def Let_def)
  qed
  then show "shard_work (foreign_slots ls ?i) sa sh (ls_mem ls)"
    "shard_view (ls_mem ls) sh = (shard_view (ls_mem ls) ?sh)(k := None)"
    "fst ` set (sh_map sh) = fst ` set (sh_map ?sh) - {k}" by auto
qed

lemma ls_put_eq:
  "ls_put ls k v =
     (let (sa, sh) = put_prepare ls k;
          (sa, sh, mem, ptr) = put_loop 9 (required_size (length k) (length v)) sa sh (ls_mem ls)
      in case ptr of
           None \<Rightarrow> (set_shard ls (shard_for ls k) sa sh mem, False)
         | Some p \<Rightarrow> (set_shard ls (shard_for ls k) sa
             (sh\<lparr>sh_map := um_emplace k p (sh_map sh), sh_evictor := track (sh_evictor sh) p\<rparr>) (init_at mem p k v), True))"
  by (simp add: ls_put_def put_prepare_def set_shard_def kMaxEvictAttempts_def Let_def
      split: option.splits prod.splits)

lemma ls_put_sim:
  assumes ok: "ls_ok ls" and put: "ls_put ls k v = (ls', b)"
  shows "ls_ok ls'" and "ls_view ls' k = (if b then Some v else None)"
    and "(ls_view ls')(k := None) \<subseteq>\<^sub>m ls_view ls"
    and "shard_for ls k' \<noteq> shard_for ls k \<Longrightarrow> ls_view ls' k' = ls_view ls k'"
proof -
  let ?i = "shard_for ls k" and ?n = "required_size (length k) (length v)" and ?sh = "ls_shards ls ! shard_for ls k"
  have i: "?i < length (ls_shards ls)" by (rule shard_for_less [OF ok])
  have keys: "\<forall>k \<in> fst ` set (sh_map ?sh). shard_for ls k = ?i" using ls_ok_shard [OF ok i] by blast
  obtain sa1 sh1 where p: "put_prepare ls k = (sa1, sh1)" by fastforce
  note w1 = put_prepare_work [OF ok p]
  obtain sa2 sh2 mem2 ptr where l: "put_loop 9 ?n sa1 sh1 (ls_mem ls) = (sa2, sh2, mem2, ptr)" by (metis surj_pair)
  note w2 = put_loop_work [OF w1(1) l]
  have v2: "shard_view mem2 sh2 \<subseteq>\<^sub>m (shard_view (ls_mem ls) ?sh)(k := None)"
    and keys2: "fst ` set (sh_map sh2) \<subseteq> fst ` set (sh_map ?sh) - {k}"
    and same2: "same_slots (foreign_slots ls ?i) (ls_mem ls) mem2"
    using w2 w1(2,3) by (simp_all del: fun_upd_apply)
  have "k \<notin> fst ` set (sh_map sh2)" using keys2 by blast
  then have k2: "um_find k (sh_map sh2) = None" by (simp add: um_find_None_iff)
  obtain sa sh mem where ls': "ls' = set_shard ls ?i sa sh mem" and w: "shard_work (foreign_slots ls ?i) sa sh mem"
    and v: "shard_view mem sh = (shard_view mem2 sh2)(k := if b then Some v else None)"
    and same: "same_slots (foreign_slots ls ?i) (ls_mem ls) mem"
    and ks: "\<forall>k \<in> fst ` set (sh_map sh). shard_for ls k = ?i"
  proof (cases ptr)
    case None
    then have "ls' = set_shard ls ?i sa2 sh2 mem2" and "\<not> b" using put p l by (auto simp: ls_put_eq)
    moreover have "shard_view mem2 sh2 = (shard_view mem2 sh2)(k := None)" using k2 by (auto simp: shard_view_def fun_eq_iff)
    moreover have "shard_work (foreign_slots ls ?i) sa2 sh2 mem2" using w2 None by (simp add: loop_result_def)
    moreover have "\<forall>k \<in> fst ` set (sh_map sh2). shard_for ls k = ?i" using keys keys2 by blast
    ultimately show thesis by (intro that [of sa2 sh2 mem2] same2) simp_all
  next
    case (Some q)
    then obtain sa0 where w0: "shard_work (foreign_slots ls ?i) sa0 sh2 mem2" and a: "allocate sa0 ?n = (sa2, Some q)"
      using w2 by (auto simp: loop_result_def)
    note w3 = insert_work [OF w0 k2 a]
    have e: "ls' = set_shard ls ?i sa2 (with_entry sh2 k q) (init_at mem2 q k v)" and b: "b"
      using put p l Some k2 by (auto simp: ls_put_eq um_emplace_def)
    have ks: "\<forall>k \<in> fst ` set (sh_map (with_entry sh2 k q)). shard_for ls k = ?i"
      by (rule with_entry_keys) (use keys keys2 in blast, rule refl)
    have "shard_view (init_at mem2 q k v) (with_entry sh2 k q) = (shard_view mem2 sh2)(k := if b then Some v else None)"
      unfolding w3(2) using b by (simp only: if_True)
    from that [OF e w3(1) this same_slots_trans [OF same2 w3(3)] ks] show thesis .
  qed
  note r = lift_shard [OF ok i w same ks, folded ls']
  show "ls_ok ls'" by (rule r(1))
  show "ls_view ls' k = (if b then Some v else None)" using r(2) [of k] v by simp
  show "shard_for ls k' \<noteq> ?i \<Longrightarrow> ls_view ls' k' = ls_view ls k'" using r(2) [of k'] by simp
  show "(ls_view ls')(k := None) \<subseteq>\<^sub>m ls_view ls"
  proof (rule map_le_SomeI)
    fix j x assume "((ls_view ls')(k := None)) j = Some x"
    then have j: "j \<noteq> k" "ls_view ls' j = Some x" by (auto split: if_splits)
    show "ls_view ls j = Some x"
    proof (cases "shard_for ls j = ?i")
      case True
      then have "shard_view mem2 sh2 j = Some x" using j r(2) [of j] v by simp
      from map_le_SomeD [OF v2 this] j(1) have "shard_view (ls_mem ls) ?sh j = Some x" by simp
      then show ?thesis using True by (simp add: ls_view_def)
    qed (use j r(2) [of j] in simp)
  qed
qed

lemma length_um_erase:
  assumes "um_ok m" and "um_find k m = Some p"
  shows "length (um_erase k m) = length m - 1"
proof -
  have "length (um_erase k m) = card (fst ` set (um_erase k m))" "length m = card (fst ` set m)"
    using assms(1) um_ok_erase [OF assms(1), of k] unfolding um_ok_def by (metis distinct_card length_map set_map)+
  moreover have "k \<in> fst ` set m" using assms(2) um_find_None_iff [of k m] by simp
  ultimately show ?thesis by (simp add: keys_um_erase)
qed

lemma shard_ring_empty: "shard_work foreign sa sh mem \<Longrightarrow> ce_ring (sh_evictor sh) = [] \<longleftrightarrow> sh_map sh = []"
  by (auto simp: shard_work_def shard_ok_def shard_ptrs_def)

lemma put_loop_too_large:
  assumes "shard_work foreign sa sh mem" and "kMaxSlotSize < n"
    and "put_loop attempts n sa sh mem = (sa', sh', mem', ptr)"
  shows "ptr = None \<and> length (sh_map sh') = length (sh_map sh) - attempts"
  using assms(1,3)
proof (induction attempts arbitrary: sa sh mem)
  case (Suc attempts)
  note w = Suc.prems(1)
  have a: "allocate sa n = (sa, None)" by (rule slab.alloc_too_large [OF assms(2)])
  show ?case
  proof (cases "sh_map sh = []")
    case True
    then have "evict_one (sh_evictor sh) mem = (sh_evictor sh, mem, None)"
      using shard_ring_empty [OF w] by (simp add: evict_one_def)
    then show ?thesis using Suc.prems(2) a True by auto
  next
    case False
    then have "ce_ring (sh_evictor sh) \<noteq> []" using shard_ring_empty [OF w] by simp
    from evict_work [OF w this] obtain ev mem1 victim k where
      e: "evict_one (sh_evictor sh) mem = (ev, mem1, Some victim)" "entry_key mem1 victim = k"
        "um_find k (sh_map sh) = Some victim"
      and w2: "shard_work foreign (deallocate sa (Some victim) (entry_size mem1 victim)) (without sh ev k) mem1" .
    have "put_loop attempts n (deallocate sa (Some victim) (entry_size mem1 victim)) (without sh ev k) mem1 =
        (sa', sh', mem', ptr)"
      using Suc.prems(2) a e by (simp add: Let_def)
    from Suc.IH [OF w2 this] length_um_erase [OF _ e(3)] w show ?thesis
      by (simp add: shard_work_def shard_ok_def)
  qed
qed simp

text \<open>A request the allocator can serve at once: a free slot of its class, or an unassigned page.\<close>

definition has_room :: "slab_allocator \<Rightarrow> nat \<Rightarrow> bool" where
  "has_room sa n \<longleftrightarrow> n \<le> kMaxSlotSize \<and>
     (sc_free_slots (sa_classes sa ! class_for_size n) \<noteq> [] \<or> sa_next_page sa < pages_total sa)"

lemma has_room_deallocate:
  assumes "sa_ok sa U" and "has_room sa n"
  shows "has_room (deallocate sa (Some p) m) n"
proof -
  have "length (sa_classes sa) = kNumClasses" using assms(1) by (auto simp: sa_ok_def sa_inv_def)
  then show ?thesis
    using assms(2) class_for_size_less [of n]
    by (cases "class_for_size m = class_for_size n")
      (auto simp: has_room_def deallocate_eq set_free_def pages_total_def)
qed

lemma ls_put_room:
  assumes ok: "ls_ok ls" and room: "has_room (ls_allocator ls) (required_size (length k) (length v))"
  shows "snd (ls_put ls k v) \<and> ls_view (fst (ls_put ls k v)) = (ls_view ls)(k \<mapsto> v)"
proof -
  let ?n = "required_size (length k) (length v)" and ?i = "shard_for ls k"
  have i: "?i < length (ls_shards ls)" by (rule shard_for_less [OF ok])
  have w: "shard_work (foreign_slots ls ?i) (ls_allocator ls) (ls_shards ls ! ?i) (ls_mem ls)"
    and keys: "\<forall>k \<in> fst ` set (sh_map (ls_shards ls ! ?i)). shard_for ls k = ?i" using ls_ok_shard [OF ok i] by auto
  obtain sa sh where p: "put_prepare ls k = (sa, sh)" by fastforce
  note w1 = put_prepare_work [OF ok p]
  have k1: "um_find k (sh_map sh) = None" using w1(3) by (simp add: um_find_None_iff)
  have "has_room sa ?n"
    using p room has_room_deallocate [of "ls_allocator ls" _ ?n] w
    by (auto simp: put_prepare_def drop_entry_def shard_work_def Let_def split: option.splits)
  then have "snd (allocate sa ?n) \<noteq> None"
    using allocate_None_iff [of sa _ ?n] w1(1) by (auto simp: has_room_def shard_work_def)
  then obtain sa' q where a: "allocate sa ?n = (sa', Some q)" by (cases "allocate sa ?n") auto
  have put: "ls_put ls k v = (set_shard ls ?i sa' (with_entry sh k q) (init_at (ls_mem ls) q k v), True)"
    using a p k1 by (simp add: ls_put_eq um_emplace_def numeral_eq_Suc)
  note w2 = insert_work [OF w1(1) k1 a]
  have "\<forall>j \<in> fst ` set (sh_map sh). shard_for ls j = ?i" using keys unfolding w1(3) by blast
  then have "\<forall>j \<in> fst ` set (sh_map (with_entry sh k q)). shard_for ls j = ?i" by (rule with_entry_keys) (rule refl)
  note l = lift_shard(2) [OF ok i w2(1,3) this]
  have "ls_view (fst (ls_put ls k v)) = (ls_view ls)(k \<mapsto> v)"
    using l w2(2) w1(2) put by (auto simp: fun_eq_iff ls_view_def)
  with put show ?thesis by simp
qed

section \<open>Histories of the store\<close>

inductive ls_reachable :: "local_store \<Rightarrow> bool" where
  start: "new_local_store cap (Suc n) huge ok = Inr ls \<Longrightarrow> ls_reachable ls"
| get: "ls_reachable ls \<Longrightarrow> ls_reachable (fst (ls_get ls k))"
| put: "ls_reachable ls \<Longrightarrow> ls_reachable (fst (ls_put ls k v))"
| del: "ls_reachable ls \<Longrightarrow> ls_reachable (fst (ls_del ls k))"

lemma new_local_store_ok:
  assumes "new_local_store cap (Suc n) huge ok = Inr ls"
  shows "ls_ok ls" and "ls_view ls = Map.empty"
proof -
  obtain sa where sa: "new_slab_allocator cap huge ok = Inr sa"
    and ls: "ls = \<lparr>ls_allocator = sa, ls_shards = replicate (Suc n) \<lparr>sh_map = [], sh_evictor = new_clock_evictor\<rparr>, ls_mem = (\<lambda>_. 0)\<rparr>"
    using assms by (auto simp: new_local_store_def split: sum.splits)
  have nth: "ls_shards ls ! i = \<lparr>sh_map = [], sh_evictor = new_clock_evictor\<rparr>" if "i < Suc n" for i
    using that unfolding ls by (simp del: replicate_Suc)
  have len: "length (ls_shards ls) = Suc n" and al: "ls_allocator ls = sa" by (simp_all add: ls)
  have "shard_ok mem \<lparr>sh_map = [], sh_evictor = new_clock_evictor\<rparr> \<and>
      shard_slots mem \<lparr>sh_map = [], sh_evictor = new_clock_evictor\<rparr> = {}" for mem
    by (simp add: shard_ok_def shard_slots_def shard_ptrs_def new_clock_evictor_def ce_ok_def)
  then show "ls_ok ls" unfolding ls_ok_iff len al
    using nth new_slab_allocator_ok [OF sa] by (simp add: length_greater_0_conv [symmetric] len del: length_greater_0_conv)
  have "shard_for ls k < Suc n" for k by (simp add: shard_for_def len)
  with nth show "ls_view ls = Map.empty" by (simp add: ls_view_def shard_view_def fun_eq_iff)
qed

lemma ls_reachable_ok: "ls_reachable ls \<Longrightarrow> ls_ok ls"
proof (induction rule: ls_reachable.induct)
  case (get ls k)
  then show ?case using ls_get_sim(1) [of ls k] by (metis surj_pair fst_conv)
next
  case (put ls k v)
  then show ?case using ls_put_sim(1) [of ls k v] by (metis surj_pair fst_conv)
next
  case (del ls k)
  then show ?case using ls_del_sim(1) [of ls k] by (metis surj_pair fst_conv)
qed (rule new_local_store_ok)

lemma example_store:
  obtains ls where "new_local_store (2 ^ 21) (Suc 0) False True = Inr ls" and "ls_reachable ls"
    and "has_room (ls_allocator ls) (required_size 3 5)"
proof -
  obtain sa where sa: "new_slab_allocator (2 ^ 21) False True = Inr sa"
    by (simp add: new_slab_allocator_def new_arena_def)
  then have page: "sa_next_page sa < pages_total sa"
    by (auto simp: new_slab_allocator_def new_arena_def pages_total_def kPageSize_def)
  obtain ls where ls: "new_local_store (2 ^ 21) (Suc 0) False True = Inr ls" "ls_allocator ls = sa"
    using sa by (simp add: new_local_store_def)
  from ls(1) have "ls_reachable ls" by (rule ls_reachable.start)
  moreover have "has_room (ls_allocator ls) (required_size 3 5)"
    using page by (simp add: ls(2) has_room_def required_size_def kEntryHeader_def kMaxSlotSize_def)
  ultimately show thesis using that ls(1) by blast
qed

section \<open>Properties\<close>

text \<open>
  C1. The store implements a map that may forget. A lookup returns what the map holds and changes
  nothing; a deletion removes the key and says whether it was there; an insertion that succeeds makes
  the key hold the new value, one that fails leaves the key without any value, and either way every
  other key holds what it held before or nothing, and keys of other shards keep what they hold.
\<close>
theorem store_refines_map:
  assumes "ls_reachable ls"
  shows "(case ls_get ls k of (ls', r) \<Rightarrow> r = ls_view ls k \<and> ls_view ls' = ls_view ls) \<and>
    (case ls_del ls k of (ls', b) \<Rightarrow> (b \<longleftrightarrow> ls_view ls k \<noteq> None) \<and> ls_view ls' = (ls_view ls)(k := None)) \<and>
    (case ls_put ls k v of (ls', b) \<Rightarrow>
       ls_view ls' k = (if b then Some v else None) \<and> (ls_view ls')(k := None) \<subseteq>\<^sub>m ls_view ls \<and>
       (\<forall>k'. shard_for ls k' \<noteq> shard_for ls k \<longrightarrow> ls_view ls' k' = ls_view ls k'))"
proof -
  note ok = ls_reachable_ok [OF assms]
  obtain lg r ld bd lp bp where g: "ls_get ls k = (lg, r)" and d: "ls_del ls k = (ld, bd)" and p: "ls_put ls k v = (lp, bp)"
    by (metis surj_pair)
  show ?thesis using ls_get_sim [OF ok g] ls_del_sim [OF ok d] ls_put_sim [OF ok p] by (simp add: g d p)
qed

theorem store_refines_map_witness:
  "\<exists>ls. snd (ls_get ls ''key'') = ls_view ls ''key''"
proof -
  obtain ls where "ls_reachable ls" by (rule example_store)
  from store_refines_map [OF this, of "''key''" "[]"] have "snd (ls_get ls ''key'') = ls_view ls ''key''"
    by (simp add: case_prod_beta)
  then show ?thesis by blast
qed

text \<open>
  Storing succeeds, and evicts nothing, whenever the allocator has a free slot of the size class
  or an unassigned page: afterwards the map differs only at the key.
\<close>
theorem store_put_with_room:
  assumes "ls_reachable ls" and "has_room (ls_allocator ls) (required_size (length k) (length v))"
  shows "snd (ls_put ls k v) \<and> ls_view (fst (ls_put ls k v)) = (ls_view ls)(k \<mapsto> v)"
  by (rule ls_put_room [OF ls_reachable_ok [OF assms(1)] assms(2)])

theorem store_put_with_room_witness:
  "\<exists>ls. ls_view ls = Map.empty \<and> ls_view (fst (ls_put ls ''key'' ''value'')) = [''key'' \<mapsto> ''value'']"
proof -
  obtain ls where ls: "new_local_store (2 ^ 21) (Suc 0) False True = Inr ls" "ls_reachable ls"
    and room: "has_room (ls_allocator ls) (required_size 3 5)" by (rule example_store)
  have "ls_view ls = Map.empty" by (rule new_local_store_ok(2) [OF ls(1)])
  moreover have "ls_view (fst (ls_put ls ''key'' ''value'')) = (ls_view ls)(''key'' \<mapsto> ''value'')"
    using store_put_with_room [OF ls(2), of "''key''" "''value''"] room by (simp add: eval_nat_numeral)
  ultimately show ?thesis by metis
qed





end
