(* ===== verification/Coordinator.thy ===== *)
theory Coordinator
  imports PeerClient WaitGroup LocalStore MemberList Ring
begin

text \<open>
  The request router of a node (\<open>src/src/coordinator/coordinator.h\<close> and \<open>coordinator.cpp\<close>), on top of
  the local store, the ring, the member table, the wait group and the peer client.

  \<open>handle_connection\<close> is a coroutine that runs once per client connection. The model keeps, for every
  connection, where its coroutine is in the loop body, and lets the coroutines interleave at the
  points where the code awaits something: reading a request, the exchange with a peer, the wait for
  somebody else's fetch, and writing the response. What happens between two such points is one step.
  The gossip component may change the ring and the member table at any time, and peers may send at
  any time. An exchange with a peer (\<open>proxy_to_peer\<close>) is one step; its own awaits are not
  interleaved.
\<close>

section \<open>State and request handlers\<close>

record coordinator =
  co_store :: local_store
  co_ring :: ring_store
  co_members :: member_list
  co_self :: node_id
  co_pool :: "buffer_pool option"
  co_peer_client :: peer_client
  co_wait_group :: wait_group

definition new_coordinator ::
  "local_store \<Rightarrow> ring_store \<Rightarrow> member_list \<Rightarrow> node_id \<Rightarrow> buffer_pool option \<Rightarrow> coordinator" where
  "new_coordinator store rs members self bufs =
     \<lparr>co_store = store, co_ring = rs, co_members = members, co_self = self, co_pool = bufs,
      co_peer_client = new_peer_client, co_wait_group = new_wait_group\<rparr>"

definition serve_local :: "local_store \<Rightarrow> request \<Rightarrow> local_store \<times> response" where
  "serve_local store req =
     (if req_opcode req = Opcode_Get then
        case ls_get store (req_key req) of
          (store, Some val) \<Rightarrow> (store, \<lparr>resp_status = Status_Ok, resp_value = val\<rparr>)
        | (store, None) \<Rightarrow> (store, \<lparr>resp_status = Status_NotFound, resp_value = []\<rparr>)
      else if req_opcode req = Opcode_Put then
        case ls_put store (req_key req) (req_value req) of
          (store, ok) \<Rightarrow> (store, \<lparr>resp_status = (if ok then Status_Ok else Status_Error), resp_value = []\<rparr>)
      else if req_opcode req = Opcode_Del then
        case ls_del store (req_key req) of
          (store, ok) \<Rightarrow> (store, \<lparr>resp_status = (if ok then Status_Ok else Status_NotFound), resp_value = []\<rparr>)
      else (store, \<lparr>resp_status = Status_Error, resp_value = []\<rparr>))"

fun count_alive :: "(node_id \<times> node_info) list \<Rightarrow> u16 \<Rightarrow> u16" where
  "count_alive [] cnt = cnt"
| "count_alive ((nid, info) # nodes) cnt =
     count_alive nodes (if info_state info = Alive then cnt + 1 else cnt)"

fun append_nodes :: "(node_id \<times> node_info) list \<Rightarrow> bytes \<Rightarrow> bytes" where
  "append_nodes [] buf = buf"
| "append_nodes ((nid, info) # nodes) buf =
     (if info_state info \<noteq> Alive then append_nodes nodes buf
      else
        let host_len = (word_of_nat (length (node_host nid)) :: u16);
            off = length buf;
            buf = buf @ replicate (2 + unat host_len + 2 + 2) 0;
            buf = memcpy_to buf off (le_bytes 2 host_len);
            buf = memcpy_to buf (off + 2) (take (unat host_len) (bytes_of (node_host nid)));
            buf = memcpy_to buf (off + 2 + unat host_len) (le_bytes 2 (node_port nid));
            buf = memcpy_to buf (off + 2 + unat host_len + 2) (le_bytes 2 (info_data_port info))
        in append_nodes nodes buf)"

definition serve_cluster_info :: "member_list \<Rightarrow> response" where
  "serve_cluster_info members =
     (let nodes = ml_nodes members;
          cnt = count_alive nodes 0;
          buf = memcpy_to (replicate 2 0) 0 (le_bytes 2 cnt)
      in \<lparr>resp_status = Status_Ok, resp_value = string_of (append_nodes nodes buf)\<rparr>)"

text \<open>\<open>net\<close> holds the sockets behind the descriptors; the last component are the descriptors that are closed.\<close>

definition proxy_to_peer ::
  "coordinator \<Rightarrow> (fd \<Rightarrow> conn) \<Rightarrow> dial \<Rightarrow> request \<Rightarrow> node_id \<Rightarrow> coordinator \<times> (fd \<Rightarrow> conn) \<times> response \<times> fd list" where
  "proxy_to_peer co net d req owner =
     (let error = \<lparr>resp_status = Status_Error, resp_value = []\<rparr>
      in case ml_get_node (co_members co) owner of
           None \<Rightarrow> (co, net, error, [])
         | Some info \<Rightarrow>
             (case pc_acquire (co_peer_client co) (node_host owner) (info_data_port info) d of
                (pc, peer_fd, closed) \<Rightarrow>
                  if peer_fd < 0 then (co\<lparr>co_peer_client := pc\<rparr>, net, error, closed)
                  else
                    (case send_request (co_pool co) (net peer_fd) req of
                       (bufs, c, resp) \<Rightarrow>
                         if resp_status resp = Status_Error
                         then (co\<lparr>co_peer_client := pc, co_pool := bufs\<rparr>, net(peer_fd := c), resp, closed @ [peer_fd])
                         else (co\<lparr>co_peer_client := pc_release pc (node_host owner) (info_data_port info) peer_fd,
                                  co_pool := bufs\<rparr>, net(peer_fd := c), resp, closed))))"

text \<open>
  The decision \<open>handle_connection\<close> takes for a request: answer at once, proxy it, proxy it on behalf
  of everybody who wants the key, or join the fetch that is in progress.
\<close>

datatype routing = Reply response | Forward node_id | Fetch node_id nat | Join nat

definition route :: "coordinator \<Rightarrow> request \<Rightarrow> coordinator \<times> routing" where
  "route co req =
     (if req_opcode req = Opcode_ClusterInfo then (co, Reply (serve_cluster_info (co_members co)))
      else
        let hash = hash_key (req_key req);
            owner = get_node_for_key (co_ring co) hash;
            local_reply = (case serve_local (co_store co) req of
                             (store, resp) \<Rightarrow> (co\<lparr>co_store := store\<rparr>, Reply resp))
        in case owner of
             None \<Rightarrow> local_reply
           | Some n \<Rightarrow>
               if n = co_self co then local_reply
               else if req_opcode req = Opcode_Get then
                 (case try_join (co_wait_group co) (req_key req) of
                    (wg, is_initiator, h) \<Rightarrow>
                      (co\<lparr>co_wait_group := wg\<rparr>, if is_initiator then Fetch n h else Join h))
               else (co, Forward n))"

definition fetch_value :: "response \<Rightarrow> string option" where
  "fetch_value resp = (if resp_status resp = Status_Ok then Some (resp_value resp) else None)"

definition wait_response :: "string option \<Rightarrow> response" where
  "wait_response result =
     (case result of
        Some v \<Rightarrow> \<lparr>resp_status = Status_Ok, resp_value = v\<rparr>
      | None \<Rightarrow> \<lparr>resp_status = Status_NotFound, resp_value = []\<rparr>)"

text \<open>\<open>spawn\<close>: the list of detached tasks; \<open>done\<close> tells which tasks have finished after the new one has started.\<close>

definition spawn :: "('t \<Rightarrow> bool) \<Rightarrow> 't list \<Rightarrow> 't \<Rightarrow> 't list" where
  "spawn finished detached task = filter (\<lambda>t. \<not> finished t) (detached @ [task])"

section \<open>Connections\<close>

datatype handler =
    Reading
  | Proxying request node_id "nat option"
  | Joining request nat
  | Sleeping request nat
  | Waking request nat
  | Replying request response
  | Closed

record system =
  sy_co :: coordinator
  sy_net :: "fd \<Rightarrow> conn"
  sy_conn :: "nat \<Rightarrow> conn"
  sy_handler :: "nat \<Rightarrow> handler"
  sy_log :: "nat \<Rightarrow> (request \<times> response) list"

text \<open>The last field records what each connection asked and was answered; the program does not have it.\<close>

fun start_handler :: "request \<Rightarrow> routing \<Rightarrow> handler" where
  "start_handler req (Reply resp) = Replying req resp"
| "start_handler req (Forward n) = Proxying req n None"
| "start_handler req (Fetch n h) = Proxying req n (Some h)"
| "start_handler req (Join h) = Joining req h"

fun wake :: "handler \<Rightarrow> handler" where
  "wake (Sleeping req h) = Waking req h"
| "wake h = h"

text \<open>What follows \<open>proxy_to_peer\<close>: the initiator of a collapsed fetch completes it.\<close>

definition finish_proxy :: "coordinator \<Rightarrow> request \<Rightarrow> response \<Rightarrow> nat option \<Rightarrow> coordinator \<times> nat list" where
  "finish_proxy co req resp fetch_handle =
     (case fetch_handle of
        None \<Rightarrow> (co, [])
      | Some _ \<Rightarrow>
          (case complete_fetch (co_wait_group co) (req_key req) (fetch_value resp) of
             (wg, to_resume) \<Rightarrow> (co\<lparr>co_wait_group := wg\<rparr>, to_resume)))"

inductive co_step :: "system \<Rightarrow> system \<Rightarrow> bool" where
  read: "sy_handler s c = Reading \<Longrightarrow> read_request (c_in (sy_conn s c)) = (ds, Some req) \<Longrightarrow> route (sy_co s) req = (co, r) \<Longrightarrow>
    co_step s (s\<lparr>sy_co := co, sy_conn := (sy_conn s)(c := (sy_conn s c)\<lparr>c_in := ds\<rparr>),
                 sy_handler := (sy_handler s)(c := start_handler req r)\<rparr>)"
| end_of_stream: "sy_handler s c = Reading \<Longrightarrow> read_request (c_in (sy_conn s c)) = (ds, None) \<Longrightarrow>
    co_step s (s\<lparr>sy_conn := (sy_conn s)(c := (sy_conn s c)\<lparr>c_in := ds\<rparr>), sy_handler := (sy_handler s)(c := Closed)\<rparr>)"
| proxied: "sy_handler s c = Proxying req n fh \<Longrightarrow> proxy_to_peer (sy_co s) (sy_net s) d req n = (co, net, resp, closed) \<Longrightarrow>
    finish_proxy co req resp fh = (co', woken) \<Longrightarrow>
    co_step s (s\<lparr>sy_co := co', sy_net := net,
                 sy_handler := (\<lambda>e. if e = c then Replying req resp
                                     else if e \<in> set woken then wake (sy_handler s e) else sy_handler s e)\<rparr>)"
| ready: "sy_handler s c = Joining req h \<Longrightarrow> await_ready (co_wait_group (sy_co s)) h \<Longrightarrow>
    co_step s (s\<lparr>sy_handler := (sy_handler s)(c := Waking req h)\<rparr>)"
| suspend: "sy_handler s c = Joining req h \<Longrightarrow> await_suspend (co_wait_group (sy_co s)) h c = (wg, suspended) \<Longrightarrow>
    co_step s (s\<lparr>sy_co := (sy_co s)\<lparr>co_wait_group := wg\<rparr>,
                 sy_handler := (sy_handler s)(c := if suspended then Sleeping req h else Waking req h)\<rparr>)"
| resume: "sy_handler s c = Waking req h \<Longrightarrow>
    co_step s (s\<lparr>sy_handler := (sy_handler s)(c := Replying req (wait_response (await_resume (co_wait_group (sy_co s)) h)))\<rparr>)"
| reply: "sy_handler s c = Replying req resp \<Longrightarrow> write_response (sy_conn s c) resp = (cn, ok) \<Longrightarrow>
    co_step s (s\<lparr>sy_conn := (sy_conn s)(c := cn), sy_handler := (sy_handler s)(c := if ok then Reading else Closed),
                 sy_log := (sy_log s)(c := if ok then sy_log s c @ [(req, resp)] else sy_log s c)\<rparr>)"
| gossip: "co_step s (s\<lparr>sy_co := (sy_co s)\<lparr>co_ring := rs, co_members := ml\<rparr>\<rparr>)"
| network: "co_step s (s\<lparr>sy_net := net\<rparr>)"

text \<open>Initial states: a new coordinator, any number of connections with any traffic on them.\<close>

definition sys_init :: "system \<Rightarrow> bool" where
  "sys_init s \<longleftrightarrow> co_wait_group (sy_co s) = new_wait_group \<and> (\<forall>c. sy_handler s c = Reading \<and> sy_log s c = [])"

inductive co_reachable :: "system \<Rightarrow> system \<Rightarrow> bool" for s\<^sub>0 :: system where
  start: "sys_init s\<^sub>0 \<Longrightarrow> co_reachable s\<^sub>0 s\<^sub>0"
| step: "co_reachable s\<^sub>0 s \<Longrightarrow> co_step s t \<Longrightarrow> co_reachable s\<^sub>0 t"

section \<open>The connections drive the wait group as its protocol demands\<close>

fun abs_phase :: "handler \<Rightarrow> phase" where
  "abs_phase (Proxying req n (Some h)) = Fetching (req_key req) h"
| "abs_phase (Joining req h) = Joined h"
| "abs_phase (Sleeping req h) = Suspended h"
| "abs_phase (Waking req h) = Resumed h"
| "abs_phase _ = Idle"

definition abs_wg :: "system \<Rightarrow> wg_state" where
  "abs_wg s = \<lparr>st_wg = co_wait_group (sy_co s), st_phase = (\<lambda>c. abs_phase (sy_handler s c))\<rparr>"

lemma abs_wg_simps [simp]:
  "st_wg (abs_wg s) = co_wait_group (sy_co s)" "st_phase (abs_wg s) c = abs_phase (sy_handler s c)"
  by (simp_all add: abs_wg_def)

lemma wg_state_eqI: "st_wg s = st_wg t \<Longrightarrow> (\<And>c. st_phase s c = st_phase t c) \<Longrightarrow> (s :: wg_state) = t"
  by (cases s; cases t) auto

lemma abs_phase_Proxying:
  "abs_phase (Proxying req n fh) = (case fh of None \<Rightarrow> Idle | Some h \<Rightarrow> Fetching (req_key req) h)"
  by (cases fh) simp_all

lemma abs_phase_iff:
  "abs_phase x = Suspended h \<longleftrightarrow> (\<exists>req. x = Sleeping req h)"
  "abs_phase x = Fetching key h \<longleftrightarrow> (\<exists>req n. x = Proxying req n (Some h) \<and> req_key req = key)"
  "abs_phase x \<noteq> Publishing h v"
  by (cases x; auto simp: abs_phase_Proxying split: option.split)+

lemma route_cases:
  assumes "route co req = (co', r)"
  obtains (cluster) "req_opcode req = Opcode_ClusterInfo" "co' = co" "r = Reply (serve_cluster_info (co_members co))"
    | (local) store resp where "req_opcode req \<noteq> Opcode_ClusterInfo"
        "get_node_for_key (co_ring co) (hash_key (req_key req)) \<in> {None, Some (co_self co)}"
        "serve_local (co_store co) req = (store, resp)" "co' = co\<lparr>co_store := store\<rparr>" "r = Reply resp"
    | (get) n wg initiator h where "req_opcode req = Opcode_Get" "n \<noteq> co_self co"
        "get_node_for_key (co_ring co) (hash_key (req_key req)) = Some n"
        "try_join (co_wait_group co) (req_key req) = (wg, initiator, h)"
        "co' = co\<lparr>co_wait_group := wg\<rparr>" "r = (if initiator then Fetch n h else Join h)"
    | (other) n where "req_opcode req \<notin> {Opcode_ClusterInfo, Opcode_Get}" "n \<noteq> co_self co"
        "get_node_for_key (co_ring co) (hash_key (req_key req)) = Some n" "co' = co" "r = Forward n"
proof (cases "req_opcode req = Opcode_ClusterInfo")
  case True
  then have "co' = co" "r = Reply (serve_cluster_info (co_members co))" using assms by (auto simp: route_def)
  then show thesis by (rule cluster [OF True])
next
  case nc: False
  obtain store resp where sl: "serve_local (co_store co) req = (store, resp)" by fastforce
  obtain wg initiator h where tj: "try_join (co_wait_group co) (req_key req) = (wg, initiator, h)" by (metis surj_pair)
  show thesis
  proof (cases "get_node_for_key (co_ring co) (hash_key (req_key req)) \<in> {None, Some (co_self co)}")
    case True
    then have "co' = co\<lparr>co_store := store\<rparr>" "r = Reply resp" using assms nc sl by (auto simp: route_def Let_def)
    then show thesis by (rule local [OF nc True sl])
  next
    case False
    then obtain n where n: "get_node_for_key (co_ring co) (hash_key (req_key req)) = Some n" "n \<noteq> co_self co" by auto
    show thesis
    proof (cases "req_opcode req = Opcode_Get")
      case True
      then have "co' = co\<lparr>co_wait_group := wg\<rparr>" "r = (if initiator then Fetch n h else Join h)"
        using assms nc n tj by (auto simp: route_def)
      then show thesis by (rule get [OF True n(2,1) tj])
    next
      case False
      then have "co' = co" "r = Forward n" using assms nc n by (auto simp: route_def)
      then show thesis using False nc by (intro other [OF _ n(2,1)]) simp_all
    qed
  qed
qed

lemma route_wait_group:
  assumes "route co req = (co', r)"
  shows "(\<exists>initiator h. try_join (co_wait_group co) (req_key req) = (co_wait_group co', initiator, h) \<and>
            abs_phase (start_handler req r) = (if initiator then Fetching (req_key req) h else Joined h)) \<or>
         (co_wait_group co' = co_wait_group co \<and> abs_phase (start_handler req r) = Idle)"
  using assms by (cases rule: route_cases) (auto split: if_splits)

lemma proxy_wait_group:
  "proxy_to_peer co net d req n = (co', net', resp, closed) \<Longrightarrow> co_wait_group co' = co_wait_group co"
  by (auto simp: proxy_to_peer_def Let_def split: option.splits prod.splits if_splits)

lemma sim_complete:
  assumes inv: "wg_inv (abs_wg s)" and h: "sy_handler s c = Proxying req n (Some h)"
    and cf: "complete_fetch (co_wait_group (sy_co s)) (req_key req) v = (wg, woken)"
    and t: "co_wait_group (sy_co t) = wg" "\<And>e. sy_handler t e = (if e = c then Replying req resp
        else if e \<in> set woken then wake (sy_handler s e) else sy_handler s e)"
  shows "wg_step\<^sup>*\<^sup>* (abs_wg s) (abs_wg t)"
    and "\<And>e. e \<in> set woken \<longleftrightarrow> (\<exists>r. sy_handler s e = Sleeping r h)" and "await_resume wg h = v"
proof -
  obtain wg1 f where tk: "complete_take (co_wait_group (sy_co s)) (req_key req) = (wg1, f)" by fastforce
  have p: "st_phase (abs_wg s) c = Fetching (req_key req) h" using h by simp
  have "f = Some h" by (rule inv_take(1) [OF inv p]) (simp add: tk)
  with tk have tk: "complete_take (st_wg (abs_wg s)) (req_key req) = (wg1, Some h)" by simp
  with cf have pb: "complete_publish wg1 h v = (wg, woken)" by (simp add: complete_fetch_def)
  have hl: "h < length (wg_fetches (co_wait_group (sy_co s)))"
    using handle_less [of "abs_wg s" c h] inv p by (simp add: wg_inv_def)
  have f1: "wg_fetches wg1 = wg_fetches (co_wait_group (sy_co s))" using tk by (auto simp: complete_take_def split: option.splits)
  have "e \<in> set woken \<longleftrightarrow> abs_phase (sy_handler s e) = Suspended h" for e
  proof -
    have "woken = pf_waiters (wg_fetches (co_wait_group (sy_co s)) ! h)" using pb f1 by (auto simp: complete_publish_def Let_def)
    then show ?thesis using inv hl by (simp add: wg_inv_def inv_fetches_def)
  qed
  then show woken: "e \<in> set woken \<longleftrightarrow> (\<exists>r. sy_handler s e = Sleeping r h)" for e by (simp add: abs_phase_iff)
  show "await_resume wg h = v" using pb f1 hl by (auto simp: complete_publish_def Let_def await_resume_def)
  let ?s1 = "\<lparr>st_wg = wg1, st_phase = (st_phase (abs_wg s))(c := Publishing h v)\<rparr>"
  let ?s2 = "\<lparr>st_wg = wg, st_phase = (\<lambda>d. if d = c then Done h v else if d \<in> set woken then Resumed h else st_phase ?s1 d)\<rparr>"
  have "wg_step (abs_wg s) ?s1" by (rule wg_step.take [OF p tk])
  moreover have "wg_step ?s1 ?s2" by (rule wg_step.publish) (simp_all add: pb)
  moreover have "wg_step ?s2 (?s2\<lparr>st_phase := (st_phase ?s2)(c := Idle)\<rparr>)" by (rule wg_step.again) simp
  moreover have "?s2\<lparr>st_phase := (st_phase ?s2)(c := Idle)\<rparr> = abs_wg t"
  proof (rule wg_state_eqI)
    fix e show "st_phase (?s2\<lparr>st_phase := (st_phase ?s2)(c := Idle)\<rparr>) e = st_phase (abs_wg t) e"
      using t(2) [of e] woken [of e] by auto
  qed (simp add: t(1))
  ultimately show "wg_step\<^sup>*\<^sup>* (abs_wg s) (abs_wg t)" by (metis converse_rtranclp_into_rtranclp rtranclp.rtrancl_refl)
qed

lemma co_step_sim:
  assumes "co_step s t" and "wg_inv (abs_wg s)"
  shows "wg_step\<^sup>*\<^sup>* (abs_wg s) (abs_wg t)"
  using assms
proof (induction rule: co_step.induct)
  case (read s c ds req co r)
  let ?t = "s\<lparr>sy_co := co, sy_conn := (sy_conn s)(c := (sy_conn s c)\<lparr>c_in := ds\<rparr>), sy_handler := (sy_handler s)(c := start_handler req r)\<rparr>"
  from route_wait_group [OF read.hyps(3)] show ?case
  proof (elim disjE exE conjE)
    fix initiator h assume j: "try_join (co_wait_group (sy_co s)) (req_key req) = (co_wait_group co, initiator, h)"
      "abs_phase (start_handler req r) = (if initiator then Fetching (req_key req) h else Joined h)"
    have "wg_step (abs_wg s) \<lparr>st_wg = co_wait_group co,
        st_phase = (st_phase (abs_wg s))(c := if initiator then Fetching (req_key req) h else Joined h)\<rparr>"
      by (rule wg_step.join) (simp_all add: read.hyps j)
    also have "\<lparr>st_wg = co_wait_group co,
        st_phase = (st_phase (abs_wg s))(c := if initiator then Fetching (req_key req) h else Joined h)\<rparr> = abs_wg ?t"
      by (rule wg_state_eqI) (simp_all add: j)
    finally show ?thesis by (rule r_into_rtranclp)
  next
    assume "co_wait_group co = co_wait_group (sy_co s)" "abs_phase (start_handler req r) = Idle"
    then have "abs_wg ?t = abs_wg s" by (intro wg_state_eqI) (simp_all add: read.hyps)
    then show ?thesis by (simp only: rtranclp.rtrancl_refl)
  qed
next
  case (end_of_stream s c ds)
  then have "abs_wg (s\<lparr>sy_conn := (sy_conn s)(c := (sy_conn s c)\<lparr>c_in := ds\<rparr>), sy_handler := (sy_handler s)(c := Closed)\<rparr>) = abs_wg s"
    by (intro wg_state_eqI) simp_all
  then show ?case by (simp only: rtranclp.rtrancl_refl)
next
  case (proxied s c req n fh d co net resp closed co' woken)
  note wg = proxy_wait_group [OF proxied.hyps(2)]
  show ?case
  proof (cases fh)
    case None
    then have "co' = co" "woken = []" using proxied.hyps(3) by (simp_all add: finish_proxy_def)
    then have "abs_wg (s\<lparr>sy_co := co', sy_net := net, sy_handler := (\<lambda>e. if e = c then Replying req resp
        else if e \<in> set woken then wake (sy_handler s e) else sy_handler s e)\<rparr>) = abs_wg s"
      using proxied.hyps(1) None wg by (intro wg_state_eqI) simp_all
    then show ?thesis by (simp only: rtranclp.rtrancl_refl)
  next
    case (Some h)
    obtain wg' where cf: "complete_fetch (co_wait_group (sy_co s)) (req_key req) (fetch_value resp) = (wg', woken)" "co' = co\<lparr>co_wait_group := wg'\<rparr>"
      using proxied.hyps(3) Some wg by (auto simp: finish_proxy_def split: prod.splits)
    show ?thesis by (rule sim_complete(1) [OF proxied.prems proxied.hyps(1) [unfolded Some] cf(1), where resp = resp]) (simp_all add: cf(2))
  qed
next
  case (ready s c req h)
  have "wg_step (abs_wg s) ((abs_wg s)\<lparr>st_phase := (st_phase (abs_wg s))(c := Resumed h)\<rparr>)"
    by (rule wg_step.ready) (simp_all add: ready.hyps)
  also have "(abs_wg s)\<lparr>st_phase := (st_phase (abs_wg s))(c := Resumed h)\<rparr> = abs_wg (s\<lparr>sy_handler := (sy_handler s)(c := Waking req h)\<rparr>)"
    by (rule wg_state_eqI) simp_all
  finally show ?case by (rule r_into_rtranclp)
next
  case (suspend s c req h wg suspended)
  have "wg_step (abs_wg s) \<lparr>st_wg = wg, st_phase = (st_phase (abs_wg s))(c := if suspended then Suspended h else Resumed h)\<rparr>"
    by (rule wg_step.suspend) (simp_all add: suspend.hyps)
  also have "\<lparr>st_wg = wg, st_phase = (st_phase (abs_wg s))(c := if suspended then Suspended h else Resumed h)\<rparr> =
      abs_wg (s\<lparr>sy_co := (sy_co s)\<lparr>co_wait_group := wg\<rparr>, sy_handler := (sy_handler s)(c := if suspended then Sleeping req h else Waking req h)\<rparr>)"
    by (rule wg_state_eqI) simp_all
  finally show ?case by (rule r_into_rtranclp)
next
  case (resume s c req h)
  let ?s1 = "(abs_wg s)\<lparr>st_phase := (st_phase (abs_wg s))(c := Done h (await_resume (co_wait_group (sy_co s)) h))\<rparr>"
  have "wg_step (abs_wg s) ?s1" using wg_step.resume [of "abs_wg s" c h] by (simp add: resume.hyps)
  moreover have "wg_step ?s1 (?s1\<lparr>st_phase := (st_phase ?s1)(c := Idle)\<rparr>)" by (rule wg_step.again) simp
  moreover have "?s1\<lparr>st_phase := (st_phase ?s1)(c := Idle)\<rparr> = abs_wg (s\<lparr>sy_handler := (sy_handler s)(c :=
      Replying req (wait_response (await_resume (co_wait_group (sy_co s)) h)))\<rparr>)"
    by (rule wg_state_eqI) simp_all
  ultimately show ?case by (metis converse_rtranclp_into_rtranclp rtranclp.rtrancl_refl)
next
  case (reply s c req resp cn ok)
  then have "abs_wg (s\<lparr>sy_conn := (sy_conn s)(c := cn), sy_handler := (sy_handler s)(c := if ok then Reading else Closed),
                 sy_log := (sy_log s)(c := if ok then sy_log s c @ [(req, resp)] else sy_log s c)\<rparr>) = abs_wg s"
    by (intro wg_state_eqI) simp_all
  then show ?case by (simp only: rtranclp.rtrancl_refl)
next
  case (gossip s ml rs)
  then have "abs_wg (s\<lparr>sy_co := (sy_co s)\<lparr>co_ring := rs, co_members := ml\<rparr>\<rparr>) = abs_wg s" by (intro wg_state_eqI) simp_all
  then show ?case by (simp only: rtranclp.rtrancl_refl)
next
  case (network s net)
  then have "abs_wg (s\<lparr>sy_net := net\<rparr>) = abs_wg s" by (intro wg_state_eqI) simp_all
  then show ?case by (simp only: rtranclp.rtrancl_refl)
qed

lemma abs_wg_reachable: "co_reachable s\<^sub>0 s \<Longrightarrow> wg_reachable (abs_wg s)"
proof (induction rule: co_reachable.induct)
  case start
  then have "abs_wg s\<^sub>0 = wg_init" by (intro wg_state_eqI) (simp_all add: sys_init_def wg_init_def)
  then show ?case by (simp add: wg_reachable.init)
next
  case (step s t)
  have "wg_step\<^sup>*\<^sup>* (abs_wg s) (abs_wg t)" by (rule co_step_sim [OF step.hyps(2) wg_reachable_inv [OF step.IH]])
  then show ?case using step.IH by (induction rule: rtranclp_induct) (auto intro: wg_reachable.step)
qed

section \<open>One response per request, in order\<close>

text \<open>\<open>reads_as bs reqs rest\<close>: the bytes are frames of the requests, in order, and then the rest.\<close>

fun reads_as :: "bytes \<Rightarrow> request list \<Rightarrow> bytes \<Rightarrow> bool" where
  "reads_as bs [] rest \<longleftrightarrow> bs = rest"
| "reads_as bs (r # rs) rest \<longleftrightarrow> (\<exists>flags bs'. bs = request_frame flags r @ bs' \<and> reads_as bs' rs rest)"

lemma reads_as_snoc: "reads_as bs rs (request_frame flags r @ rest) \<Longrightarrow> reads_as bs (rs @ [r]) rest"
  by (induction rs arbitrary: bs) auto

lemma reads_as_prefix: "reads_as bs (rs @ [r]) rest \<Longrightarrow> \<exists>rest. reads_as bs rs rest"
proof (induction rs arbitrary: bs)
  case (Cons a rs)
  then obtain flags bs' where "bs = request_frame flags a @ bs'" "reads_as bs' (rs @ [r]) rest" by auto
  moreover from Cons.IH [OF this(2)] obtain y where "reads_as bs' rs y" by blast
  ultimately show ?case by auto
next
  case Nil
  show ?case by (rule exI [of _ bs]) simp
qed

fun in_flight :: "handler \<Rightarrow> request list" where
  "in_flight (Proxying req n fh) = [req]"
| "in_flight (Joining req h) = [req]"
| "in_flight (Sleeping req h) = [req]"
| "in_flight (Waking req h) = [req]"
| "in_flight (Replying req resp) = [req]"
| "in_flight _ = []"

definition responses_written :: "(request \<times> response) list \<Rightarrow> bytes" where
  "responses_written log = concat (map (\<lambda>(req, resp). serialize_response resp) log)"

text \<open>What holds of a connection: \<open>cn\<^sub>0\<close> is its initial state.\<close>

fun conn_ok :: "conn \<Rightarrow> conn \<Rightarrow> handler \<Rightarrow> (request \<times> response) list \<Rightarrow> bool" where
  "conn_ok cn\<^sub>0 cn Closed log \<longleftrightarrow>
     (\<exists>rest. reads_as (avail (c_in cn\<^sub>0)) (map fst log) rest) \<and>
     (\<exists>part resp more. c_out cn = c_out cn\<^sub>0 @ responses_written log @ part \<and>
        serialize_response resp = part @ more \<and> more \<noteq> [])"
| "conn_ok cn\<^sub>0 cn h log \<longleftrightarrow>
     reads_as (avail (c_in cn\<^sub>0)) (map fst log @ in_flight h) (avail (c_in cn)) \<and>
     c_out cn = c_out cn\<^sub>0 @ responses_written log"

lemma conn_ok_open:
  "h \<noteq> Closed \<Longrightarrow> conn_ok cn\<^sub>0 cn h log \<longleftrightarrow>
     reads_as (avail (c_in cn\<^sub>0)) (map fst log @ in_flight h) (avail (c_in cn)) \<and>
     c_out cn = c_out cn\<^sub>0 @ responses_written log"
  by (cases h) simp_all

lemma start_handler_open [simp]: "start_handler req r \<noteq> Closed" "in_flight (start_handler req r) = [req]"
  by (cases r; simp)+

lemma wake_open [simp]: "wake h = Closed \<longleftrightarrow> h = Closed" "in_flight (wake h) = in_flight h"
  by (cases h; simp)+

lemma serialize_response_nonempty: "serialize_response resp \<noteq> []"
  by (simp add: serialize_response_frame response_frame_def kHeaderSize_def flip: length_greater_0_conv)

lemma conn_ok_read:
  assumes "conn_ok cn\<^sub>0 cn Reading log" and r: "read_request (c_in cn) = (ds, Some req)"
  shows "conn_ok cn\<^sub>0 (cn\<lparr>c_in := ds\<rparr>) (start_handler req x) log"
proof -
  have "parse_request (avail (c_in cn)) = Some req" using read_request_parse [of "c_in cn"] r by simp
  from parse_request_SomeD [OF this] obtain flags rest where f: "avail (c_in cn) = request_frame flags req @ rest" by blast
  with read_request_rest [OF r f] have "avail (c_in cn) = request_frame flags req @ avail ds" by simp
  with assms(1) show ?thesis by (auto simp: conn_ok_open intro: reads_as_snoc)
qed

lemma conn_ok_end: "conn_ok cn\<^sub>0 cn Reading log \<Longrightarrow> conn_ok cn\<^sub>0 (cn\<lparr>c_in := ds\<rparr>) Closed log"
  using serialize_response_nonempty append_Nil by (simp, blast)

lemma conn_ok_reply:
  assumes ok: "conn_ok cn\<^sub>0 cn (Replying req resp) log" and w: "write_response cn resp = (cn', b)"
  shows "conn_ok cn\<^sub>0 cn' (if b then Reading else Closed) (if b then log @ [(req, resp)] else log)"
proof -
  obtain rs out where wa: "write_all (c_wr cn) (c_out cn) (serialize_response resp) = (rs, out, b)" "cn' = cn\<lparr>c_wr := rs, c_out := out\<rparr>"
    using w by (auto simp: write_response_eq split: prod.splits)
  obtain sent rest where s: "out = c_out cn @ sent" "serialize_response resp = sent @ rest" "b \<longleftrightarrow> rest = []"
    using write_all_prefix [where rs = "c_wr cn" and out = "c_out cn" and src = "serialize_response resp"] wa(1) by auto
  have r: "reads_as (avail (c_in cn\<^sub>0)) (map fst log @ [req]) (avail (c_in cn))" "c_out cn = c_out cn\<^sub>0 @ responses_written log"
    using ok by simp_all
  show ?thesis
  proof (cases b)
    case True
    then show ?thesis using r s wa(2) by (simp add: responses_written_def)
  next
    case False
    have "\<exists>rest. reads_as (avail (c_in cn\<^sub>0)) (map fst log) rest" by (rule reads_as_prefix [OF r(1)])
    moreover have "c_out cn' = c_out cn\<^sub>0 @ responses_written log @ sent" using r(2) s(1) wa(2) by simp
    ultimately show ?thesis using False s(2,3) by auto
  qed
qed

lemma conn_ok_same:
  "in_flight h = in_flight h' \<Longrightarrow> h \<noteq> Closed \<Longrightarrow> h' \<noteq> Closed \<Longrightarrow> conn_ok cn\<^sub>0 cn h log \<longleftrightarrow> conn_ok cn\<^sub>0 cn h' log"
  by (simp add: conn_ok_open)

lemma conn_ok_step:
  assumes "co_step s t" and "conn_ok cn\<^sub>0 (sy_conn s e) (sy_handler s e) (sy_log s e)"
  shows "conn_ok cn\<^sub>0 (sy_conn t e) (sy_handler t e) (sy_log t e)"
  using assms
proof (induction rule: co_step.induct)
  case (read s c ds req co r)
  then show ?case using conn_ok_read [of cn\<^sub>0 "sy_conn s c" "sy_log s c" ds req r] by (cases "e = c") simp_all
next
  case (end_of_stream s c ds)
  then show ?case using conn_ok_end [of cn\<^sub>0 "sy_conn s c" "sy_log s c" ds] by (cases "e = c") simp_all
next
  case (proxied s c req n fh d co net resp closed co' woken)
  show ?case
  proof (cases "e \<noteq> c \<and> e \<in> set woken")
    case True
    then show ?thesis using proxied.prems conn_ok_same [of "wake (sy_handler s e)" "sy_handler s e"]
      by (cases "sy_handler s e = Closed") auto
  next
    case False
    then show ?thesis using proxied by (cases "e = c") simp_all
  qed
next
  case (reply s c req resp cn ok)
  then show ?case using conn_ok_reply [of cn\<^sub>0 "sy_conn s c" req resp "sy_log s c" cn ok]
    by (cases "e = c"; cases ok) simp_all
next
  case (ready s c req h)
  then show ?case by (cases "e = c") simp_all
next
  case (suspend s c req h wg suspended)
  then show ?case by (cases "e = c"; cases suspended) simp_all
next
  case (resume s c req h)
  then show ?case by (cases "e = c") simp_all
qed simp_all

lemma conn_ok_reachable: "co_reachable s\<^sub>0 s \<Longrightarrow> conn_ok (sy_conn s\<^sub>0 c) (sy_conn s c) (sy_handler s c) (sy_log s c)"
  by (induction rule: co_reachable.induct) (auto simp: sys_init_def responses_written_def intro: conn_ok_step)

section \<open>Fetches are shared per key\<close>

fun handler_fetch :: "handler \<Rightarrow> (string \<times> nat) option" where
  "handler_fetch (Proxying req n (Some h)) = Some (req_key req, h)"
| "handler_fetch (Joining req h) = Some (req_key req, h)"
| "handler_fetch (Sleeping req h) = Some (req_key req, h)"
| "handler_fetch (Waking req h) = Some (req_key req, h)"
| "handler_fetch _ = None"

definition keys_ok :: "system \<Rightarrow> bool" where
  "keys_ok s \<longleftrightarrow> (\<exists>K. (\<forall>c key h. handler_fetch (sy_handler s c) = Some (key, h) \<longrightarrow> key = K h) \<and>
     (\<forall>key h. um_find key (wg_pending (co_wait_group (sy_co s))) = Some h \<longrightarrow> key = K h))"

lemma handler_fetch_less:
  assumes "wg_inv (abs_wg s)" and "handler_fetch (sy_handler s c) = Some (key, h)"
  shows "h < length (wg_fetches (co_wait_group (sy_co s)))"
proof -
  have "phase_handle (abs_phase (sy_handler s c)) = Some h"
    using assms(2) by (cases "sy_handler s c") (auto simp: abs_phase_Proxying split: option.splits elim: handler_fetch.elims)
  then show ?thesis using handle_less [of "abs_wg s" c h] assms(1) by (simp add: wg_inv_def)
qed

lemma pending_less:
  assumes "wg_inv (abs_wg s)" and "um_find key (wg_pending (co_wait_group (sy_co s))) = Some h"
  shows "h < length (wg_fetches (co_wait_group (sy_co s)))"
proof -
  obtain c where "st_phase (abs_wg s) c = Fetching key h"
    using assms table_find [of "abs_wg s" key h] by (auto simp: wg_inv_def)
  then show ?thesis using handle_less [of "abs_wg s" c h] assms(1) by (simp add: wg_inv_def)
qed

lemma keys_ok_shrink:
  assumes "keys_ok s" and "\<And>c. handler_fetch (sy_handler t c) \<in> {None, handler_fetch (sy_handler s c)}"
    and "\<And>key h. um_find key (wg_pending (co_wait_group (sy_co t))) = Some h \<Longrightarrow>
           um_find key (wg_pending (co_wait_group (sy_co s))) = Some h"
  shows "keys_ok t"
proof -
  obtain K where K: "\<And>c key h. handler_fetch (sy_handler s c) = Some (key, h) \<Longrightarrow> key = K h"
    "\<And>key h. um_find key (wg_pending (co_wait_group (sy_co s))) = Some h \<Longrightarrow> key = K h"
    using assms(1) unfolding keys_ok_def by blast
  have "key = K h" if "handler_fetch (sy_handler t c) = Some (key, h)" for c key h
    using that assms(2) [of c] K(1) [of c key h] by auto
  then show ?thesis using K(2) assms(3) unfolding keys_ok_def by blast
qed

lemma keys_ok_join:
  assumes inv: "wg_inv (abs_wg s)" and ok: "keys_ok s"
    and j: "try_join (co_wait_group (sy_co s)) key = (co_wait_group (sy_co t), initiator, h)"
    and t: "\<And>e. handler_fetch (sy_handler t e) = (if e = c then Some (key, h) else handler_fetch (sy_handler s e))"
  shows "keys_ok t"
proof -
  obtain K where K: "\<And>c k i. handler_fetch (sy_handler s c) = Some (k, i) \<Longrightarrow> k = K i"
    "\<And>k i. um_find k (wg_pending (co_wait_group (sy_co s))) = Some i \<Longrightarrow> k = K i"
    using ok unfolding keys_ok_def by blast
  show ?thesis
  proof (cases "um_find key (wg_pending (co_wait_group (sy_co s)))")
    case (Some h')
    then have j': "co_wait_group (sy_co t) = co_wait_group (sy_co s)" "h = h'" using j by (auto simp: try_join_def)
    have "k = K i" if "handler_fetch (sy_handler t e) = Some (k, i)" for e k i
      using that t [of e] K(1) [of e k i] K(2) [OF Some] j'(2) by (auto split: if_splits)
    moreover have "k = K i" if "um_find k (wg_pending (co_wait_group (sy_co t))) = Some i" for k i
      using that K(2) [of k i] j'(1) by simp
    ultimately show ?thesis unfolding keys_ok_def by blast
  next
    case None
    let ?n = "length (wg_fetches (co_wait_group (sy_co s)))"
    have "h = ?n \<and> co_wait_group (sy_co t) = (co_wait_group (sy_co s))\<lparr>
        wg_fetches := wg_fetches (co_wait_group (sy_co s)) @ [new_pending_fetch],
        wg_pending := um_set key ?n (wg_pending (co_wait_group (sy_co s)))\<rparr>"
      using j None by (auto simp: try_join_def Let_def)
    then have j': "h = ?n" "wg_pending (co_wait_group (sy_co t)) = um_set key ?n (wg_pending (co_wait_group (sy_co s)))"
      by simp_all
    have "k = (K(?n := key)) i" if "handler_fetch (sy_handler t e) = Some (k, i)" for e k i
    proof (cases "e = c")
      case False
      then have s: "handler_fetch (sy_handler s e) = Some (k, i)" using that t [of e] by simp
      then have "i < ?n" by (rule handler_fetch_less [OF inv])
      then show ?thesis using K(1) [OF s] by simp
    qed (use that t [of e] j'(1) in simp)
    moreover have "k = (K(?n := key)) i" if "um_find k (wg_pending (co_wait_group (sy_co t))) = Some i" for k i
    proof (cases "k = key")
      case False
      then have s: "um_find k (wg_pending (co_wait_group (sy_co s))) = Some i" using that j'(2) by simp
      then have "i < ?n" by (rule pending_less [OF inv])
      then show ?thesis using K(2) [OF s] by simp
    qed (use that j'(2) in simp)
    ultimately show ?thesis unfolding keys_ok_def by blast
  qed
qed

lemma route_fetch:
  assumes "route co req = (co', r)"
  shows "(\<exists>initiator h. try_join (co_wait_group co) (req_key req) = (co_wait_group co', initiator, h) \<and>
            handler_fetch (start_handler req r) = Some (req_key req, h)) \<or>
         (co_wait_group co' = co_wait_group co \<and> handler_fetch (start_handler req r) = None)"
  using assms by (cases rule: route_cases) (auto split: if_splits)

lemma handler_fetch_wake [simp]: "handler_fetch (wake h) = handler_fetch h"
  by (cases h) simp_all

lemma finish_proxy_pending:
  assumes "finish_proxy co req resp fh = (co', woken)" and "um_find key (wg_pending (co_wait_group co')) = Some h"
  shows "um_find key (wg_pending (co_wait_group co)) = Some h"
  using assms by (auto simp: finish_proxy_def complete_fetch_def complete_take_def complete_publish_def Let_def
      split: option.splits prod.splits if_splits)

lemma await_suspend_pending: "await_suspend wg h c = (wg', b) \<Longrightarrow> wg_pending wg' = wg_pending wg"
  by (auto simp: await_suspend_def Let_def split: if_splits)

lemma keys_ok_step:
  assumes "co_step s t" and "wg_inv (abs_wg s)" and "keys_ok s"
  shows "keys_ok t"
  using assms
proof (induction rule: co_step.induct)
  case (read s c ds req co r)
  from route_fetch [OF read.hyps(3)] show ?case
  proof (elim disjE exE conjE)
    fix initiator h assume "try_join (co_wait_group (sy_co s)) (req_key req) = (co_wait_group co, initiator, h)"
      "handler_fetch (start_handler req r) = Some (req_key req, h)"
    then show ?thesis by (intro keys_ok_join [OF read.prems, where c = c and key = "req_key req" and h = h and initiator = initiator]) simp_all
  next
    assume "co_wait_group co = co_wait_group (sy_co s)" "handler_fetch (start_handler req r) = None"
    then show ?thesis by (intro keys_ok_shrink [OF read.prems(2)]) simp_all
  qed
next
  case (proxied s c req n fh d co net resp closed co' woken)
  show ?case
    by (rule keys_ok_shrink [OF proxied.prems(2)])
      (use finish_proxy_pending [OF proxied.hyps(3)] proxy_wait_group [OF proxied.hyps(2)] in simp_all)
next
  case (suspend s c req h wg suspended)
  then show ?case by (intro keys_ok_shrink [OF suspend.prems(2)]) (simp_all add: await_suspend_pending)
next
  case (ready s c req h)
  then show ?case by (intro keys_ok_shrink [OF ready.prems(2)]) simp_all
next
  case (end_of_stream s c ds)
  then show ?case by (intro keys_ok_shrink [OF end_of_stream.prems(2)]) simp_all
next
  case (resume s c req h)
  then show ?case by (intro keys_ok_shrink [OF resume.prems(2)]) simp_all
next
  case (reply s c req resp cn ok)
  then show ?case by (intro keys_ok_shrink [OF reply.prems(2)]) simp_all
qed (simp_all add: keys_ok_def)

lemma co_reachable_keys: "co_reachable s\<^sub>0 s \<Longrightarrow> keys_ok s"
proof (induction rule: co_reachable.induct)
  case start
  then show ?case by (simp add: sys_init_def keys_ok_def new_wait_group_def)
next
  case (step s t)
  show ?case by (rule keys_ok_step [OF step.hyps(2) wg_reachable_inv [OF abs_wg_reachable [OF step.hyps(1)]] step.IH])
qed

section \<open>Local requests\<close>

text \<open>What a request to the owner of its key means, on the map from keys to values.\<close>

definition local_spec :: "(string \<Rightarrow> string option) \<Rightarrow> request \<Rightarrow> response \<Rightarrow> (string \<Rightarrow> string option) \<Rightarrow> bool" where
  "local_spec m req resp m' \<longleftrightarrow>
     (let k = req_key req; st = resp_status resp
      in if req_opcode req = Opcode_Get
         then resp = wait_response (m k) \<and> m' = m
         else if req_opcode req = Opcode_Put
         then st \<in> {Status_Ok, Status_Error} \<and> m' k = (if st = Status_Ok then Some (req_value req) else None) \<and> m'(k := None) \<subseteq>\<^sub>m m
         else if req_opcode req = Opcode_Del
         then st = (if m k = None then Status_NotFound else Status_Ok) \<and> m' = m(k := None)
         else st = Status_Error \<and> m' = m)"

lemma serve_local_spec:
  assumes r: "ls_reachable store" and s: "serve_local store req = (store', resp)"
  shows "ls_reachable store' \<and> local_spec (ls_view store) req resp (ls_view store')"
proof -
  note ok = ls_reachable_ok [OF r]
  note ops = Opcode_Get_def Opcode_Put_def Opcode_Del_def
  consider "req_opcode req = Opcode_Get" | "req_opcode req = Opcode_Put" | "req_opcode req = Opcode_Del"
    | "req_opcode req \<notin> {Opcode_Get, Opcode_Put, Opcode_Del}" by blast
  then show ?thesis
  proof cases
    case 1
    obtain ls v where g: "ls_get store (req_key req) = (ls, v)" by fastforce
    have "ls_reachable ls" using ls_reachable.get [OF r, of "req_key req"] g by simp
    moreover have "store' = ls" "resp = wait_response v"
      using s 1 g by (auto simp: serve_local_def wait_response_def split: option.splits)
    ultimately show ?thesis using 1 ls_get_sim [OF ok g] by (simp add: local_spec_def)
  next
    case 2
    obtain ls b where p: "ls_put store (req_key req) (req_value req) = (ls, b)" by fastforce
    have "ls_reachable ls" using ls_reachable.put [OF r, of "req_key req" "req_value req"] p by simp
    moreover have "store' = ls" "resp = \<lparr>resp_status = (if b then Status_Ok else Status_Error), resp_value = []\<rparr>"
      using s 2 p by (auto simp: serve_local_def ops)
    moreover have "Status_Ok \<noteq> Status_Error" by (simp add: Status_Ok_def Status_Error_def)
    ultimately show ?thesis using 2 ls_put_sim [OF ok p] by (auto simp: local_spec_def ops)
  next
    case 3
    obtain ls b where p: "ls_del store (req_key req) = (ls, b)" by fastforce
    have "ls_reachable ls" using ls_reachable.del [OF r, of "req_key req"] p by simp
    moreover have "store' = ls" "resp = \<lparr>resp_status = (if b then Status_Ok else Status_NotFound), resp_value = []\<rparr>"
      using s 3 p by (auto simp: serve_local_def ops)
    ultimately show ?thesis using 3 ls_del_sim [OF ok p] by (auto simp: local_spec_def ops)
  next
    case 4
    then show ?thesis using s r by (auto simp: serve_local_def local_spec_def)
  qed
qed

section \<open>Descriptors\<close>

lemma acquired_fd:
  assumes "fds_ok pc held opn" and "pc_acquire pc host port d = (pc', fd, closed)" and "0 \<le> fd"
  shows "fd \<in> insert (dial_socket d) opn"
proof (cases "\<exists>f fds. um_find (host, port) (pc_conn_pool pc) = Some (f # fds)")
  case True
  then obtain f fds where f: "um_find (host, port) (pc_conn_pool pc) = Some (f # fds)" by blast
  then have "fd = f" using assms(2) by (simp add: pc_acquire_def)
  moreover have "f \<in> set (pc_destroy pc)" using um_find_SomeD [OF f] by (force simp: pc_destroy_def)
  ultimately show ?thesis using assms(1) by (auto simp: fds_ok_def)
next
  case False
  then have "open_connection d = (fd, closed)" using assms(2) by (auto simp: pc_acquire_def split: option.splits list.splits)
  then show ?thesis using assms(3) by (auto simp: open_connection_def Let_def split: if_splits)
qed

section \<open>An example\<close>

text \<open>Two clients ask for the same key, which another node owns.\<close>

abbreviation example_request :: request where
  "example_request \<equiv> \<lparr>req_opcode = Opcode_Get, req_key = ''k'', req_value = []\<rparr>"

abbreviation example_peer :: node_id where
  "example_peer \<equiv> \<lparr>node_host = ''b'', node_port = 1\<rparr>"

abbreviation example_coordinator :: "local_store \<Rightarrow> wait_group \<Rightarrow> coordinator" where
  "example_coordinator store wg \<equiv>
     (new_coordinator store \<lparr>rs_ring = [(0, example_peer)]\<rparr> new_member_list \<lparr>node_host = ''a'', node_port = 1\<rparr> None)\<lparr>co_wait_group := wg\<rparr>"

abbreviation example_conn :: conn where
  "example_conn \<equiv> \<lparr>c_in = [Data (request_frame 0 example_request)], c_wr = [], c_out = []\<rparr>"

abbreviation example_system :: "local_store \<Rightarrow> system" where
  "example_system store \<equiv> \<lparr>sy_co = example_coordinator store new_wait_group, sy_net = (\<lambda>_. example_conn),
     sy_conn = (\<lambda>_. example_conn), sy_handler = (\<lambda>_. Reading), sy_log = (\<lambda>_. [])\<rparr>"

lemma example_read: obtains ds where "read_request (c_in example_conn) = (ds, Some example_request)"
proof -
  have "request_frame 0 example_request \<noteq> []" by (simp add: request_frame_def)
  then have "avail (c_in example_conn) = request_frame 0 example_request @ []" by simp
  moreover have "request_fits example_request" by (simp add: request_fits_def)
  ultimately have "snd (read_request (c_in example_conn)) = Some example_request"
    unfolding read_request_parse by (simp only: parse_request_frame)
  then show thesis using that by (metis prod.collapse)
qed

lemma example_owner: "get_node_for_key \<lparr>rs_ring = [(0, example_peer)]\<rparr> hash = Some example_peer"
  by (simp add: get_node_for_key_def snapshot_def Let_def lower_bound_def)

lemma example_route:
  "try_join wg ''k'' = (wg', initiator, h) \<Longrightarrow>
   route (example_coordinator store wg) example_request =
     (example_coordinator store wg', if initiator then Fetch example_peer h else Join h)"
  by (simp add: route_def example_owner new_coordinator_def Opcode_Get_def Opcode_ClusterInfo_def)

lemma example_steps:
  assumes "wg = \<lparr>wg_fetches = [new_pending_fetch], wg_pending = [(''k'', 0)]\<rparr>"
  obtains s where "co_reachable (example_system store) s"
    and "sy_handler s 0 = Proxying example_request example_peer (Some 0)" and "sy_handler s 1 = Sleeping example_request 0"
    and "sy_log s 0 = []"
proof -
  obtain ds where ds: "read_request (c_in example_conn) = (ds, Some example_request)" by (rule example_read)
  let ?s0 = "example_system store"
  let ?s1 = "?s0\<lparr>sy_co := example_coordinator store wg, sy_conn := (sy_conn ?s0)(0 := (sy_conn ?s0 0)\<lparr>c_in := ds\<rparr>),
    sy_handler := (sy_handler ?s0)(0 := Proxying example_request example_peer (Some 0))\<rparr>"
  let ?s2 = "?s1\<lparr>sy_co := example_coordinator store wg, sy_conn := (sy_conn ?s1)(1 := (sy_conn ?s1 1)\<lparr>c_in := ds\<rparr>),
    sy_handler := (sy_handler ?s1)(1 := Joining example_request 0)\<rparr>"
  have j: "try_join new_wait_group ''k'' = (wg, True, 0)" "try_join wg ''k'' = (wg, False, 0)"
    by (simp_all add: assms try_join_def new_wait_group_def um_find_def um_set_def)
  have "co_reachable ?s0 ?s0" by (rule co_reachable.start) (simp add: sys_init_def)
  moreover have "co_step ?s0 ?s1"
    using co_step.read [of ?s0 0 ds example_request "example_coordinator store wg" "Fetch example_peer 0"]
      example_route [OF j(1), of store] ds by simp
  moreover have "co_step ?s1 ?s2"
    using co_step.read [of ?s1 1 ds example_request "example_coordinator store wg" "Join 0"]
      example_route [OF j(2), of store] ds by simp
  ultimately have r2: "co_reachable ?s0 ?s2" by (blast intro: co_reachable.step)
  obtain wg' where "await_suspend wg 0 1 = (wg', True)" by (simp add: assms await_suspend_def new_pending_fetch_def)
  then have "co_step ?s2 (?s2\<lparr>sy_co := (sy_co ?s2)\<lparr>co_wait_group := wg'\<rparr>, sy_handler := (sy_handler ?s2)(1 := Sleeping example_request 0)\<rparr>)"
    using co_step.suspend [of ?s2 1 example_request 0 wg' True] by simp
  from co_reachable.step [OF r2 this] show thesis by (rule that) simp_all
qed

section \<open>Properties\<close>

text \<open>
  C9. Every client gets one response per request, in the order of its requests, whatever the
  interleaving of connections, the timing of peers, and the way the network cuts the streams: what
  was written to an open connection is exactly the responses to the requests read from it, except
  the one being handled. A connection that was closed has in addition at most a proper prefix of
  the next response.
\<close>
theorem client_pipeline:
  assumes "co_reachable s\<^sub>0 s"
  shows "if sy_handler s c = Closed
         then (\<exists>rest. reads_as (avail (c_in (sy_conn s\<^sub>0 c))) (map fst (sy_log s c)) rest) \<and>
           (\<exists>part resp more. c_out (sy_conn s c) = c_out (sy_conn s\<^sub>0 c) @ responses_written (sy_log s c) @ part \<and>
              serialize_response resp = part @ more \<and> more \<noteq> [])
         else reads_as (avail (c_in (sy_conn s\<^sub>0 c))) (map fst (sy_log s c) @ in_flight (sy_handler s c)) (avail (c_in (sy_conn s c))) \<and>
           c_out (sy_conn s c) = c_out (sy_conn s\<^sub>0 c) @ responses_written (sy_log s c)"
  using conn_ok_reachable [OF assms, of c] conn_ok_open by (cases "sy_handler s c = Closed") simp_all

theorem client_pipeline_witness:
  "\<exists>s :: system. in_flight (sy_handler s 0) = [example_request] \<and>
     reads_as (request_frame 0 example_request) [example_request] (avail (c_in (sy_conn s 0)))"
proof -
  obtain ls :: local_store where "ls_reachable ls" by (rule example_store)
  obtain s where s: "co_reachable (example_system ls) s" "sy_handler s 0 = Proxying example_request example_peer (Some 0)" "sy_log s 0 = []"
    using example_steps [OF refl] by metis
  have "avail (c_in example_conn) = request_frame 0 example_request" by (simp add: request_frame_def)
  then show ?thesis using client_pipeline [OF s(1), of 0] s(2,3) by (intro exI [of _ s]) simp
qed

text \<open>
  C14. Collapsed requests: a client that waits for somebody else's fetch waits for a fetch of its own
  key, which exactly one other connection is performing; when that exchange ends the client is
  woken, and its answer is the answer of the peer if that is \<open>Ok\<close>, and \<open>NotFound\<close> in every other
  case, also when the exchange failed.
\<close>
theorem collapsed_request_answered:
  assumes "co_reachable s\<^sub>0 s" and "sy_handler s c = Sleeping req h"
  shows "\<exists>e r n. sy_handler s e = Proxying r n (Some h) \<and> req_key r = req_key req \<and>
    (\<forall>f. (\<exists>r n. sy_handler s f = Proxying r n (Some h)) \<longrightarrow> f = e) \<and>
    (\<forall>d co net resp closed co' woken.
       proxy_to_peer (sy_co s) (sy_net s) d r n = (co, net, resp, closed) \<longrightarrow> finish_proxy co r resp (Some h) = (co', woken) \<longrightarrow>
       c \<in> set woken \<and> wait_response (await_resume (co_wait_group co') h) =
         (if resp_status resp = Status_Ok then resp else \<lparr>resp_status = Status_NotFound, resp_value = []\<rparr>))"
proof -
  have inv: "wg_inv (abs_wg s)" by (rule wg_reachable_inv [OF abs_wg_reachable [OF assms(1)]])
  have "st_phase (abs_wg s) c = Suspended h" using assms(2) by simp
  from suspended_has_owner [OF inv this] obtain e r n where e: "sy_handler s e = Proxying r n (Some h)"
    by (auto simp: owns_def abs_phase_iff)
  have "handler_fetch (sy_handler s c) = Some (req_key req, h)" "handler_fetch (sy_handler s e) = Some (req_key r, h)"
    using assms(2) e by simp_all
  with co_reachable_keys [OF assms(1)] have key: "req_key r = req_key req" unfolding keys_ok_def by metis
  have uniq: "f = e" if "sy_handler s f = Proxying r' n' (Some h)" for f r' n'
    using owner_unique [of "abs_wg s" f h e] inv that e by (auto simp: wg_inv_def owns_def)
  have ans: "c \<in> set woken \<and> wait_response (await_resume (co_wait_group co') h) =
         (if resp_status resp = Status_Ok then resp else \<lparr>resp_status = Status_NotFound, resp_value = []\<rparr>)"
    if p: "proxy_to_peer (sy_co s) (sy_net s) d r n = (co, net, resp, closed)" and f: "finish_proxy co r resp (Some h) = (co', woken)"
    for d co net resp closed co' woken
  proof -
    obtain wg where cf: "complete_fetch (co_wait_group (sy_co s)) (req_key r) (fetch_value resp) = (wg, woken)" "co' = co\<lparr>co_wait_group := wg\<rparr>"
      using f proxy_wait_group [OF p] by (auto simp: finish_proxy_def split: prod.splits)
    let ?t = "s\<lparr>sy_co := co', sy_handler := (\<lambda>f. if f = e then Replying r resp else if f \<in> set woken then wake (sy_handler s f) else sy_handler s f)\<rparr>"
    have t: "co_wait_group (sy_co ?t) = wg"
      "\<And>f. sy_handler ?t f = (if f = e then Replying r resp else if f \<in> set woken then wake (sy_handler s f) else sy_handler s f)"
      by (simp_all add: cf(2))
    have "c \<in> set woken" using sim_complete(2) [OF inv e cf(1) t] assms(2) by blast
    moreover have "await_resume wg h = fetch_value resp" by (rule sim_complete(3) [OF inv e cf(1) t])
    ultimately show ?thesis by (cases resp) (simp add: cf(2) wait_response_def fetch_value_def)
  qed
  show ?thesis using e key uniq ans by (intro exI conjI allI impI) blast+
qed

theorem collapsed_request_answered_witness:
  "\<exists>(s :: system) e r n. sy_handler s 1 = Sleeping example_request 0 \<and> sy_handler s e = Proxying r n (Some 0) \<and> req_key r = ''k''"
proof -
  obtain ls :: local_store where "ls_reachable ls" by (rule example_store)
  obtain s where s: "co_reachable (example_system ls) s" "sy_handler s 1 = Sleeping example_request 0"
    using example_steps [OF refl] by metis
  from collapsed_request_answered [OF s] obtain e r n where "sy_handler s e = Proxying r n (Some 0)" "req_key r = ''k''" by auto
  with s(2) show ?thesis by blast
qed

text \<open>
  C15. Requests for keys this node owns (and all requests while the ring is empty) are answered from
  the local store, as operations on a map that may forget; all others leave the store alone.
\<close>
theorem local_requests_refine:
  assumes "ls_reachable (co_store co)" and "route co req = (co', r)"
  shows "ls_reachable (co_store co') \<and>
    (if req_opcode req \<noteq> Opcode_ClusterInfo \<and> get_node_for_key (co_ring co) (hash_key (req_key req)) \<in> {None, Some (co_self co)}
     then \<exists>resp. r = Reply resp \<and> local_spec (ls_view (co_store co)) req resp (ls_view (co_store co'))
     else co_store co' = co_store co)"
  using assms(2)
proof (cases rule: route_cases)
  case (local store resp)
  then show ?thesis using serve_local_spec [OF assms(1) local(3)] by simp
qed (use assms(1) in auto)

theorem local_requests_refine_witness:
  "\<exists>(co :: coordinator) co' resp. route co example_request = (co', Reply resp) \<and>
     local_spec (ls_view (co_store co)) example_request resp (ls_view (co_store co'))"
proof -
  obtain ls where ls: "ls_reachable ls" by (rule example_store)
  let ?co = "new_coordinator ls new_ring_store new_member_list example_peer None"
  obtain co' r where r: "route ?co example_request = (co', r)" by fastforce
  have "ls_reachable (co_store ?co)" using ls by (simp add: new_coordinator_def)
  from local_requests_refine [OF this r] have "\<exists>resp. r = Reply resp \<and> local_spec (ls_view (co_store ?co)) example_request resp (ls_view (co_store co'))"
    by (simp add: new_coordinator_def get_node_for_key_def snapshot_def new_ring_store_def Opcode_Get_def Opcode_ClusterInfo_def)
  with r show ?thesis by blast
qed



end
