(* ===== verification/TopologyManager.thy ===== *)
theory TopologyManager
  imports Coordinator
begin

text \<open>
  The client's view of the cluster (\<open>src/src/sdk/topology_manager.h\<close> and \<open>topology_manager.cpp\<close>): it
  fetches the list of alive nodes from a server, and builds its own hash ring from it, so that it
  can send a request directly to the owner of the key.

  What \<open>getaddrinfo\<close>, \<open>socket\<close> and \<open>connect\<close> answer is an argument (a \<open>tcp_dial\<close>), and so is the
  socket that is connected. \<open>send_all\<close> and \<open>recv_all\<close> are the loops of \<open>write_all\<close> and
  \<open>read_exact\<close> over blocking system calls.
\<close>

section \<open>State and operations\<close>

record node_endpoint =
  ep_host :: string
  ep_gossip_port :: u16
  ep_data_port :: u16

record topology_manager =
  tm_nodes :: "node_endpoint list"
  tm_ring :: "(u32 \<times> nat) list"
  tm_running :: bool

definition new_topology_manager :: topology_manager where
  "new_topology_manager = \<lparr>tm_nodes = [], tm_ring = [], tm_running = False\<rparr>"

definition kVnodesPerNode :: u32 where
  "kVnodesPerNode = 128"

record tcp_dial =
  td_resolved :: bool
  td_socket :: fd
  td_connect :: int

definition tcp_connect :: "tcp_dial \<Rightarrow> fd \<times> fd list" where
  "tcp_connect d =
     (if \<not> td_resolved d then (-1, [])
      else let fd = td_socket d
           in if fd < 0 then (-1, [])
              else if td_connect d < 0 then (-1, [fd])
              else (fd, []))"

definition send_all :: "nat list \<Rightarrow> bytes \<Rightarrow> bytes \<Rightarrow> nat list \<times> bytes \<times> bool" where
  "send_all = write_all"

definition recv_all :: "delivery list \<Rightarrow> nat \<Rightarrow> delivery list \<times> bytes option" where
  "recv_all = read_exact"

text \<open>The loop that reads the entries; the first argument counts those still to read.\<close>

fun parse_nodes :: "nat \<Rightarrow> bytes \<Rightarrow> node_endpoint list \<Rightarrow> node_endpoint list \<times> bool" where
  "parse_nodes 0 p out = (out, True)"
| "parse_nodes (Suc i) p out =
     (if length p < 2 then (out, False)
      else
        let host_len = unat (le_word (take 2 p) :: u16); p = drop 2 p
        in if length p < host_len + 4 then (out, False)
           else
             let host = string_of (take host_len p); p = drop host_len p;
                 gossip_port = le_word (take 2 p); p = drop 2 p;
                 data_port = le_word (take 2 p); p = drop 2 p
             in parse_nodes i p (out @ [\<lparr>ep_host = host, ep_gossip_port = gossip_port, ep_data_port = data_port\<rparr>]))"

definition parse_topology :: "bytes \<Rightarrow> node_endpoint list \<Rightarrow> node_endpoint list \<times> bool" where
  "parse_topology payload out =
     (if length payload < 2 then (out, False)
      else parse_nodes (unat (le_word (take 2 payload) :: u16)) (drop 2 payload) [])"

text \<open>The socket after the exchange, the descriptors that are closed, the out parameter and the result.\<close>

definition fetch_topology ::
  "tcp_dial \<Rightarrow> conn \<Rightarrow> node_endpoint list \<Rightarrow> conn \<times> fd list \<times> node_endpoint list \<times> bool" where
  "fetch_topology d c out =
     (case tcp_connect d of (fd, closed) \<Rightarrow>
        if fd < 0 then (c, closed, out, False)
        else
          let hdr = \<lparr>rqh_opcode = Opcode_ClusterInfo, rqh_flags = 0, rqh_key_len = 0, rqh_value_len = 0\<rparr>;
              (rs, sent, ok) = send_all (c_wr c) (c_out c) (request_header_bytes hdr);
              c = c\<lparr>c_wr := rs, c_out := sent\<rparr>
          in if \<not> ok then (c, [fd], out, False)
             else case recv_all (c_in c) kHeaderSize of
                    (ds, None) \<Rightarrow> (c\<lparr>c_in := ds\<rparr>, [fd], out, False)
                  | (ds, Some hb) \<Rightarrow>
                      let resp_hdr = response_header_of hb
                      in if rsh_status resp_hdr \<noteq> Status_Ok then (c\<lparr>c_in := ds\<rparr>, [fd], out, False)
                         else case (if rsh_value_len resp_hdr > 0 then recv_all ds (unat (rsh_value_len resp_hdr))
                                    else (ds, Some [])) of
                                (ds, None) \<Rightarrow> (c\<lparr>c_in := ds\<rparr>, [fd], out, False)
                              | (ds, Some payload) \<Rightarrow> (c\<lparr>c_in := ds\<rparr>, [fd], parse_topology payload out))"

definition ep_node_id :: "node_endpoint \<Rightarrow> node_id" where
  "ep_node_id ep = \<lparr>node_host = ep_host ep, node_port = ep_gossip_port ep\<rparr>"

definition rebuild_ring :: "topology_manager \<Rightarrow> topology_manager" where
  "rebuild_ring tm =
     tm\<lparr>tm_ring := fold (\<lambda>i r. fold (\<lambda>token r. map_assign token i r)
                               (vnode_tokens (ep_node_id (tm_nodes tm ! i)) kVnodesPerNode) r)
                     [0..<length (tm_nodes tm)] []\<rparr>"

definition bootstrap :: "topology_manager \<Rightarrow> tcp_dial \<Rightarrow> conn \<Rightarrow> topology_manager \<times> bool" where
  "bootstrap tm d c =
     (case fetch_topology d c [] of (c, closed, nodes, ok) \<Rightarrow>
        if \<not> ok then (tm, False)
        else if nodes = [] then (tm, False)
        else (rebuild_ring (tm\<lparr>tm_nodes := nodes\<rparr>), True))"

text \<open>\<open>peers\<close> gives what connecting to an endpoint answers and the socket it yields.\<close>

fun refresh_from :: "(node_endpoint \<Rightarrow> tcp_dial \<times> conn) \<Rightarrow> node_endpoint list \<Rightarrow> topology_manager \<Rightarrow> topology_manager \<times> bool" where
  "refresh_from peers [] tm = (tm, False)"
| "refresh_from peers (ep # eps) tm =
     (case peers ep of (d, c) \<Rightarrow>
        case fetch_topology d c [] of (c, closed, fresh, ok) \<Rightarrow>
          if ok \<and> fresh \<noteq> [] then (rebuild_ring (tm\<lparr>tm_nodes := fresh\<rparr>), True)
          else refresh_from peers eps tm)"

definition refresh :: "(node_endpoint \<Rightarrow> tcp_dial \<times> conn) \<Rightarrow> topology_manager \<Rightarrow> topology_manager \<times> bool" where
  "refresh peers tm = refresh_from peers (tm_nodes tm) tm"

text \<open>Starting the refresh thread: whether one is started. Stopping it also joins it.\<close>

definition start_background_refresh :: "topology_manager \<Rightarrow> int \<Rightarrow> topology_manager \<times> bool" where
  "start_background_refresh tm interval =
     (if interval \<le> 0 then (tm, False)
      else if tm_running tm then (tm, False)
      else (tm\<lparr>tm_running := True\<rparr>, True))"

definition stop_background_refresh :: "topology_manager \<Rightarrow> topology_manager" where
  "stop_background_refresh tm = tm\<lparr>tm_running := False\<rparr>"

definition tm_destroy :: "topology_manager \<Rightarrow> topology_manager" where
  "tm_destroy tm = stop_background_refresh tm"

text \<open>
  The body of the thread. Its only input is what successive loads of \<open>running_\<close> return, here a list
  (its end counts as false); \<open>sleep_loop\<close> consumes the loads of the waiting loop. The result is how
  often the topology is refreshed.
\<close>

fun sleep_loop :: "nat \<Rightarrow> bool list \<Rightarrow> bool list" where
  "sleep_loop 0 loads = loads"
| "sleep_loop (Suc n) [] = []"
| "sleep_loop (Suc n) (running # loads) = (if running then sleep_loop n loads else loads)"

lemma length_sleep_loop: "length (sleep_loop n loads) \<le> length loads"
  by (induction n loads rule: sleep_loop.induct) auto

lemma length_sleep_loop_less [termination_simp]: "length (sleep_loop n loads) - Suc 0 < Suc (length loads)"
  using length_sleep_loop [of n loads] by simp

fun refresh_loop :: "nat \<Rightarrow> bool list \<Rightarrow> nat" where
  "refresh_loop interval [] = 0"
| "refresh_loop interval (running # loads) =
     (if \<not> running then 0
      else let loads = sleep_loop interval loads
           in (if loads \<noteq> [] \<and> hd loads then 1 else 0) + refresh_loop interval (tl loads))"

definition owner_index :: "topology_manager \<Rightarrow> u32 \<Rightarrow> nat option" where
  "owner_index tm hash =
     (if tm_ring tm = [] then None
      else let it = lower_bound hash (tm_ring tm);
               it = (if it = [] then tm_ring tm else it)
           in Some (snd (hd it)))"

definition find_owner :: "topology_manager \<Rightarrow> string \<Rightarrow> node_endpoint option" where
  "find_owner tm key =
     (case owner_index tm (hash_key key) of None \<Rightarrow> None | Some i \<Rightarrow> Some (tm_nodes tm ! i))"

text \<open>The loop is the one of the server's ring, over indices; \<open>None\<close> would be a loop that does not end.\<close>

definition find_successors :: "topology_manager \<Rightarrow> string \<Rightarrow> nat \<Rightarrow> node_endpoint list option" where
  "find_successors tm key n =
     (if tm_ring tm = [] then Some []
      else let it = lower_bound (hash_key key) (tm_ring tm);
               it = (if it = [] then tm_ring tm else it)
           in map_option (map (\<lambda>i. tm_nodes tm ! i)) (n_nodes_loop (tm_ring tm) it n it [] []))"

definition all_endpoints :: "topology_manager \<Rightarrow> node_endpoint list" where
  "all_endpoints tm = tm_nodes tm"

definition node_count :: "topology_manager \<Rightarrow> nat" where
  "node_count tm = length (tm_nodes tm)"

section \<open>Cluster information on the wire\<close>

definition alive_endpoints :: "member_list \<Rightarrow> node_endpoint list" where
  "alive_endpoints ml =
     map (\<lambda>(nid, info). \<lparr>ep_host = node_host nid, ep_gossip_port = node_port nid, ep_data_port = info_data_port info\<rparr>)
       (filter (\<lambda>(nid, info). info_state info = Alive) (ml_nodes ml))"

definition endpoint_bytes :: "node_endpoint \<Rightarrow> bytes" where
  "endpoint_bytes ep =
     le_bytes 2 (word_of_nat (length (ep_host ep)) :: u16) @ bytes_of (ep_host ep) @
     le_bytes 2 (ep_gossip_port ep) @ le_bytes 2 (ep_data_port ep)"

definition endpoint_fits :: "node_endpoint \<Rightarrow> bool" where
  "endpoint_fits ep \<longleftrightarrow> length (ep_host ep) < 65536"

lemma length_endpoint_bytes: "length (endpoint_bytes ep) = 6 + length (ep_host ep)"
  by (simp add: endpoint_bytes_def)

lemma count_alive_eq:
  "count_alive nodes cnt = cnt + word_of_nat (length (filter (\<lambda>(nid, info). info_state info = Alive) nodes))"
  by (induction nodes cnt rule: count_alive.induct) (simp_all add: add.assoc add.commute)

lemma parse_nodes_entry:
  assumes "endpoint_fits ep"
  shows "parse_nodes (Suc i) (endpoint_bytes ep @ p) out = parse_nodes i p (out @ [ep])"
proof -
  let ?n = "length (ep_host ep)"
  have "unat (le_word (take 2 (endpoint_bytes ep @ p)) :: u16) = ?n"
    using assms by (simp add: endpoint_bytes_def endpoint_fits_def)
  moreover have "drop 2 (endpoint_bytes ep @ p) = bytes_of (ep_host ep) @ le_bytes 2 (ep_gossip_port ep) @ le_bytes 2 (ep_data_port ep) @ p"
    by (simp add: endpoint_bytes_def)
  ultimately show ?thesis by (cases ep) (simp add: length_endpoint_bytes Let_def)
qed

lemma parse_nodes_entries:
  "\<forall>ep \<in> set eps. endpoint_fits ep \<Longrightarrow>
   parse_nodes (length eps) (concat (map endpoint_bytes eps) @ rest) out = (out @ eps, True)"
  by (induction eps arbitrary: out) (simp_all add: parse_nodes_entry del: parse_nodes.simps(2))

lemma memcpy_to_fill_at:
  assumes "length xs = off" and "length src + n = m"
  shows "memcpy_to (xs @ replicate m 0) off src = (xs @ src) @ replicate n 0"
  using memcpy_to_fill [of xs src n] assms by simp

lemma append_nodes_eq:
  assumes "\<forall>(nid, info) \<in> set nodes. length (node_host nid) < 65536"
  shows "append_nodes nodes buf = buf @ concat (map (\<lambda>(nid, info). endpoint_bytes
     \<lparr>ep_host = node_host nid, ep_gossip_port = node_port nid, ep_data_port = info_data_port info\<rparr>)
       (filter (\<lambda>(nid, info). info_state info = Alive) nodes))"
  using assms
proof (induction nodes arbitrary: buf)
  case (Cons node nodes)
  obtain nid info where node: "node = (nid, info)" by fastforce
  show ?case
  proof (cases "info_state info = Alive")
    case True
    let ?n = "length (node_host nid)" and ?h = "bytes_of (node_host nid)"
    have n: "unat (word_of_nat ?n :: u16) = ?n" using Cons.prems node by simp
    let ?l = "le_bytes 2 (word_of_nat ?n :: u16)" and ?g = "le_bytes 2 (node_port nid)" and ?d = "le_bytes 2 (info_data_port info)"
    have fills: "memcpy_to (buf @ replicate (2 + ?n + 2 + 2) 0) (length buf) ?l = (buf @ ?l) @ replicate (?n + 2 + 2) 0"
      "memcpy_to ((buf @ ?l) @ replicate (?n + 2 + 2) 0) (length buf + 2) ?h = ((buf @ ?l) @ ?h) @ replicate (2 + 2) 0"
      "memcpy_to (((buf @ ?l) @ ?h) @ replicate (2 + 2) 0) (length buf + 2 + ?n) ?g = (((buf @ ?l) @ ?h) @ ?g) @ replicate 2 0"
      "memcpy_to ((((buf @ ?l) @ ?h) @ ?g) @ replicate 2 0) (length buf + 2 + ?n + 2) ?d = ((((buf @ ?l) @ ?h) @ ?g) @ ?d) @ replicate 0 0"
      by (rule memcpy_to_fill_at; simp)+
    have "take ?n ?h = ?h" by simp
    then have "append_nodes ((nid, info) # nodes) buf = append_nodes nodes (buf @ ?l @ ?h @ ?g @ ?d)"
      unfolding append_nodes.simps Let_def n by (simp only: fills True simp_thms if_False) simp
    also have "\<dots> = (buf @ ?l @ ?h @ ?g @ ?d) @ concat (map (\<lambda>(nid, info). endpoint_bytes
     \<lparr>ep_host = node_host nid, ep_gossip_port = node_port nid, ep_data_port = info_data_port info\<rparr>)
       (filter (\<lambda>(nid, info). info_state info = Alive) nodes))"
      by (rule Cons.IH) (use Cons.prems in simp)
    finally show ?thesis using True node by (simp add: endpoint_bytes_def)
  next
    case False
    then show ?thesis using Cons node by simp
  qed
qed simp

lemma parse_cluster_info:
  assumes "length (alive_endpoints ml) < 65536" and "\<forall>nid \<in> fst ` set (ml_nodes ml). length (node_host nid) < 65536"
  shows "parse_topology (bytes_of (resp_value (serve_cluster_info ml))) out = (alive_endpoints ml, True)"
proof -
  let ?al = "filter (\<lambda>(nid, info). info_state info = Alive) (ml_nodes ml)"
  have c: "count_alive (ml_nodes ml) 0 = word_of_nat (length (alive_endpoints ml))"
    by (simp add: count_alive_eq alive_endpoints_def)
  have "append_nodes (ml_nodes ml) (le_bytes 2 (count_alive (ml_nodes ml) 0)) =
      le_bytes 2 (word_of_nat (length (alive_endpoints ml)) :: u16) @ concat (map endpoint_bytes (alive_endpoints ml))"
    using assms(2) by (subst append_nodes_eq) (force simp: c alive_endpoints_def comp_def case_prod_beta')+
  then have v: "bytes_of (resp_value (serve_cluster_info ml)) =
      le_bytes 2 (word_of_nat (length (alive_endpoints ml)) :: u16) @ concat (map endpoint_bytes (alive_endpoints ml)) @ []"
    by (simp add: serve_cluster_info_def Let_def memcpy_to_def)
  have "\<forall>ep \<in> set (alive_endpoints ml). endpoint_fits ep"
    using assms(2) by (force simp: alive_endpoints_def endpoint_fits_def)
  from parse_nodes_entries [OF this, of "[]" "[]"] show ?thesis
    unfolding v using assms(1) by (simp add: parse_topology_def)
qed

lemma bytes_of_Nil [simp]: "bytes_of [] = []"
  by (simp add: bytes_of_def)

lemma fetch_topology_eq:
  assumes d: "tcp_connect d = (fd, closed)" "0 \<le> fd"
    and w: "send_all (c_wr c) (c_out c) (request_header_bytes \<lparr>rqh_opcode = Opcode_ClusterInfo, rqh_flags = 0, rqh_key_len = 0, rqh_value_len = 0\<rparr>) = (rs, sent, True)"
    and r: "parse_response (avail (c_in c)) = Some resp" and ok: "resp_status resp = Status_Ok"
  shows "\<exists>c'. fetch_topology d c out = (c', [fd], parse_topology (bytes_of (resp_value resp)) out)"
proof -
  obtain ds where rr: "read_response (c_in c) = (ds, Some resp)"
    using read_response_parse [of "c_in c"] r by (metis prod.collapse)
  then obtain ds1 hb where h: "read_exact (c_in c) kHeaderSize = (ds1, Some hb)"
    by (auto simp: read_response_def split: prod.splits option.splits)
  then show ?thesis using rr d w ok
    by (auto simp: fetch_topology_def recv_all_def Let_def read_response_def split: if_splits prod.splits option.splits)
qed

section \<open>The client's ring\<close>

lemma index_fold:
  assumes "map_ok r"
  shows "map_ok (fold (\<lambda>i r. fold (\<lambda>t r. map_assign t i r) (T i) r) is r) \<and>
    dom (map_of (fold (\<lambda>i r. fold (\<lambda>t r. map_assign t i r) (T i) r) is r)) = dom (map_of r) \<union> (\<Union>i \<in> set is. set (T i)) \<and>
    (\<forall>t i. map_of (fold (\<lambda>i r. fold (\<lambda>t r. map_assign t i r) (T i) r) is r) t = Some i \<longrightarrow>
       map_of r t = Some i \<or> (i \<in> set is \<and> t \<in> set (T i)))"
  using assms
proof (induction "is" arbitrary: r)
  case (Cons j "is")
  let ?r = "fold (\<lambda>t r. map_assign t j r) (T j) r"
  have r: "map_ok ?r" "map_of ?r = (\<lambda>t. if t \<in> set (T j) then Some j else map_of r t)"
    using fold_map_assign [OF Cons.prems] by simp_all
  have "dom (map_of ?r) = dom (map_of r) \<union> set (T j)" by (auto simp: r(2) split: if_splits)
  with Cons.IH [OF r(1)] r(2) show ?case by (auto split: if_splits)
qed simp

definition tm_ok :: "topology_manager \<Rightarrow> bool" where
  "tm_ok tm \<longleftrightarrow> map_ok (tm_ring tm) \<and>
     dom (map_of (tm_ring tm)) = (\<Union>i < length (tm_nodes tm). set (vnode_tokens (ep_node_id (tm_nodes tm ! i)) kVnodesPerNode)) \<and>
     (\<forall>t i. map_of (tm_ring tm) t = Some i \<longrightarrow>
        i < length (tm_nodes tm) \<and> t \<in> set (vnode_tokens (ep_node_id (tm_nodes tm ! i)) kVnodesPerNode))"

lemma tm_ok_new: "tm_ok new_topology_manager"
  by (simp add: tm_ok_def new_topology_manager_def)

lemma tm_ok_rebuild: "tm_ok (rebuild_ring tm)" and rebuild_nodes: "tm_nodes (rebuild_ring tm) = tm_nodes tm"
  using index_fold [of "[]" "\<lambda>i. vnode_tokens (ep_node_id (tm_nodes tm ! i)) kVnodesPerNode" "[0..<length (tm_nodes tm)]"]
  by (auto simp: tm_ok_def rebuild_ring_def)

lemma owner_index_wrap:
  "owner_index tm h = (if tm_ring tm = [] then None else Some (snd (wrap_entry h (tm_ring tm))))"
  by (simp add: owner_index_def wrap_entry_def Let_def split: list.splits)

interpretation client_ring: clockwise_ring "\<lambda>tm. map_of (tm_ring tm)" owner_index tm_ok
proof
  fix tm :: topology_manager and h assume "map_of (tm_ring tm) = Map.empty"
  then show "owner_index tm h = None" by (simp add: owner_index_wrap)
next
  fix tm :: topology_manager and h assume ok: "tm_ok tm" and "map_of (tm_ring tm) \<noteq> Map.empty"
  then have ne: "tm_ring tm \<noteq> []" and mok: "map_ok (tm_ring tm)" by (auto simp: tm_ok_def)
  obtain t v where e: "wrap_entry h (tm_ring tm) = (t, v)" by fastforce
  note near = wrap_entry_nearest [OF mok ne, where h = h]
  have "map_of (tm_ring tm) t = Some v" using near(1) e mok by (simp add: map_ok_distinct)
  moreover have "\<forall>t' \<in> dom (map_of (tm_ring tm)). t - h \<le> t' - h" using near(2) e by (auto dest: map_of_SomeD)
  ultimately show "\<exists>t v. map_of (tm_ring tm) t = Some v \<and> owner_index tm h = Some v \<and>
      (\<forall>t' \<in> dom (map_of (tm_ring tm)). t - h \<le> t' - h)"
    using ne e by (auto simp: owner_index_wrap)
qed

text \<open>The ring of a server that has added the given nodes, and the condition that no two of them share a token.\<close>

definition ring_of :: "node_id list \<Rightarrow> ring_store" where
  "ring_of ids = fold (\<lambda>n s. ring_add_node s n kDefaultVnodes) ids new_ring_store"

definition tokens_disjoint :: "node_id set \<Rightarrow> bool" where
  "tokens_disjoint N \<longleftrightarrow>
     (\<forall>a \<in> N. \<forall>b \<in> N. a \<noteq> b \<longrightarrow> set (vnode_tokens a kDefaultVnodes) \<inter> set (vnode_tokens b kDefaultVnodes) = {})"

lemma ring_of_tokens:
  "tokens_disjoint (set ids) \<Longrightarrow> ring_ok (ring_of ids) \<and>
   (\<forall>t n. ring_tokens (ring_of ids) t = Some n \<longleftrightarrow> n \<in> set ids \<and> t \<in> set (vnode_tokens n kDefaultVnodes))"
proof (induction ids rule: rev_induct)
  case Nil
  then show ?case by (simp add: ring_of_def)
next
  case (snoc m ids)
  have d: "tokens_disjoint (set ids)" using snoc.prems by (simp add: tokens_disjoint_def)
  note IH = snoc.IH [OF d]
  have r: "ring_of (ids @ [m]) = ring_add_tokens (ring_of ids) m (vnode_tokens m kDefaultVnodes)"
    by (simp add: ring_of_def ring_add_node_def)
  have "ring_tokens (ring_of (ids @ [m])) t = Some n \<longleftrightarrow> n \<in> set (ids @ [m]) \<and> t \<in> set (vnode_tokens n kDefaultVnodes)" for t n
  proof (cases "t \<in> set (vnode_tokens m kDefaultVnodes)")
    case True
    then have "n = m" if "n \<in> set (ids @ [m])" "t \<in> set (vnode_tokens n kDefaultVnodes)"
      using snoc.prems that unfolding tokens_disjoint_def by (metis IntI empty_iff in_set_conv_decomp)
    then show ?thesis using True IH by (auto simp: r ring_tokens_add_tokens)
  next
    case False
    then show ?thesis using IH by (auto simp: r ring_tokens_add_tokens)
  qed
  then show ?case using IH by (simp add: r)
qed

lemma vnodes_agree: "kVnodesPerNode = kDefaultVnodes"
  by (simp add: kVnodesPerNode_def kDefaultVnodes_def)

lemma client_owner:
  assumes tm: "tm_ok tm" and ids: "set ids = ep_node_id ` set (tm_nodes tm)" and d: "tokens_disjoint (set ids)"
  shows "map_option (\<lambda>i. ep_node_id (tm_nodes tm ! i)) (owner_index tm h) = get_node_for_key (ring_of ids) h"
proof -
  have ok: "ring_ok (ring_of ids)"
    and tok: "\<And>t n. ring_tokens (ring_of ids) t = Some n \<longleftrightarrow> n \<in> set ids \<and> t \<in> set (vnode_tokens n kDefaultVnodes)"
    using ring_of_tokens [OF d] by blast+
  have client: "map_of (tm_ring tm) t = Some i \<Longrightarrow> i < length (tm_nodes tm) \<and> t \<in> set (vnode_tokens (ep_node_id (tm_nodes tm ! i)) kDefaultVnodes)" for t i
    using tm by (simp add: tm_ok_def vnodes_agree)
  have "ids_nth \<in> set ids \<longleftrightarrow> (\<exists>i < length (tm_nodes tm). ids_nth = ep_node_id (tm_nodes tm ! i))" for ids_nth
    unfolding ids image_iff Bex_def in_set_conv_nth by auto
  then have "t \<in> dom (ring_tokens (ring_of ids)) \<longleftrightarrow> (\<exists>i < length (tm_nodes tm). t \<in> set (vnode_tokens (ep_node_id (tm_nodes tm ! i)) kDefaultVnodes))" for t
    by (auto simp: dom_def tok)
  then have "dom (ring_tokens (ring_of ids)) = (\<Union>i < length (tm_nodes tm). set (vnode_tokens (ep_node_id (tm_nodes tm ! i)) kDefaultVnodes))"
    by (simp add: set_eq_iff Bex_def)
  then have dom: "dom (map_of (tm_ring tm)) = dom (ring_tokens (ring_of ids))" using tm by (simp add: tm_ok_def vnodes_agree)
  show ?thesis
  proof (cases "ring_tokens (ring_of ids) = Map.empty")
    case True
    then have "map_of (tm_ring tm) = Map.empty" using dom by simp
    then show ?thesis using True ok tm by (simp add: server_ring.owner_empty client_ring.owner_empty)
  next
    case False
    then obtain t n where t: "ring_tokens (ring_of ids) t = Some n" "get_node_for_key (ring_of ids) h = Some n"
      "\<forall>t' \<in> dom (ring_tokens (ring_of ids)). t - h \<le> t' - h"
      using server_ring.owner_nearest [OF ok] by blast
    then obtain i where i: "map_of (tm_ring tm) t = Some i" using dom by blast
    have "owner_index tm h = Some i" by (rule client_ring.owner_eq [OF tm i]) (use dom t(3) in simp)
    moreover have "ep_node_id (tm_nodes tm ! i) = n"
    proof -
      have "ep_node_id (tm_nodes tm ! i) \<in> set ids" using client [OF i] by (auto simp: ids)
      then have "ring_tokens (ring_of ids) t = Some (ep_node_id (tm_nodes tm ! i))" using client [OF i] tok by blast
      then show ?thesis using t(1) by simp
    qed
    ultimately show ?thesis using t(2) by simp
  qed
qed

lemma ring_empty_iff:
  assumes "tm_ok tm"
  shows "tm_ring tm = [] \<longleftrightarrow> tm_nodes tm = []"
proof -
  have "tm_ring tm = [] \<longleftrightarrow> dom (map_of (tm_ring tm)) = {}" by simp
  also have "\<dots> \<longleftrightarrow> (\<forall>i < length (tm_nodes tm). vnode_tokens (ep_node_id (tm_nodes tm ! i)) kVnodesPerNode = [])"
    using assms by (auto simp: tm_ok_def)
  also have "\<dots> \<longleftrightarrow> tm_nodes tm = []" by (cases "tm_nodes tm") (auto simp: vnode_tokens_def kVnodesPerNode_def)
  finally show ?thesis .
qed

section \<open>The refresh thread\<close>

lemma sleep_loop_running: "sleep_loop n (replicate k True) = replicate (k - n) True"
proof (induction n arbitrary: k)
  case (Suc n)
  then show ?case by (cases k) simp_all
qed simp

text \<open>While it is not stopped, the thread refreshes once per interval: one load before, one per second, one after.\<close>

lemma refresh_loop_running: "refresh_loop interval (replicate k True) = k div (interval + 2)"
proof (induction k rule: less_induct)
  case (less k)
  show ?case
  proof (cases "k < interval + 2")
    case True
    then show ?thesis by (cases k) (auto simp: sleep_loop_running Let_def)
  next
    case False
    then obtain j where j: "k = Suc j" "interval < j" by (cases k) auto
    then have "tl (replicate (j - interval) True) = replicate (k - (interval + 2)) True"
      by (cases "j - interval") auto
    moreover have "refresh_loop interval (replicate (k - (interval + 2)) True) = (k - (interval + 2)) div (interval + 2)"
      by (rule less) (use False in simp)
    ultimately show ?thesis using j False le_div_geq [of "interval + 2" k]
      by (simp add: sleep_loop_running hd_replicate)
  qed
qed

lemma find_successors_walk:
  assumes "tm_ok tm"
  shows "\<exists>idx. find_successors tm key n = Some (map (\<lambda>i. tm_nodes tm ! i) idx) \<and> distinct idx \<and>
    (\<forall>i \<in> set idx. i < length (tm_nodes tm)) \<and> (idx = [] \<longleftrightarrow> tm_nodes tm = []) \<and>
    (idx \<noteq> [] \<longrightarrow> find_owner tm key = Some (tm_nodes tm ! hd idx)) \<and>
    length idx = (if n = 0 then card (snd ` set (tm_ring tm)) else min n (card (snd ` set (tm_ring tm))))"
proof (cases "tm_ring tm = []")
  case True
  then show ?thesis using ring_empty_iff [OF assms] by (intro exI [of _ "[]"]) (simp add: find_successors_def)
next
  case False
  define all where "all = first_distinct [] (map snd (clockwise (hash_key key) (tm_ring tm)))"
  define idx where "idx = (if n = 0 then all else take n all)"
  have all: "distinct all" "set all = snd ` set (tm_ring tm)"
    using first_distinct_props [of "[]" "map snd (clockwise (hash_key key) (tm_ring tm))"] set_clockwise [of "hash_key key" "tm_ring tm"]
    by (simp_all add: all_def)
  then have "length all = card (snd ` set (tm_ring tm))" using distinct_card [of all] by simp
  moreover have "find_successors tm key n = Some (map (\<lambda>i. tm_nodes tm ! i) idx)"
    using n_nodes_loop_clockwise [OF False, of "hash_key key" n] False
    by (simp add: find_successors_def Let_def idx_def all_def)
  moreover have "i < length (tm_nodes tm)" if i: "i \<in> set idx" for i
  proof -
    have "i \<in> set all" using i by (auto simp: idx_def dest: in_set_takeD split: if_splits)
    then obtain t where "(t, i) \<in> set (tm_ring tm)" using all(2) by auto
    then have "map_of (tm_ring tm) t = Some i" using assms by (simp add: tm_ok_def map_ok_distinct)
    then show ?thesis using assms by (auto simp: tm_ok_def)
  qed
  moreover have head: "all \<noteq> [] \<and> owner_index tm (hash_key key) = Some (hd all)"
  proof -
    obtain e es where c: "clockwise (hash_key key) (tm_ring tm) = e # es"
      using False set_clockwise [of "hash_key key" "tm_ring tm"] by (cases "clockwise (hash_key key) (tm_ring tm)") auto
    have "wrap_entry (hash_key key) (tm_ring tm) = e"
    proof (cases "lower_bound (hash_key key) (tm_ring tm)")
      case Nil
      then have "dropWhile (\<lambda>e. fst e < hash_key key) (tm_ring tm) = []" by (simp only: lower_bound_def)
      moreover from this have "takeWhile (\<lambda>e. fst e < hash_key key) (tm_ring tm) = tm_ring tm"
        by (metis append_Nil2 takeWhile_dropWhile_id)
      ultimately have "tm_ring tm = e # es" using c by (simp only: clockwise_def append_Nil)
      then show ?thesis using Nil by (simp add: wrap_entry_def)
    next
      case (Cons a list)
      then show ?thesis using c by (simp add: wrap_entry_def clockwise_def lower_bound_def)
    qed
    then show ?thesis using False c by (simp add: all_def owner_index_wrap)
  qed
  moreover have "idx \<noteq> [] \<and> hd idx = hd all" using head by (cases all) (auto simp: idx_def take_Cons' split: if_splits)
  moreover have "distinct idx" using all(1) by (simp add: idx_def)
  ultimately show ?thesis using False ring_empty_iff [OF assms]
    by (intro exI [of _ idx]) (auto simp: idx_def find_owner_def min.commute)
qed

text \<open>Bootstrapping from the answer of a server.\<close>

lemma bootstrap_alive:
  assumes "tcp_connect d = (fd, closed)" and "0 \<le> fd"
    and "8 \<le> sum_list (takeWhile (\<lambda>r. r \<noteq> 0) (c_wr c))"
    and "avail (c_in c) = serialize_response (serve_cluster_info ml) @ rest"
    and "length (alive_endpoints ml) < 65536" and "\<forall>nid \<in> fst ` set (ml_nodes ml). length (node_host nid) < 65536"
    and "response_fits (serve_cluster_info ml)" and "alive_endpoints ml \<noteq> []"
  shows "\<exists>tm'. bootstrap tm d c = (tm', True) \<and> tm_nodes tm' = alive_endpoints ml \<and> tm_ok tm'"
proof -
  let ?hdr = "\<lparr>rqh_opcode = Opcode_ClusterInfo, rqh_flags = 0, rqh_key_len = 0, rqh_value_len = 0\<rparr>"
  have "length (request_header_bytes ?hdr) = 8" by (simp add: kHeaderSize_def)
  then obtain rs where w: "send_all (c_wr c) (c_out c) (request_header_bytes ?hdr) = (rs, c_out c @ request_header_bytes ?hdr, True)"
    using write_all_complete [of "request_header_bytes ?hdr" "c_wr c" "c_out c"] assms(3) by (auto simp: send_all_def)
  have "parse_response (avail (c_in c)) = Some (serve_cluster_info ml)"
    unfolding assms(4) serialize_response_frame using assms(7) by (rule parse_response_frame)
  moreover have "resp_status (serve_cluster_info ml) = Status_Ok" by (simp add: serve_cluster_info_def Let_def)
  ultimately obtain c' where "fetch_topology d c [] = (c', [fd], alive_endpoints ml, True)"
    using fetch_topology_eq [OF assms(1,2) w] parse_cluster_info [OF assms(5,6)] by metis
  then show ?thesis using assms(8) by (auto simp: bootstrap_def tm_ok_rebuild rebuild_nodes)
qed

section \<open>Properties\<close>

abbreviation example_endpoint :: node_endpoint where
  "example_endpoint \<equiv> \<lparr>ep_host = ''b'', ep_gossip_port = 1, ep_data_port = 2\<rparr>"

abbreviation example_topology :: topology_manager where
  "example_topology \<equiv> rebuild_ring (new_topology_manager\<lparr>tm_nodes := [example_endpoint]\<rparr>)"

text \<open>
  C17. Bootstrapping from a server: if the connection works and the server answers a cluster-information
  request, the client knows exactly the nodes the server regards as alive, with their ports,
  provided that there are fewer than 65536 of them and their host names are shorter than 65536
  bytes (the widths of the fields); its ring is rebuilt from them.
\<close>
theorem bootstrap_cluster_info:
  assumes "tcp_connect d = (fd, closed)" and "0 \<le> fd"
    and "8 \<le> sum_list (takeWhile (\<lambda>r. r \<noteq> 0) (c_wr c))"
    and "avail (c_in c) = serialize_response (serve_cluster_info ml) @ rest"
    and "length (alive_endpoints ml) < 65536" and "\<forall>nid \<in> fst ` set (ml_nodes ml). length (node_host nid) < 65536"
    and "response_fits (serve_cluster_info ml)" and "alive_endpoints ml \<noteq> []"
  shows "\<exists>tm'. bootstrap tm d c = (tm', True) \<and> tm_nodes tm' = alive_endpoints ml \<and> tm_ok tm'"
  using assms by (rule bootstrap_alive)

theorem bootstrap_cluster_info_witness:
  "\<exists>d c tm'. bootstrap new_topology_manager d c = (tm', True) \<and> tm_nodes tm' = [example_endpoint]"
proof -
  let ?ml = "\<lparr>ml_nodes = [(example_peer, (default_node_info example_peer 0)\<lparr>info_data_port := 2\<rparr>)], ml_on_change = False\<rparr>"
  let ?d = "\<lparr>td_resolved = True, td_socket = 4, td_connect = 0\<rparr>"
  let ?c = "\<lparr>c_in = [Data (serialize_response (serve_cluster_info ?ml))], c_wr = [8], c_out = []\<rparr>"
  have al: "alive_endpoints ?ml = [example_endpoint]" by (simp add: alive_endpoints_def default_node_info_def)
  have "tcp_connect ?d = (4, [])" by (simp add: tcp_connect_def)
  moreover have "avail (c_in ?c) = serialize_response (serve_cluster_info ?ml) @ []" using serialize_response_nonempty by simp
  moreover have "response_fits (serve_cluster_info ?ml)"
    by (simp add: response_fits_def serve_cluster_info_def Let_def memcpy_to_def default_node_info_def)
  ultimately have "\<exists>tm'. bootstrap new_topology_manager ?d ?c = (tm', True) \<and> tm_nodes tm' = alive_endpoints ?ml \<and> tm_ok tm'"
    by (intro bootstrap_cluster_info [where fd = 4 and closed = "[]" and rest = "[]"]) (simp_all add: al)
  then show ?thesis unfolding al by blast
qed

text \<open>
  Client and servers agree on the owner of every key: whatever the order in which the server
  added the nodes, if the client knows the same nodes and no two nodes share a token, the endpoint
  the client sends a request to is the node that the server's ring names.
\<close>
theorem client_routes_to_owner:
  assumes "tm_ok tm" and "set ids = ep_node_id ` set (tm_nodes tm)" and "tokens_disjoint (set ids)"
  shows "map_option ep_node_id (find_owner tm key) = get_node_for_key (ring_of ids) (hash_key key) \<and>
    (\<forall>ep. find_owner tm key = Some ep \<longrightarrow> ep \<in> set (tm_nodes tm))"
proof -
  have "map_option ep_node_id (find_owner tm key) = get_node_for_key (ring_of ids) (hash_key key)"
    using client_owner [OF assms, of "hash_key key"] by (auto simp: find_owner_def split: option.splits)
  moreover have "ep \<in> set (tm_nodes tm)" if f: "find_owner tm key = Some ep" for ep
  proof -
    obtain i where i: "owner_index tm (hash_key key) = Some i" "ep = tm_nodes tm ! i"
      using f by (auto simp: find_owner_def split: option.splits)
    have "i \<in> ran (map_of (tm_ring tm))" by (rule client_ring.owner_in_ran [OF assms(1) i(1)])
    then have "i < length (tm_nodes tm)" using assms(1) by (auto simp: tm_ok_def ran_def)
    then show ?thesis using i(2) by simp
  qed
  ultimately show ?thesis by blast
qed

theorem client_routes_to_owner_witness:
  "map_option ep_node_id (find_owner example_topology ''k'') = get_node_for_key (ring_of [ep_node_id example_endpoint]) (hash_key ''k'')"
  using client_routes_to_owner [of example_topology "[ep_node_id example_endpoint]" "''k''"]
  by (simp add: tm_ok_rebuild rebuild_nodes tokens_disjoint_def)

text \<open>
  The candidates for a request: the search always ends and returns endpoints of the list, the owner
  first, then the nodes met clockwise, no node twice, as many as asked for or as there are with
  different virtual nodes (all of them for \<open>n = 0\<close>).
\<close>
theorem find_successors_spec:
  assumes "tm_ok tm"
  shows "\<exists>idx. find_successors tm key n = Some (map (\<lambda>i. tm_nodes tm ! i) idx) \<and> distinct idx \<and>
    (\<forall>i \<in> set idx. i < length (tm_nodes tm)) \<and> (idx = [] \<longleftrightarrow> tm_nodes tm = []) \<and>
    (idx \<noteq> [] \<longrightarrow> find_owner tm key = Some (tm_nodes tm ! hd idx)) \<and>
    length idx = (if n = 0 then card (snd ` set (tm_ring tm)) else min n (card (snd ` set (tm_ring tm))))"
  using assms by (rule find_successors_walk)

theorem find_successors_spec_witness:
  "\<exists>eps. find_successors example_topology ''k'' 3 = Some eps \<and> eps \<noteq> [] \<and> find_owner example_topology ''k'' = Some (hd eps)"
proof -
  obtain idx where "find_successors example_topology ''k'' 3 = Some (map (\<lambda>i. tm_nodes example_topology ! i) idx)"
    "idx \<noteq> []" "find_owner example_topology ''k'' = Some (tm_nodes example_topology ! hd idx)"
    using find_successors_spec [OF tm_ok_rebuild, of "new_topology_manager\<lparr>tm_nodes := [example_endpoint]\<rparr>" "''k''" 3]
    by (auto simp: rebuild_nodes)
  then show ?thesis by (simp add: hd_map)
qed

end
