(* ===== verification/StdString.thy ===== *)
theory StdString
  imports Prelude
begin

text \<open>
  The string functions of the standard library that the programs use to read their configuration:
  \<open>stoi\<close> and \<open>stoul\<close> (leading white space, a sign, digits, and whatever follows is ignored; \<open>None\<close> is
  an exception) and splitting at the last occurrence of a character with \<open>rfind\<close> and \<open>substr\<close>. The
  lemmas are the round trips with \<open>to_string\<close>.
\<close>

section \<open>Functions\<close>

definition is_space :: "char \<Rightarrow> bool" where
  "is_space c \<longleftrightarrow> of_char c \<in> {32, 9, 10, 11, 12, 13 :: nat}"

definition is_digit :: "char \<Rightarrow> bool" where
  "is_digit c \<longleftrightarrow> 48 \<le> (of_char c :: nat) \<and> (of_char c :: nat) \<le> 57"

definition digits_val :: "string \<Rightarrow> nat" where
  "digits_val ds = foldl (\<lambda>n c. 10 * n + (of_char c - 48)) 0 ds"

definition parse_number :: "string \<Rightarrow> (bool \<times> nat) option" where
  "parse_number s =
     (let s = dropWhile is_space s;
          neg = (s \<noteq> [] \<and> hd s = CHR ''-'');
          s = (if s \<noteq> [] \<and> (hd s = CHR ''-'' \<or> hd s = CHR ''+'') then tl s else s);
          ds = takeWhile is_digit s
      in if ds = [] then None else Some (neg, digits_val ds))"

definition stoi :: "string \<Rightarrow> int option" where
  "stoi s = (case parse_number s of
     None \<Rightarrow> None
   | Some (neg, n) \<Rightarrow>
       let i = (if neg then - int n else int n) in if - (2 ^ 31) \<le> i \<and> i < 2 ^ 31 then Some i else None)"

definition stoul :: "string \<Rightarrow> u64 option" where
  "stoul s = (case parse_number s of
     None \<Rightarrow> None
   | Some (neg, n) \<Rightarrow> if n < 2 ^ 64 then Some (if neg then - word_of_nat n else word_of_nat n) else None)"

definition rsplit_colon :: "string \<Rightarrow> (string \<times> string) option" where
  "rsplit_colon s =
     (if CHR '':'' \<in> set s
      then Some (rev (tl (dropWhile (\<lambda>c. c \<noteq> CHR '':'') (rev s))), rev (takeWhile (\<lambda>c. c \<noteq> CHR '':'') (rev s)))
      else None)"

section \<open>Round trips\<close>

lemma is_digit_dec_string: "c \<in> set (dec_string n) \<Longrightarrow> is_digit c \<and> \<not> is_space c"
  using dec_string_digits [of c n] by (auto simp: is_digit_def is_space_def of_char_digit_char)

lemma digits_val_append: "digits_val (ds @ [c]) = 10 * digits_val ds + (of_char c - 48)"
  by (simp add: digits_val_def)

lemma digits_val_dec_string: "digits_val (dec_string n) = n"
proof (induction n rule: dec_string.induct)
  case (1 n)
  show ?case
  proof (cases "n < 10")
    case True
    then show ?thesis by (simp add: dec_string.simps [of n] digits_val_def of_char_digit_char)
  next
    case False
    then show ?thesis using "1.IH" by (simp add: dec_string.simps [of n] digits_val_append of_char_digit_char)
  qed
qed

text \<open>A decimal number is read up to the first character that is no digit.\<close>

lemma parse_number_dec_string:
  assumes "rest = [] \<or> \<not> is_digit (hd rest)"
  shows "parse_number (dec_string n @ rest) = Some (False, n)"
proof -
  obtain c cs where d: "dec_string n = c # cs" by (cases "dec_string n") simp_all
  have c: "is_digit c" "\<not> is_space c" using is_digit_dec_string [of c n] by (simp_all add: d)
  then have "c \<noteq> CHR ''-''" "c \<noteq> CHR ''+''" by (auto simp: is_digit_def)
  moreover have "takeWhile is_digit (dec_string n @ rest) = dec_string n"
    using assms is_digit_dec_string [of _ n] by (cases rest) (simp_all add: takeWhile_append2)
  ultimately show ?thesis using c d digits_val_dec_string [of n] by (simp add: parse_number_def Let_def)
qed

lemma stoi_dec_string: "n < 2 ^ 31 \<Longrightarrow> stoi (dec_string n) = Some (int n)"
  using parse_number_dec_string [of "[]" n] by (simp add: stoi_def)

lemma stoul_dec_string: "n < 2 ^ 64 \<Longrightarrow> stoul (dec_string n) = Some (word_of_nat n)"
  using parse_number_dec_string [of "[]" n] by (simp add: stoul_def)

lemma stoi_u16: "stoi (dec_string (unat (p :: u16))) = Some (uint p)"
  using unsigned_less [of p] by (subst stoi_dec_string) (auto intro: order.strict_trans)

lemma rsplit_colon_append:
  assumes "CHR '':'' \<notin> set t"
  shows "rsplit_colon (s @ CHR '':'' # t) = Some (s, t)"
proof -
  have "takeWhile (\<lambda>c. c \<noteq> CHR '':'') (rev t @ CHR '':'' # rev s) = rev t"
    and "dropWhile (\<lambda>c. c \<noteq> CHR '':'') (rev t @ CHR '':'' # rev s) = CHR '':'' # rev s"
    using assms by (auto simp: takeWhile_append dropWhile_append)
  then show ?thesis by (simp add: rsplit_colon_def)
qed

lemma rsplit_colon_None_iff: "rsplit_colon s = None \<longleftrightarrow> CHR '':'' \<notin> set s"
  by (simp add: rsplit_colon_def)

lemma rsplit_colon_host_port: "rsplit_colon (host @ '':'' @ dec_string n) = Some (host, dec_string n)"
  using rsplit_colon_append [of "dec_string n" host] is_digit_dec_string [of "CHR '':''" n] by (auto simp: is_digit_def)

end
