(* ===== verification/ServerNode.thy ===== *)
theory ServerNode
  imports SwimProtocol TopologyManager StdString
begin

text \<open>
  The server process (\<open>src/src/main.cpp\<close>): reading the configuration, starting the node, and the life
  of its gossip part, in which the ring follows the member table through the change listener.

  The environment variables, the command line and the name service are arguments; \<open>None\<close> is an
  exception of \<open>stoi\<close> or \<open>stoul\<close>.
\<close>

section \<open>Configuration\<close>

definition env_or :: "(string \<Rightarrow> string option) \<Rightarrow> string \<Rightarrow> string \<Rightarrow> string" where
  "env_or getenv name fallback = (case getenv name of Some v \<Rightarrow> v | None \<Rightarrow> fallback)"

definition arg_or :: "string list \<Rightarrow> nat \<Rightarrow> string \<Rightarrow> string" where
  "arg_or argv i fallback = (if length argv > i then argv ! i else fallback)"

text \<open>\<open>is_ip\<close> is whether \<open>inet_pton\<close> accepts a string, \<open>lookup\<close> what the name service answers.\<close>

definition resolve_host :: "(string \<Rightarrow> bool) \<Rightarrow> (string \<Rightarrow> string option) \<Rightarrow> string \<Rightarrow> string" where
  "resolve_host is_ip lookup host =
     (if is_ip host then host else case lookup host of None \<Rightarrow> host | Some ip \<Rightarrow> ip)"

record server_config =
  sv_host :: string
  sv_data_port :: u16
  sv_gossip_port :: u16
  sv_memory_mb :: u64
  sv_seed :: string
  sv_seed_data_port :: u16

definition read_config :: "(string \<Rightarrow> string option) \<Rightarrow> string list \<Rightarrow> server_config option" where
  "read_config getenv argv =
     do { let host = env_or getenv ''PENSIEVE_HOST'' (arg_or argv 1 ''0.0.0.0'');
          dp \<leftarrow> stoi (env_or getenv ''PENSIEVE_DATA_PORT'' (arg_or argv 2 ''11211''));
          gp \<leftarrow> stoi (env_or getenv ''PENSIEVE_GOSSIP_PORT'' (arg_or argv 3 ''7946''));
          mb \<leftarrow> stoul (env_or getenv ''PENSIEVE_MEMORY_MB'' (arg_or argv 4 ''64''));
          let seed = env_or getenv ''PENSIEVE_SEED'' (arg_or argv 5 []);
          sdp \<leftarrow> stoi (env_or getenv ''PENSIEVE_SEED_DATA_PORT'' (dec_string (unat (word_of_int dp :: u16))));
          Some \<lparr>sv_host = host, sv_data_port = word_of_int dp, sv_gossip_port = word_of_int gp, sv_memory_mb = mb,
                sv_seed = seed, sv_seed_data_port = word_of_int sdp\<rparr> }"

text \<open>The seed is \<open>host:port\<close>, split at the last colon, or only a host.\<close>

definition parse_seed :: "u16 \<Rightarrow> string \<Rightarrow> (string \<times> u16) option" where
  "parse_seed gossip_port seed =
     (case rsplit_colon seed of
        None \<Rightarrow> Some (seed, gossip_port)
      | Some (h, p) \<Rightarrow> map_option (\<lambda>i. (h, word_of_int i)) (stoi p))"

section \<open>Starting a node\<close>

text \<open>The change listener that \<open>main\<close> installs.\<close>

definition ring_on_change :: "change_call \<Rightarrow> ring_store \<Rightarrow> ring_store" where
  "ring_on_change call rs =
     (case call of (nid, info) \<Rightarrow>
        if info_state info = Alive then ring_add_node rs nid kDefaultVnodes
        else if info_state info = Dead \<or> info_state info = Left then ring_remove_node rs nid
        else rs)"

definition ring_follow :: "change_call list \<Rightarrow> ring_store \<Rightarrow> ring_store" where
  "ring_follow calls rs = fold ring_on_change calls rs"

text \<open>
  Where the probe loop waits: for its period, for the answer to a direct ping, for the sending of the
  requests to the relays that are left, or for their answer.
\<close>

datatype probe_phase =
    Probe_Waiting
  | Probe_Direct node_id u32
  | Probe_Requests node_id u32 "node_id list"
  | Probe_Indirect node_id u32
  | Probe_Stopped

text \<open>A relay waits for its timeout, or (the flag) for the sending of its acknowledgement.\<close>

record server_node =
  nd_swim :: swim_protocol
  nd_probe :: probe_phase
  nd_receiving :: bool
  nd_reaping :: bool
  nd_relays :: "(relay \<times> bool) list"
  nd_ring :: ring_store

definition default_swim_config :: swim_config where
  "default_swim_config = \<lparr>sc_protocol_period = 1000, sc_ping_timeout = 200, sc_suspect_timeout = 5000,
     sc_indirect_ping_peers = 3, sc_max_piggyback_updates = 8, sc_self_data_port = 0\<rparr>"

definition start_node :: "node_id \<Rightarrow> u16 \<Rightarrow> (node_id \<times> u16) option \<Rightarrow> time_point \<Rightarrow> server_node" where
  "start_node self data_port seed now =
     (let ml = set_on_change new_member_list True;
          (ml, calls1, _) = ml_add_node ml ((default_node_info self now)\<lparr>info_data_port := data_port, info_state := Alive\<rparr>);
          (ml, calls2) =
            (case seed of
               None \<Rightarrow> (ml, [])
             | Some (seed_id, seed_data_port) \<Rightarrow>
                 (case ml_add_node ml ((default_node_info seed_id now)\<lparr>info_data_port := seed_data_port, info_state := Alive\<rparr>) of
                    (ml, calls, _) \<Rightarrow> (ml, calls)));
          dis = enqueue (new_disseminator 10) \<lparr>upd_type = Update_Join, upd_node = self, upd_incarnation = 0, upd_data_port = data_port\<rparr>;
          sw = new_swim_protocol ml dis self (default_swim_config\<lparr>sc_self_data_port := data_port\<rparr>)
      in \<lparr>nd_swim = swim_run sw, nd_probe = Probe_Waiting, nd_receiving = True, nd_reaping = True, nd_relays = [],
          nd_ring = ring_follow (calls1 @ calls2) new_ring_store\<rparr>)"

section \<open>The life of a node\<close>

text \<open>
  Each rule is one stretch of one of the coroutines, from one await to the next. The labels are the
  datagram it receives, if any, and the messages it sends. The \<open>probe\<close> rules follow \<open>probe_loop\<close>,
  \<open>datagram\<close> and \<open>no_message\<close> are \<open>recv_loop\<close>, the \<open>reaper\<close> rules \<open>suspicion_reaper\<close>, and the
  \<open>relay\<close> rules the spawned \<open>relay_ping\<close>s. \<open>draw\<close> is a draw from a range that starts at 0.
\<close>

inductive node_step :: "server_node \<Rightarrow> bytes option \<Rightarrow> datagram list \<Rightarrow> server_node \<Rightarrow> bool" where
  probe_stopped: "nd_probe nd = Probe_Waiting \<Longrightarrow> \<not> sw_running (nd_swim nd) \<Longrightarrow>
    node_step nd None [] (nd\<lparr>nd_probe := Probe_Stopped\<rparr>)"
| probe_nobody: "nd_probe nd = Probe_Waiting \<Longrightarrow> sw_running (nd_swim nd) \<Longrightarrow>
    random_peer (sw_members (nd_swim nd)) (sw_self (nd_swim nd)) draw = None \<Longrightarrow> node_step nd None [] nd"
| probe_direct: "nd_probe nd = Probe_Waiting \<Longrightarrow> sw_running (nd_swim nd) \<Longrightarrow>
    (\<And>m. draw m \<le> m) \<Longrightarrow> random_peer (sw_members (nd_swim nd)) (sw_self (nd_swim nd)) draw = Some target \<Longrightarrow>
    sorts_by ent_transmit_count srt \<Longrightarrow> direct_ping srt (nd_swim nd) target = (sw, sent, seq) \<Longrightarrow>
    node_step nd None sent (nd\<lparr>nd_swim := sw, nd_probe := Probe_Direct target seq\<rparr>)"
| probe_acked: "nd_probe nd = Probe_Direct target seq \<Longrightarrow> ping_result (nd_swim nd) seq = (sw, True) \<Longrightarrow>
    node_step nd None [] (nd\<lparr>nd_swim := sw, nd_probe := Probe_Waiting\<rparr>)"
| probe_alone: "nd_probe nd = Probe_Direct target seq \<Longrightarrow> ping_result (nd_swim nd) seq = (sw1, False) \<Longrightarrow>
    indirect_ping shuffle sw1 = (sw2, None) \<Longrightarrow> suspect_target sw2 target now = (sw, calls) \<Longrightarrow>
    node_step nd None [] (nd\<lparr>nd_swim := sw, nd_probe := Probe_Waiting, nd_ring := ring_follow calls (nd_ring nd)\<rparr>)"
| probe_indirect: "nd_probe nd = Probe_Direct target seq \<Longrightarrow> ping_result (nd_swim nd) seq = (sw1, False) \<Longrightarrow>
    (\<And>xs. mset (shuffle xs) = mset xs) \<Longrightarrow> indirect_ping shuffle sw1 = (sw2, Some (seq', r # rs)) \<Longrightarrow>
    sorts_by ent_transmit_count srt \<Longrightarrow> ping_req srt seq' target r sw2 = (sw, sent) \<Longrightarrow>
    node_step nd None sent (nd\<lparr>nd_swim := sw, nd_probe := Probe_Requests target seq' rs\<rparr>)"
| probe_request: "nd_probe nd = Probe_Requests target seq (r # rs) \<Longrightarrow>
    sorts_by ent_transmit_count srt \<Longrightarrow> ping_req srt seq target r (nd_swim nd) = (sw, sent) \<Longrightarrow>
    node_step nd None sent (nd\<lparr>nd_swim := sw, nd_probe := Probe_Requests target seq rs\<rparr>)"
| probe_requested: "nd_probe nd = Probe_Requests target seq [] \<Longrightarrow>
    node_step nd None [] (nd\<lparr>nd_probe := Probe_Indirect target seq\<rparr>)"
| probe_relayed: "nd_probe nd = Probe_Indirect target seq \<Longrightarrow> ping_result (nd_swim nd) seq = (sw, True) \<Longrightarrow>
    node_step nd None [] (nd\<lparr>nd_swim := sw, nd_probe := Probe_Waiting\<rparr>)"
| probe_failed: "nd_probe nd = Probe_Indirect target seq \<Longrightarrow> ping_result (nd_swim nd) seq = (sw1, False) \<Longrightarrow>
    suspect_target sw1 target now = (sw, calls) \<Longrightarrow>
    node_step nd None [] (nd\<lparr>nd_swim := sw, nd_probe := Probe_Waiting, nd_ring := ring_follow calls (nd_ring nd)\<rparr>)"
| datagram: "nd_receiving nd \<Longrightarrow> swim_deserialize bs = Some msg \<Longrightarrow>
    sorts_by ent_transmit_count srt \<Longrightarrow> handle_message srt now msg (nd_swim nd) = (sw, sent, calls, rls) \<Longrightarrow>
    node_step nd (Some bs) sent (nd\<lparr>nd_swim := sw, nd_receiving := sw_running sw,
      nd_relays := nd_relays nd @ map (\<lambda>rl. (rl, False)) rls, nd_ring := ring_follow calls (nd_ring nd)\<rparr>)"
| no_message: "nd_receiving nd \<Longrightarrow> bs = [] \<or> swim_deserialize bs = None \<Longrightarrow>
    node_step nd (Some bs) [] (nd\<lparr>nd_receiving := sw_running (nd_swim nd)\<rparr>)"
| reaper: "nd_reaping nd \<Longrightarrow> sw_running (nd_swim nd) \<Longrightarrow> suspicion_reaper now (nd_swim nd) = (sw, calls) \<Longrightarrow>
    node_step nd None [] (nd\<lparr>nd_swim := sw, nd_ring := ring_follow calls (nd_ring nd)\<rparr>)"
| reaper_stopped: "nd_reaping nd \<Longrightarrow> \<not> sw_running (nd_swim nd) \<Longrightarrow> node_step nd None [] (nd\<lparr>nd_reaping := False\<rparr>)"
| relay_timed_out: "(rl, False) \<in> set (nd_relays nd) \<Longrightarrow> relay_timeout rl (nd_swim nd) = (sw, sent, again) \<Longrightarrow>
    node_step nd None sent (nd\<lparr>nd_swim := sw,
      nd_relays := remove1 (rl, False) (nd_relays nd) @ (if again then [(rl, True)] else [])\<rparr>)"
| relay_acked: "(rl, True) \<in> set (nd_relays nd) \<Longrightarrow>
    node_step nd None [] (nd\<lparr>nd_swim := relay_done rl (nd_swim nd), nd_relays := remove1 (rl, True) (nd_relays nd)\<rparr>)"
| stop: "node_step nd None [] (nd\<lparr>nd_swim := swim_stop (nd_swim nd)\<rparr>)"

inductive node_reachable :: "server_node \<Rightarrow> bool" where
  start: "node_reachable (start_node self data_port seed now)"
| step: "node_reachable nd \<Longrightarrow> node_step nd inp sent nd' \<Longrightarrow> node_reachable nd'"

section \<open>The ring follows the member table\<close>

text \<open>
  Between the ring and the table: a token belongs to a node that has it as a virtual node and is alive
  or suspect, and unless two members share a token, the alive members own all of their tokens.
\<close>

definition ring_follows :: "member_list \<Rightarrow> ring_store \<Rightarrow> bool" where
  "ring_follows ml rs \<longleftrightarrow> ring_ok rs \<and>
     (\<forall>t n. ring_tokens rs t = Some n \<longrightarrow> t \<in> set (vnode_tokens n kDefaultVnodes) \<and>
        (\<exists>info. ml_get_node ml n = Some info \<and> info_state info \<in> {Alive, Suspect})) \<and>
     (tokens_disjoint (fst ` set (ml_nodes ml)) \<longrightarrow>
        (\<forall>n info t. ml_get_node ml n = Some info \<longrightarrow> info_state info = Alive \<longrightarrow> t \<in> set (vnode_tokens n kDefaultVnodes) \<longrightarrow>
           ring_tokens rs t = Some n))"

lemma ring_follow_Nil [simp]: "ring_follow [] rs = rs"
  by (simp add: ring_follow_def)

lemma ring_follow_append: "ring_follow (c1 @ c2) rs = ring_follow c2 (ring_follow c1 rs)"
  by (simp add: ring_follow_def)

lemma ring_follow_snoc: "ring_follow (calls @ [c]) rs = ring_on_change c (ring_follow calls rs)"
  by (simp add: ring_follow_def)

lemma ring_tokens_add_node:
  "ring_ok s \<Longrightarrow> ring_tokens (ring_add_node s n k) t = (if t \<in> set (vnode_tokens n k) then Some n else ring_tokens s t)"
  by (simp add: ring_add_node_def ring_tokens_add_tokens)

lemma tokens_disjointD:
  "tokens_disjoint N \<Longrightarrow> a \<in> N \<Longrightarrow> b \<in> N \<Longrightarrow> t \<in> set (vnode_tokens a kDefaultVnodes) \<Longrightarrow>
   t \<in> set (vnode_tokens b kDefaultVnodes) \<Longrightarrow> a = b"
  by (auto simp: tokens_disjoint_def)

lemma tokens_disjoint_mono: "tokens_disjoint N \<Longrightarrow> M \<subseteq> N \<Longrightarrow> tokens_disjoint M"
  unfolding tokens_disjoint_def by blast

lemma member_key: "ml_get_node ml n = Some info \<Longrightarrow> n \<in> fst ` set (ml_nodes ml)"
  by (auto simp: ml_get_node_def dest: um_find_SomeD intro: rev_image_eqI)

lemma ring_follows_change:
  assumes f: "ring_follows ml rs"
  shows "ring_follows (ml\<lparr>ml_nodes := um_set nid info (ml_nodes ml)\<rparr>) (ring_on_change (nid, info) rs)"
    (is "ring_follows ?ml ?rs")
proof -
  have ok: "ring_ok rs"
    and tok: "\<And>t n. ring_tokens rs t = Some n \<Longrightarrow> t \<in> set (vnode_tokens n kDefaultVnodes) \<and>
        (\<exists>info. ml_get_node ml n = Some info \<and> info_state info \<in> {Alive, Suspect})"
    and own: "\<And>n i t. tokens_disjoint (fst ` set (ml_nodes ml)) \<Longrightarrow> ml_get_node ml n = Some i \<Longrightarrow> info_state i = Alive \<Longrightarrow>
        t \<in> set (vnode_tokens n kDefaultVnodes) \<Longrightarrow> ring_tokens rs t = Some n"
    using f unfolding ring_follows_def by blast+
  have rs: "ring_tokens ?rs t =
      (if info_state info = Alive then if t \<in> set (vnode_tokens nid kDefaultVnodes) then Some nid else ring_tokens rs t
       else if info_state info = Suspect then ring_tokens rs t
       else if ring_tokens rs t = Some nid then None else ring_tokens rs t)" for t
    using ok by (cases "info_state info") (simp_all add: ring_on_change_def ring_tokens_add_node ring_tokens_remove_node)
  have "ring_ok ?rs" using ok by (simp add: ring_on_change_def)
  moreover have "t \<in> set (vnode_tokens n kDefaultVnodes) \<and>
      (\<exists>i. ml_get_node ?ml n = Some i \<and> info_state i \<in> {Alive, Suspect})" if "ring_tokens ?rs t = Some n" for t n
    using that tok [of t n] by (cases "info_state info"; cases "n = nid") (auto simp: rs split: if_splits)
  moreover have "ring_tokens ?rs t = Some n"
    if d: "tokens_disjoint (fst ` set (ml_nodes ?ml))" and n: "ml_get_node ?ml n = Some i" "info_state i = Alive"
      "t \<in> set (vnode_tokens n kDefaultVnodes)" for n i t
  proof -
    have d': "tokens_disjoint (fst ` set (ml_nodes ml))" by (rule tokens_disjoint_mono [OF d]) auto
    show ?thesis
    proof (cases "n = nid")
      case True
      then show ?thesis using n rs [of t] by simp
    next
      case False
      have "n \<in> fst ` set (ml_nodes ?ml)" and "nid \<in> fst ` set (ml_nodes ?ml)" using member_key [OF n(1)] by simp_all
      then have "t \<notin> set (vnode_tokens nid kDefaultVnodes)" using tokens_disjointD [OF d _ _ n(3)] False by blast
      moreover have "ring_tokens rs t = Some n" using own [OF d' _ n(2,3)] n(1) False by simp
      ultimately show ?thesis using False by (simp add: rs)
    qed
  qed
  ultimately show ?thesis unfolding ring_follows_def by blast
qed

lemma dead_owns_nothing:
  assumes f: "ring_follows ml rs" and n: "ml_get_node ml n = Some info" "info_state info \<notin> {Alive, Suspect}"
  shows "get_node_for_key rs h \<noteq> Some n"
proof
  assume "get_node_for_key rs h = Some n"
  then have "n \<in> ran (ring_tokens rs)" using f server_ring.owner_in_ran unfolding ring_follows_def by blast
  then obtain t where "ring_tokens rs t = Some n" by (auto simp: ran_def)
  then show False using f n unfolding ring_follows_def by force
qed

lemma ring_follows_run:
  "table_run self ml calls ml' \<Longrightarrow> ring_follows ml rs \<Longrightarrow> ring_follows ml' (ring_follow calls rs)"
proof (induction rule: table_run.induct)
  case (change ml calls ml' info nid)
  then show ?case using ring_follows_change [of ml' "ring_follow calls rs" nid info] by (simp add: ring_follow_snoc)
qed simp

section \<open>What every step keeps\<close>

fun probe_target :: "probe_phase \<Rightarrow> node_id option" where
  "probe_target Probe_Waiting = None"
| "probe_target (Probe_Direct target seq) = Some target"
| "probe_target (Probe_Requests target seq rs) = Some target"
| "probe_target (Probe_Indirect target seq) = Some target"
| "probe_target Probe_Stopped = None"

definition node_ok :: "server_node \<Rightarrow> bool" where
  "node_ok nd \<longleftrightarrow> sw_ok (nd_swim nd) \<and> probe_target (nd_probe nd) \<noteq> Some (sw_self (nd_swim nd)) \<and>
     (\<exists>info. ml_get_node (sw_members (nd_swim nd)) (sw_self (nd_swim nd)) = Some info \<and> info_state info = Alive) \<and>
     ring_follows (sw_members (nd_swim nd)) (nd_ring nd)"

lemma random_peer_alive:
  assumes "random_peer ml excluding draw = Some target" and "ml_ok ml" and "\<And>m. draw m \<le> m"
  shows "target \<noteq> excluding \<and> (\<exists>info. ml_get_node ml target = Some info \<and> info_state info = Alive)"
proof -
  let ?ps = "alive_peers ml excluding"
  have ne: "?ps \<noteq> []" and "target = ?ps ! draw (length ?ps - 1)"
    using assms(1) by (auto simp: random_peer_def Let_def split: if_splits)
  moreover have "draw (length ?ps - 1) < length ?ps" using ne assms(3) [of "length ?ps - 1"] by (cases ?ps) auto
  ultimately have "target \<in> set ?ps" by simp
  then show ?thesis by (simp add: set_alive_peers [OF assms(2)])
qed

lemma sw_run_one: "sw_run sw [] sw1 \<Longrightarrow> sw_run sw1 calls sw2 \<Longrightarrow> sw_run sw calls sw2"
  using sw_run_trans [of sw "[]" sw1 calls sw2] by simp

lemma sw_run_self: "sw_run sw calls sw' \<Longrightarrow> sw_self sw' = sw_self sw"
  by (simp add: sw_run_def)

lemma swim_stop_run: "sw_run sw [] (swim_stop sw)"
  by (simp add: swim_stop_def sw_run_def table_run.nil)

text \<open>A step changes the table by a run of changes, which the ring follows, and never probes the node itself.\<close>

lemma node_step_run:
  assumes st: "node_step nd inp sent nd'" and ok: "sw_ok (nd_swim nd)"
    and tgt: "probe_target (nd_probe nd) \<noteq> Some (sw_self (nd_swim nd))"
  shows "probe_target (nd_probe nd') \<noteq> Some (sw_self (nd_swim nd)) \<and>
    (\<exists>calls. sw_run (nd_swim nd) calls (nd_swim nd') \<and> nd_ring nd' = ring_follow calls (nd_ring nd))"
  using st
proof cases
  case (probe_direct draw target srt sw seq)
  have "target \<noteq> sw_self (nd_swim nd)" using random_peer_alive [OF probe_direct(6) _ probe_direct(5)] ok by (simp add: sw_ok_def)
  then show ?thesis using probe_direct(2) direct_ping_run [OF probe_direct(8)] by (auto intro!: exI [of _ "[]"])
next
  case (probe_acked target seq sw)
  then show ?thesis using ping_result_run by (auto intro!: exI [of _ "[]"])
next
  case (probe_alone target seq sw1 shuffle sw2 now sw calls)
  have r: "sw_run (nd_swim nd) [] sw2"
    by (rule sw_run_one [OF ping_result_run [OF probe_alone(5)] indirect_ping_run [OF probe_alone(6)]])
  have "sw_run sw2 calls sw"
    by (rule suspect_target_run [OF probe_alone(7) sw_run_ok [OF r ok]])
      (use tgt probe_alone(4) sw_run_self [OF r] in simp)
  from sw_run_one [OF r this] show ?thesis using probe_alone(3) by auto
next
  case (probe_indirect target seq sw1 shuffle sw2 seq' r rs srt sw)
  have "sw_run (nd_swim nd) [] sw"
    by (rule sw_run_one [OF ping_result_run [OF probe_indirect(4)] sw_run_one [OF indirect_ping_run [OF probe_indirect(6)] ping_req_run [OF probe_indirect(8)]]])
  then show ?thesis using probe_indirect(2,3) tgt by (auto intro!: exI [of _ "[]"])
next
  case (probe_request target seq r rs srt sw)
  then show ?thesis using tgt ping_req_run [OF probe_request(5)] by (auto intro!: exI [of _ "[]"])
next
  case (probe_relayed target seq sw)
  then show ?thesis using ping_result_run by (auto intro!: exI [of _ "[]"])
next
  case (probe_failed target seq sw1 now sw calls)
  have r: "sw_run (nd_swim nd) [] sw1" by (rule ping_result_run [OF probe_failed(5)])
  have "sw_run sw1 calls sw"
    by (rule suspect_target_run [OF probe_failed(6) sw_run_ok [OF r ok]])
      (use tgt probe_failed(4) sw_run_self [OF r] in simp)
  from sw_run_one [OF r this] show ?thesis using probe_failed(3) by auto
next
  case (datagram bs msg srt now sw calls rls)
  then show ?thesis using handle_message_run [OF ok datagram(6)] tgt by auto
next
  case (reaper now sw calls)
  then show ?thesis using reap_run [OF ok, of now] tgt by (auto simp: suspicion_reaper_def)
next
  case (relay_timed_out rl sw again)
  then show ?thesis using relay_timeout_run tgt by (auto intro!: exI [of _ "[]"])
next
  case (relay_acked rl)
  then show ?thesis using relay_done_run tgt by (auto intro!: exI [of _ "[]"])
next
  case stop
  then show ?thesis using swim_stop_run tgt by (auto intro!: exI [of _ "[]"])
qed (use tgt in \<open>auto intro!: exI [of _ "[]"] sw_run_same\<close>)

lemma node_ok_step:
  assumes "node_step nd inp sent nd'" and "node_ok nd"
  shows "node_ok nd'"
proof -
  have ok: "sw_ok (nd_swim nd)" and tgt: "probe_target (nd_probe nd) \<noteq> Some (sw_self (nd_swim nd))"
    using assms(2) by (simp_all add: node_ok_def)
  obtain calls where t: "probe_target (nd_probe nd') \<noteq> Some (sw_self (nd_swim nd))"
    and run: "sw_run (nd_swim nd) calls (nd_swim nd')" and ring: "nd_ring nd' = ring_follow calls (nd_ring nd)"
    using node_step_run [OF assms(1) ok tgt] by blast
  have tr: "table_run (sw_self (nd_swim nd)) (sw_members (nd_swim nd)) calls (sw_members (nd_swim nd'))"
    and self: "sw_self (nd_swim nd') = sw_self (nd_swim nd)" using run by (simp_all add: sw_run_def)
  show ?thesis unfolding node_ok_def self ring
    using t sw_run_ok [OF run ok] table_run_self [OF tr] ring_follows_run [OF tr] assms(2) by (simp add: node_ok_def)
qed

lemma node_ok_start: "node_ok (start_node self data_port seed now)"
proof -
  let ?ml0 = "set_on_change new_member_list True"
  let ?i = "(default_node_info self now)\<lparr>info_data_port := data_port, info_state := Alive\<rparr>"
  obtain ml1 c1 b1 where a1: "ml_add_node ?ml0 ?i = (ml1, c1, b1)" by (metis surj_pair)
  have t1: "table_run self ?ml0 c1 ml1" by (rule add_node_run [OF a1]) (simp_all add: set_on_change_def)
  have self1: "\<exists>info. ml_get_node ml1 self = Some info \<and> info_state info = Alive"
    using ml_get_node_add [of ?ml0 ?i self] a1 by (simp add: default_node_info_def ml_get_node_def set_on_change_def new_member_list_def)
  obtain ml2 c2 where a2: "(case seed of None \<Rightarrow> (ml1, [])
      | Some (seed_id, seed_data_port) \<Rightarrow>
          (case ml_add_node ml1 ((default_node_info seed_id now)\<lparr>info_data_port := seed_data_port, info_state := Alive\<rparr>) of
             (ml, calls, _) \<Rightarrow> (ml, calls))) = (ml2, c2)" by (metis surj_pair)
  have ok0: "ml_ok ?ml0" by (simp add: ml_ok_def set_on_change_def new_member_list_def)
  have l1: "ml_on_change ml1" "ml_ok ml1" using table_run_keeps [OF t1 ok0] by (simp_all add: set_on_change_def)
  have t2: "table_run self ml1 c2 ml2"
  proof (cases seed)
    case None
    then show ?thesis using a2 by (simp add: table_run.nil)
  next
    case (Some s)
    obtain sid sport where "s = (sid, sport)" by fastforce
    then show ?thesis using Some a2 l1(1)
      by (auto split: prod.splits intro!: add_node_run [where info = "(default_node_info sid now)\<lparr>info_data_port := sport, info_state := Alive\<rparr>"])
  qed
  have t: "table_run self ?ml0 (c1 @ c2) ml2" by (rule table_run_trans [OF t1 t2])
  have "ring_follows ?ml0 new_ring_store"
    by (simp add: ring_follows_def ml_get_node_def set_on_change_def new_member_list_def)
  then have "ring_follows ml2 (ring_follow (c1 @ c2) new_ring_store)" by (rule ring_follows_run [OF t])
  moreover have "sw_members (nd_swim (start_node self data_port seed now)) = ml2"
    and "nd_ring (start_node self data_port seed now) = ring_follow (c1 @ c2) new_ring_store"
    and "sw_self (nd_swim (start_node self data_port seed now)) = self"
    and "nd_probe (start_node self data_port seed now) = Probe_Waiting"
    using a1 a2 by (simp_all add: start_node_def swim_run_def new_swim_protocol_def Let_def)
  ultimately show ?thesis
    using table_run_keeps [OF t ok0] table_run_self [OF t2 self1] by (simp add: node_ok_def sw_ok_def set_on_change_def)
qed

lemma node_ok_reachable: "node_reachable nd \<Longrightarrow> node_ok nd"
  by (induction rule: node_reachable.induct) (auto intro: node_ok_start node_ok_step)

section \<open>Rings with fewer tokens\<close>

context clockwise_ring
begin

text \<open>Taking tokens away keeps the owner of a position as long as its nearest token stays.\<close>

lemma owner_fewer_tokens:
  assumes "ok r" and "ok r'" and fewer: "dom (tokens r') \<subseteq> dom (tokens r)" and "tokens r \<noteq> Map.empty"
  shows "\<exists>t v. tokens r t = Some v \<and> owner r h = Some v \<and> (tokens r' t = Some v \<longrightarrow> owner r' h = Some v)"
proof -
  obtain t v where t: "tokens r t = Some v" "owner r h = Some v" "\<forall>t' \<in> dom (tokens r). t - h \<le> t' - h"
    using owner_nearest [OF assms(1,4)] by blast
  have "owner r' h = Some v" if "tokens r' t = Some v"
    by (rule owner_eq [OF assms(2) that]) (use t(3) fewer in blast)
  then show ?thesis using t by blast
qed

end

lemma alive_ids:
  assumes "ml_ok ml"
  shows "n \<in> ep_node_id ` set (alive_endpoints ml) \<longleftrightarrow> (\<exists>info. ml_get_node ml n = Some info \<and> info_state info = Alive)"
proof -
  have um: "um_ok (ml_nodes ml)" using assms by (simp add: ml_ok_def)
  have eq: "\<lparr>node_host = node_host x, node_port = node_port x\<rparr> = x" for x :: node_id by simp
  have "ep_node_id ` set (alive_endpoints ml) = fst ` {e \<in> set (ml_nodes ml). info_state (snd e) = Alive}"
    by (simp add: alive_endpoints_def image_image case_prod_beta ep_node_id_def eq)
  then have "n \<in> ep_node_id ` set (alive_endpoints ml) \<longleftrightarrow> (\<exists>info. (n, info) \<in> set (ml_nodes ml) \<and> info_state info = Alive)"
    by (auto simp: image_iff)
  then show ?thesis by (simp add: um_find_mem [OF um] ml_get_node_def)
qed

lemma vnode_tokens_nonempty: "vnode_tokens n kDefaultVnodes \<noteq> []"
  by (simp add: vnode_tokens_def kDefaultVnodes_def)

section \<open>Properties\<close>





lemma silent_probe_suspects:
  assumes "nd_probe nd = Probe_Indirect target seq" and "um_find seq (sw_pending_acks (nd_swim nd)) \<noteq> Some True"
    and "ml_get_node (sw_members (nd_swim nd)) target = Some info" and "info_state info = Alive"
  obtains nd1 where "node_step nd None [] nd1"
    and "ml_get_node (sw_members (nd_swim nd1)) target = Some (info\<lparr>info_state := Suspect, info_last_change := now\<rparr>)"
    and "sw_disseminator (nd_swim nd1) = enqueue (sw_disseminator (nd_swim nd))
      \<lparr>upd_type = Update_Suspect, upd_node = target, upd_incarnation = info_incarnation info, upd_data_port = 0\<rparr>"
    and "sw_running (nd_swim nd1) = sw_running (nd_swim nd)" and "nd_reaping nd1 = nd_reaping nd" and "nd_receiving nd1 = nd_receiving nd"
    and "sw_config (nd_swim nd1) = sw_config (nd_swim nd)" and "sw_self (nd_swim nd1) = sw_self (nd_swim nd)"
proof -
  define sw1 where "sw1 = (nd_swim nd)\<lparr>sw_pending_acks := um_erase seq (sw_pending_acks (nd_swim nd))\<rparr>"
  have r: "ping_result (nd_swim nd) seq = (sw1, False)"
    using assms(2) by (auto simp: ping_result_def Let_def sw1_def split: option.splits)
  let ?ml = "(sw_members (nd_swim nd))\<lparr>ml_nodes := um_set target (info\<lparr>info_state := Suspect, info_last_change := now\<rparr>) (ml_nodes (sw_members (nd_swim nd)))\<rparr>"
  have s: "suspect_target sw1 target now =
      (sw1\<lparr>sw_members := ?ml, sw_disseminator := enqueue (sw_disseminator (nd_swim nd))
        \<lparr>upd_type = Update_Suspect, upd_node = target, upd_incarnation = info_incarnation info, upd_data_port = 0\<rparr>\<rparr>, notify ?ml target)"
    using assms(3,4) by (simp add: suspect_target_def ml_update_state_def ml_get_node_def sw1_def Let_def)
  show thesis by (rule that [OF node_step.probe_failed [OF assms(1) r s]]) (simp_all add: sw1_def)
qed

text \<open>
  C12. A silent peer is removed: when a probed node that was alive has answered neither the ping nor the
  requests through others, the probe makes it suspect and queues that news, and as soon as the reaper
  finds the suspicion old enough the node is dead, and the ring names it for no key any more.
\<close>
theorem silent_peer_removed:
  assumes "node_reachable nd" and "nd_probe nd = Probe_Indirect target seq" and "nd_reaping nd" and "sw_running (nd_swim nd)"
    and "um_find seq (sw_pending_acks (nd_swim nd)) \<noteq> Some True"
    and "ml_get_node (sw_members (nd_swim nd)) target = Some info" and "info_state info = Alive"
    and "sc_suspect_timeout (sw_config (nd_swim nd)) \<le> elapsed_ms later now"
  shows "\<exists>nd1 nd2. node_step nd None [] nd1 \<and> node_step nd1 None [] nd2 \<and>
    ml_get_node (sw_members (nd_swim nd1)) target = Some (info\<lparr>info_state := Suspect, info_last_change := now\<rparr>) \<and>
    sw_disseminator (nd_swim nd1) = enqueue (sw_disseminator (nd_swim nd))
      \<lparr>upd_type = Update_Suspect, upd_node = target, upd_incarnation = info_incarnation info, upd_data_port = 0\<rparr> \<and>
    ml_get_node (sw_members (nd_swim nd2)) target = Some (info\<lparr>info_state := Dead, info_last_change := later\<rparr>) \<and>
    (\<forall>h. get_node_for_key (nd_ring nd2) h \<noteq> Some target)"
proof -
  obtain nd1 where step1: "node_step nd None [] nd1"
    and nd1: "ml_get_node (sw_members (nd_swim nd1)) target = Some (info\<lparr>info_state := Suspect, info_last_change := now\<rparr>)"
      "sw_disseminator (nd_swim nd1) = enqueue (sw_disseminator (nd_swim nd))
        \<lparr>upd_type = Update_Suspect, upd_node = target, upd_incarnation = info_incarnation info, upd_data_port = 0\<rparr>"
      "sw_running (nd_swim nd1)" "nd_reaping nd1" "sw_config (nd_swim nd1) = sw_config (nd_swim nd)" "sw_self (nd_swim nd1) = sw_self (nd_swim nd)"
    by (rule silent_probe_suspects [OF assms(2,5-7)]) (use assms(3,4) in auto)
  obtain sw2 calls where p: "suspicion_reaper later (nd_swim nd1) = (sw2, calls)" by fastforce
  define nd2 where "nd2 = nd1\<lparr>nd_swim := sw2, nd_ring := ring_follow calls (nd_ring nd1)\<rparr>"
  have step2: "node_step nd1 None [] nd2" unfolding nd2_def by (rule node_step.reaper [OF nd1(4,3) p])
  have reach: "node_reachable nd1" "node_reachable nd2"
    using node_reachable.step [OF assms(1) step1] node_reachable.step [OF _ step2] by blast+
  have ok: "node_ok nd" "sw_ok (nd_swim nd1)" using node_ok_reachable [OF assms(1)] node_ok_reachable [OF reach(1)] by (auto simp: node_ok_def)
  have self: "target \<noteq> sw_self (nd_swim nd1)" using ok(1) assms(2) nd1(6) by (auto simp: node_ok_def)
  have dead: "ml_get_node (sw_members (nd_swim nd2)) target = Some (info\<lparr>info_state := Dead, info_last_change := later\<rparr>)"
    using suspicion_reaper_get [OF ok(2) p, of target] nd1(1,5) self assms(8) by (simp add: nd2_def reaped_def expired_def)
  have f: "ring_follows (sw_members (nd_swim nd2)) (nd_ring nd2)" using node_ok_reachable [OF reach(2)] by (simp add: node_ok_def)
  have "get_node_for_key (nd_ring nd2) h \<noteq> Some target" for h by (rule dead_owns_nothing [OF f dead]) simp
  then show ?thesis using step1 step2 nd1(1,2) dead by blast
qed

text \<open>A node whose only peer has answered nothing so far.\<close>

abbreviation lonely_node :: server_node where
  "lonely_node \<equiv> start_node self_id 2 (Some (other_id, 2)) 0"

abbreviation lonely_join :: membership_update where
  "lonely_join \<equiv> \<lparr>upd_type = Update_Join, upd_node = self_id, upd_incarnation = 0, upd_data_port = 2\<rparr>"

lemma start_members:
  "seed_id \<noteq> self \<Longrightarrow> sw_members (nd_swim (start_node self data_port (Some (seed_id, seed_port)) now)) =
     \<lparr>ml_nodes = [(self, (default_node_info self now)\<lparr>info_data_port := data_port, info_state := Alive\<rparr>),
        (seed_id, (default_node_info seed_id now)\<lparr>info_data_port := seed_port, info_state := Alive\<rparr>)], ml_on_change = True\<rparr>"
  by (simp add: start_node_def swim_run_def new_swim_protocol_def ml_add_node_def set_on_change_def new_member_list_def um_set_def
      um_find_def default_node_info_def Let_def)

lemma start_state:
  fixes self data_port seed now
  defines "nd \<equiv> start_node self data_port seed now"
  shows "sw_self (nd_swim nd) = self" "sw_running (nd_swim nd)" "nd_probe nd = Probe_Waiting"
    "nd_reaping nd" "nd_receiving nd" "sw_config (nd_swim nd) = default_swim_config\<lparr>sc_self_data_port := data_port\<rparr>"
    "sw_seq_counter (nd_swim nd) = 0" "sw_pending_acks (nd_swim nd) = []"
    "sw_disseminator (nd_swim nd) = \<lparr>dis_max_transmissions = 10, dis_queue =
       [\<lparr>ent_update = \<lparr>upd_type = Update_Join, upd_node = self, upd_incarnation = 0, upd_data_port = data_port\<rparr>, ent_transmit_count = 0\<rparr>]\<rparr>"
  by (simp_all add: nd_def start_node_def swim_run_def new_swim_protocol_def new_disseminator_def enqueue_def Let_def split: prod.splits)

text \<open>Steps without input.\<close>

inductive silent_steps :: "server_node \<Rightarrow> server_node \<Rightarrow> bool" where
  silent_nil: "silent_steps nd nd"
| silent_step: "silent_steps nd nd1 \<Longrightarrow> node_step nd1 None sent nd2 \<Longrightarrow> silent_steps nd nd2"

lemma silent_steps_reachable: "silent_steps nd nd' \<Longrightarrow> node_reachable nd \<Longrightarrow> node_reachable nd'"
  by (induction rule: silent_steps.induct) (auto intro: node_reachable.step)

lemma lonely_silence:
  "\<exists>nd. silent_steps lonely_node nd \<and> nd_receiving nd \<and> sw_self (nd_swim nd) = self_id \<and>
     sw_disseminator (nd_swim nd) = \<lparr>dis_max_transmissions = 10, dis_queue = [\<lparr>ent_update = lonely_join, ent_transmit_count = 2\<rparr>]\<rparr> \<and>
     nd_probe nd = Probe_Indirect other_id 1 \<and> nd_reaping nd \<and> sw_running (nd_swim nd) \<and>
     um_find 1 (sw_pending_acks (nd_swim nd)) = Some False \<and> sw_members (nd_swim nd) = sw_members (nd_swim lonely_node) \<and>
     sw_config (nd_swim nd) = sw_config (nd_swim lonely_node)"
proof -
  let ?srt = "sort_key ent_transmit_count" and ?sw0 = "nd_swim lonely_node"
  have peers: "alive_peers (sw_members ?sw0) self_id = [other_id]"
    by (simp add: start_members alive_peers_def default_node_info_def)
  obtain sw1 sent1 where d: "direct_ping ?srt ?sw0 other_id = (sw1, sent1, 0)"
    and sw1: "sw_members sw1 = sw_members ?sw0" "sw_self sw1 = self_id" "sw_running sw1" "sw_config sw1 = sw_config ?sw0"
      "sw_seq_counter sw1 = 1" "sw_pending_acks sw1 = um_set 0 False []"
      "sw_disseminator sw1 = \<lparr>dis_max_transmissions = 10, dis_queue = [\<lparr>ent_update = lonely_join, ent_transmit_count = 1\<rparr>]\<rparr>"
    by (simp add: direct_ping_eq start_state default_swim_config_def get_updates_eq Let_def)
  define nd1 where "nd1 = lonely_node\<lparr>nd_swim := sw1, nd_probe := Probe_Direct other_id 0\<rparr>"
  have s1: "node_step lonely_node None sent1 nd1" unfolding nd1_def
    by (rule node_step.probe_direct [where draw = "\<lambda>m. 0" and srt = ?srt])
      (simp_all add: start_state random_peer_def peers d sorts_by_sort_key)
  define sw2 where "sw2 = sw1\<lparr>sw_pending_acks := um_erase 0 (um_set 0 False []), sw_seq_counter := 2\<rparr>
    \<lparr>sw_pending_acks := um_set 1 False (um_erase 0 (um_set 0 False []))\<rparr>"
  obtain sw3 sent3 where r: "ping_req ?srt 1 other_id other_id sw2 = (sw3, sent3)"
    and sw3: "sw_members sw3 = sw_members ?sw0" "sw_running sw3" "sw_config sw3 = sw_config ?sw0" "um_find 1 (sw_pending_acks sw3) = Some False"
      "sw_disseminator sw3 = \<lparr>dis_max_transmissions = 10, dis_queue = [\<lparr>ent_update = lonely_join, ent_transmit_count = 2\<rparr>]\<rparr>" "sw_self sw3 = self_id"
    by (simp add: ping_req_eq sw2_def sw1 start_state default_swim_config_def get_updates_eq Let_def)
  define nd2 where "nd2 = nd1\<lparr>nd_swim := sw3, nd_probe := Probe_Requests other_id 1 []\<rparr>"
  have pr: "ping_result (nd_swim nd1) 0 = (sw1\<lparr>sw_pending_acks := um_erase 0 (um_set 0 False [])\<rparr>, False)"
    by (simp add: nd1_def ping_result_def sw1 Let_def)
  have ip: "indirect_ping (\<lambda>xs. xs) (sw1\<lparr>sw_pending_acks := um_erase 0 (um_set 0 False [])\<rparr>) = (sw2, Some (1, [other_id]))"
    by (simp add: indirect_ping_def random_peers_def peers sw1 start_state default_swim_config_def next_seq_def sw2_def Let_def)
  have s2: "node_step nd1 None sent3 nd2" unfolding nd2_def
    by (rule node_step.probe_indirect [OF _ pr _ ip _ r]) (simp_all add: nd1_def sorts_by_sort_key)
  define nd3 where "nd3 = nd2\<lparr>nd_probe := Probe_Indirect other_id 1\<rparr>"
  have s3: "node_step nd2 None [] nd3" unfolding nd3_def by (rule node_step.probe_requested) (simp add: nd2_def)
  have "silent_steps lonely_node nd3"
    by (rule silent_steps.silent_step [OF silent_steps.silent_step [OF silent_steps.silent_step [OF silent_steps.silent_nil s1] s2] s3])
  then show ?thesis by (intro exI [of _ nd3]) (simp add: nd3_def nd2_def nd1_def sw3 start_state)
qed

theorem silent_peer_removed_witness:
  "\<exists>nd nd1 nd2. node_reachable nd \<and> node_step nd None [] nd1 \<and> node_step nd1 None [] nd2 \<and>
     (\<forall>h. get_node_for_key (nd_ring nd2) h \<noteq> Some other_id)"
proof -
  obtain nd where nd: "node_reachable nd" "nd_probe nd = Probe_Indirect other_id 1" "nd_reaping nd" "sw_running (nd_swim nd)"
    "um_find 1 (sw_pending_acks (nd_swim nd)) = Some False" "sw_members (nd_swim nd) = sw_members (nd_swim lonely_node)"
    "sw_config (nd_swim nd) = sw_config (nd_swim lonely_node)"
    using lonely_silence silent_steps_reachable [OF _ node_reachable.start] by blast
  have "ml_get_node (sw_members (nd_swim nd)) other_id = Some ((default_node_info other_id 0)\<lparr>info_data_port := 2, info_state := Alive\<rparr>)"
    by (simp add: nd(6) start_members ml_get_node_def um_find_def)
  from silent_peer_removed [OF nd(1-4) _ this, of 6000000000 0] nd(5,7)
  have "\<exists>nd1 nd2. node_step nd None [] nd1 \<and> node_step nd1 None [] nd2 \<and> (\<forall>h. get_node_for_key (nd_ring nd2) h \<noteq> Some other_id)"
    by (auto simp: start_state default_swim_config_def elapsed_ms_def)
  then show ?thesis using nd(1) by blast
qed

text \<open>The environment variables that spell a configuration.\<close>

definition config_env :: "server_config \<Rightarrow> string \<Rightarrow> string option" where
  "config_env cfg = [''PENSIEVE_HOST'' \<mapsto> sv_host cfg, ''PENSIEVE_DATA_PORT'' \<mapsto> dec_string (unat (sv_data_port cfg)),
     ''PENSIEVE_GOSSIP_PORT'' \<mapsto> dec_string (unat (sv_gossip_port cfg)), ''PENSIEVE_MEMORY_MB'' \<mapsto> dec_string (unat (sv_memory_mb cfg)),
     ''PENSIEVE_SEED'' \<mapsto> sv_seed cfg, ''PENSIEVE_SEED_DATA_PORT'' \<mapsto> dec_string (unat (sv_seed_data_port cfg))]"

text \<open>
  Configuration: every configuration can be given through the environment, which takes precedence over
  the command line. A seed \<open>host:port\<close> is split at its last colon, so the host may contain colons; a
  port beyond 16 bits is silently reduced modulo 65536, and without a port the node's own gossip
  port is used.
\<close>
theorem configuration_roundtrip:
  assumes "n < 2 ^ 31" and "CHR '':'' \<notin> set plain"
  shows "read_config (config_env cfg) argv = Some cfg \<and>
    parse_seed gossip_port (host @ '':'' @ dec_string n) = Some (host, word_of_nat n) \<and>
    parse_seed gossip_port plain = Some (plain, gossip_port)"
proof -
  have "stoul (dec_string (unat (sv_memory_mb cfg))) = Some (sv_memory_mb cfg)"
    by (subst stoul_dec_string) (simp_all add: unsigned_less [of "sv_memory_mb cfg", simplified])
  then have "read_config (config_env cfg) argv = Some cfg"
    by (simp add: read_config_def env_or_def config_env_def stoi_u16)
  moreover have "parse_seed gossip_port (host @ '':'' @ dec_string n) = Some (host, word_of_nat n)"
    using assms(1) by (simp add: parse_seed_def rsplit_colon_append stoi_dec_string)
  moreover have "parse_seed gossip_port plain = Some (plain, gossip_port)"
    using assms(2) rsplit_colon_None_iff [of plain] by (simp add: parse_seed_def)
  ultimately show ?thesis by blast
qed

theorem configuration_roundtrip_witness:
  "parse_seed 7946 (''10.0.0.1'' @ '':'' @ dec_string 7946) = Some (''10.0.0.1'', 7946) \<and>
   parse_seed 7946 ''10.0.0.1'' = Some (''10.0.0.1'', 7946) \<and> parse_seed 7946 (''h'' @ '':'' @ dec_string 65537) = Some (''h'', 1)"
  using configuration_roundtrip [of 7946 "''10.0.0.1''" _ _ 7946 "''10.0.0.1''"] configuration_roundtrip [of 65537 "[]" _ _ 7946 "''h''"]
  by simp

end
