(* ===== verification/Cluster.thy ===== *)
theory Cluster
  imports ServerNode
begin

text \<open>
  A cluster: servers (\<open>ServerNode\<close>) that exchange gossip datagrams over a network that may lose,
  reorder and duplicate them.

  Every node runs the code of \<open>swim_protocol.cpp\<close> as started by \<open>main.cpp\<close>; nodes have distinct
  identities, join at any time, and may fall silent at any time (a node need not take steps), but a
  node that stopped is not started again under its identity. What a node sends stays in the network
  as bytes, and may be delivered to its destination any number of times, or never.

  The lemmas bound incarnation numbers: nobody ever holds or spreads a larger incarnation of a node
  than the one the node has given itself. That is what makes the refutation of a suspicion effective.
\<close>

section \<open>State and steps\<close>

record cluster =
  cl_nodes :: "node_id \<Rightarrow> server_node option"
  cl_network :: "(node_id \<times> bytes) set"

definition transmit :: "datagram list \<Rightarrow> cluster \<Rightarrow> cluster" where
  "transmit sent c = c\<lparr>cl_network := cl_network c \<union> (\<lambda>(dest, msg). (dest, swim_serialize msg)) ` set sent\<rparr>"

definition with_node :: "node_id \<Rightarrow> server_node \<Rightarrow> cluster \<Rightarrow> cluster" where
  "with_node p nd c = c\<lparr>cl_nodes := (cl_nodes c)(p \<mapsto> nd)\<rparr>"

text \<open>\<open>cluster_run k c\<close>: the cluster has reached \<open>c\<close> with \<open>k\<close> deliveries of datagrams.\<close>

inductive cluster_run :: "nat \<Rightarrow> cluster \<Rightarrow> bool" where
  empty: "cluster_run 0 \<lparr>cl_nodes = Map.empty, cl_network = {}\<rparr>"
| boot: "cluster_run k c \<Longrightarrow> cl_nodes c self = None \<Longrightarrow> node_id_fits self \<Longrightarrow>
    pred_option (\<lambda>(seed_id, _). node_id_fits seed_id) seed \<Longrightarrow>
    cluster_run k (with_node self (start_node self data_port seed now) c)"
| work: "cluster_run k c \<Longrightarrow> cl_nodes c p = Some nd \<Longrightarrow> node_step nd None sent nd' \<Longrightarrow>
    cluster_run k (transmit sent (with_node p nd' c))"
| deliver: "cluster_run k c \<Longrightarrow> cl_nodes c p = Some nd \<Longrightarrow> (p, bs) \<in> cl_network c \<Longrightarrow>
    node_step nd (Some bs) sent nd' \<Longrightarrow> cluster_run (Suc k) (transmit sent (with_node p nd' c))"

text \<open>The incarnation a node has given itself.\<close>

definition own_incarnation :: "cluster \<Rightarrow> node_id \<Rightarrow> u64" where
  "own_incarnation c n = (case cl_nodes c n of Some nd \<Rightarrow> sw_incarnation (nd_swim nd) | None \<Rightarrow> 0)"

section \<open>Bounds on incarnations\<close>

definition update_within :: "(node_id \<Rightarrow> u64) \<Rightarrow> membership_update \<Rightarrow> bool" where
  "update_within B u \<longleftrightarrow> upd_incarnation u \<le> B (upd_node u) \<and> node_id_fits (upd_node u)"

definition queue_within :: "(node_id \<Rightarrow> u64) \<Rightarrow> disseminator \<Rightarrow> bool" where
  "queue_within B d \<longleftrightarrow> (\<forall>e \<in> set (dis_queue d). update_within B (ent_update e))"

definition table_within :: "(node_id \<Rightarrow> u64) \<Rightarrow> member_list \<Rightarrow> bool" where
  "table_within B ml \<longleftrightarrow> (\<forall>n info. ml_get_node ml n = Some info \<longrightarrow> info_incarnation info \<le> B n \<and> node_id_fits n)"

definition sent_within :: "(node_id \<Rightarrow> u64) \<Rightarrow> datagram list \<Rightarrow> bool" where
  "sent_within B sent \<longleftrightarrow> (\<forall>(dest, m) \<in> set sent. swim_message_fits m \<and> (\<forall>u \<in> set (msg_updates m). update_within B u))"

definition sw_within :: "(node_id \<Rightarrow> u64) \<Rightarrow> swim_protocol \<Rightarrow> bool" where
  "sw_within B sw \<longleftrightarrow> table_within B (sw_members sw) \<and> queue_within B (sw_disseminator sw) \<and>
     node_id_fits (sw_self sw) \<and> B (sw_self sw) = sw_incarnation sw \<and> sc_max_piggyback_updates (sw_config sw) < 2 ^ 16"

lemma update_within_mono: "update_within B u \<Longrightarrow> B \<le> B' \<Longrightarrow> update_within B' u"
  by (auto simp: update_within_def le_fun_def intro: order.trans)

lemma queue_within_mono: "queue_within B d \<Longrightarrow> B \<le> B' \<Longrightarrow> queue_within B' d"
  by (auto simp: queue_within_def intro: update_within_mono)

lemma table_within_mono: "table_within B ml \<Longrightarrow> B \<le> B' \<Longrightarrow> table_within B' ml"
  unfolding table_within_def le_fun_def by (meson order.trans)

lemma queue_within_enqueue: "queue_within B d \<Longrightarrow> update_within B u \<Longrightarrow> queue_within B (enqueue d u)"
proof -
  have "\<forall>e \<in> set es. update_within B (ent_update e) \<Longrightarrow> update_within B u \<Longrightarrow>
      \<forall>e \<in> set (enqueue_loop es u). update_within B (ent_update e)" for es
    by (induction es u rule: enqueue_loop.induct) auto
  then show "queue_within B d \<Longrightarrow> update_within B u \<Longrightarrow> queue_within B (enqueue d u)"
    by (simp add: queue_within_def enqueue_def)
qed

lemma queue_within_get_updates:
  assumes "sorts_by ent_transmit_count srt" and "queue_within B d"
  shows "queue_within B (fst (get_updates srt d limit))" and "\<forall>u \<in> set (snd (get_updates srt d limit)). update_within B u"
proof -
  let ?q = "srt (dis_queue d)"
  have q: "update_within B (ent_update e)" if "e \<in> set ?q" for e
    using that assms sorts_byD(3) [OF assms(1)] by (simp add: queue_within_def)
  then show "queue_within B (fst (get_updates srt d limit))"
    by (auto simp: queue_within_def get_updates_eq Let_def dest: in_set_takeD in_set_dropD)
  show "\<forall>u \<in> set (snd (get_updates srt d limit)). update_within B u"
    using q by (auto simp: get_updates_eq Let_def dest: in_set_takeD)
qed

lemma table_within_add:
  assumes "table_within B ml" and "info_incarnation info \<le> B (info_id info)" and "node_id_fits (info_id info)"
  shows "table_within B (fst (ml_add_node ml info))"
  using assms by (auto simp: table_within_def ml_get_node_add merge_def split: option.splits)

lemma table_within_update:
  assumes "table_within B ml" and "inc \<le> B nid"
  shows "table_within B (fst (ml_update_state ml nid st inc now))"
  using assms by (auto simp: table_within_def ml_get_node_update merge_def)

section \<open>Handlers keep the bounds\<close>

lemma updates_of_within:
  assumes "sorts_by ent_transmit_count srt" and "sw_within B sw"
  shows "queue_within B (fst (updates_of srt sw))" and "\<forall>u \<in> set (snd (updates_of srt sw)). update_within B u"
    and "length (snd (updates_of srt sw)) < 2 ^ 16"
  using queue_within_get_updates [OF assms(1)] assms(2) length_get_updates [OF assms(1)]
  by (auto simp: sw_within_def)

lemma direct_ping_within:
  assumes "sorts_by ent_transmit_count srt" and "sw_within B sw" and "direct_ping srt sw target = (sw', sent, seq)"
  shows "sw_within B sw' \<and> sw_incarnation sw' = sw_incarnation sw \<and> sent_within B sent"
  using updates_of_within [OF assms(1,2)] assms(2,3)
  by (auto simp: direct_ping_eq sw_within_def sent_within_def swim_message_fits_def update_within_def)

lemma ping_req_within:
  assumes "sorts_by ent_transmit_count srt" and "sw_within B sw" and "node_id_fits target" and "ping_req srt seq target r sw = (sw', sent)"
  shows "sw_within B sw' \<and> sw_incarnation sw' = sw_incarnation sw \<and> sent_within B sent"
  using updates_of_within [OF assms(1,2)] assms(2-4)
  by (auto simp: ping_req_eq sw_within_def sent_within_def swim_message_fits_def update_within_def)

lemma on_ping_within:
  assumes "sorts_by ent_transmit_count srt" and "sw_within B sw" and "on_ping srt msg sw = (sw', sent)"
  shows "sw_within B sw' \<and> sw_incarnation sw' = sw_incarnation sw \<and> sent_within B sent"
  using updates_of_within [OF assms(1,2)] assms(2,3)
  by (auto simp: on_ping_eq sw_within_def sent_within_def swim_message_fits_def update_within_def)

lemma ping_result_within: "ping_result sw seq = (sw', acked) \<Longrightarrow> sw_within B sw \<Longrightarrow> sw_within B sw' \<and> sw_incarnation sw' = sw_incarnation sw"
  by (auto simp: ping_result_def sw_within_def Let_def)

lemma indirect_ping_within: "indirect_ping shuffle sw = (sw', res) \<Longrightarrow> sw_within B sw \<Longrightarrow> sw_within B sw' \<and> sw_incarnation sw' = sw_incarnation sw"
  by (auto simp: indirect_ping_def next_seq_def sw_within_def Let_def split: if_splits)

lemma relay_timeout_within:
  "relay_timeout rl sw = (sw', sent, again) \<Longrightarrow> sw_within B sw \<Longrightarrow>
   sw_within B sw' \<and> sw_incarnation sw' = sw_incarnation sw \<and> sent_within B sent"
  by (auto simp: relay_timeout_def sw_within_def sent_within_def swim_message_fits_def split: if_splits)

lemma relay_done_within: "sw_within B sw \<Longrightarrow> sw_within B (relay_done rl sw)"
  by (simp add: relay_done_def sw_within_def)

lemma on_ping_req_within:
  "on_ping_req msg sw = (sw', sent, rls) \<Longrightarrow> sw_within B sw \<Longrightarrow>
   sw_within B sw' \<and> sw_incarnation sw' = sw_incarnation sw \<and> sent_within B sent"
  by (auto simp: on_ping_req_def relay_ping_def next_seq_def sw_within_def sent_within_def swim_message_fits_def Let_def split: option.splits)

lemma on_ack_within:
  "on_ack now msg sw = (sw', calls) \<Longrightarrow> sw_within B sw \<Longrightarrow>
   sw_within B sw' \<and> sw_incarnation sw' = sw_incarnation sw \<and> sw_self sw' = sw_self sw"
  by (auto simp: on_ack_eq sw_within_def split: option.splits)

text \<open>A state report of this node about a member, with the incarnation it knows.\<close>

lemma report_within:
  assumes "sw_within B sw" and "ml_get_node (sw_members sw) n = Some info \<or> inc \<le> B n \<and> node_id_fits n" and "inc \<le> B n"
    and "ml_update_state (sw_members sw) n st inc now = (ml, calls, b)"
    and "d = (if b then enqueue (sw_disseminator sw) \<lparr>upd_type = ty, upd_node = n, upd_incarnation = inc, upd_data_port = 0\<rparr> else sw_disseminator sw)"
  shows "sw_within B (sw\<lparr>sw_members := ml, sw_disseminator := d\<rparr>)"
proof -
  have "table_within B ml" using table_within_update [of B "sw_members sw" inc n st now] assms by (simp add: sw_within_def)
  moreover have "node_id_fits n" using assms(1,2) by (auto simp: sw_within_def table_within_def)
  ultimately show ?thesis using assms(1,3,5) by (auto simp: sw_within_def update_within_def intro!: queue_within_enqueue)
qed

lemma suspect_target_within:
  assumes "suspect_target sw target now = (sw', calls)" and "sw_within B sw"
  shows "sw_within B sw' \<and> sw_incarnation sw' = sw_incarnation sw"
proof (cases "ml_get_node (sw_members sw) target")
  case None
  then show ?thesis using assms by (simp add: suspect_target_def)
next
  case (Some info)
  obtain ml c b where u: "ml_update_state (sw_members sw) target Suspect (info_incarnation info) now = (ml, c, b)" by (metis surj_pair)
  have "info_incarnation info \<le> B target" using assms(2) Some by (auto simp: sw_within_def table_within_def)
  then show ?thesis using report_within [OF assms(2) _ _ u refl] Some u assms(1) by (auto simp: suspect_target_def)
qed

lemma reap_within:
  assumes "\<forall>e \<in> set nodes. info_incarnation (snd e) \<le> B (fst e) \<and> node_id_fits (fst e)"
    and "reap now nodes sw = (sw', calls)" and "sw_within B sw"
  shows "sw_within B sw' \<and> sw_incarnation sw' = sw_incarnation sw"
  using assms
proof (induction nodes arbitrary: sw calls)
  case (Cons e nodes)
  obtain n info where e: "e = (n, info)" by fastforce
  obtain ml c b where u: "ml_update_state (sw_members sw) n Dead (info_incarnation info) now = (ml, c, b)" by (metis surj_pair)
  define d where "d = (if b then enqueue (sw_disseminator sw) \<lparr>upd_type = Update_Dead, upd_node = n,
    upd_incarnation = info_incarnation info, upd_data_port = 0\<rparr> else sw_disseminator sw)"
  have inc: "info_incarnation info \<le> B n" "node_id_fits n" using Cons.prems(1) e by simp_all
  have w: "sw_within B (sw\<lparr>sw_members := ml, sw_disseminator := d\<rparr>)"
    using report_within [OF Cons.prems(3) _ inc(1) u d_def] inc by simp
  consider c' where "reap now nodes (sw\<lparr>sw_members := ml, sw_disseminator := d\<rparr>) = (sw', c')" | c' where "reap now nodes sw = (sw', c')"
    using Cons.prems(2) e u by (auto simp: d_def Let_def split: if_splits prod.splits)
  then show ?case
  proof cases
    case 1
    show ?thesis using Cons.IH [OF _ 1 w] Cons.prems(1) by simp
  next
    case 2
    show ?thesis using Cons.IH [OF _ 2 Cons.prems(3)] Cons.prems(1) by simp
  qed
qed simp

lemma suspicion_reaper_within:
  assumes "suspicion_reaper now sw = (sw', calls)" and "sw_within B sw" and "sw_ok sw"
  shows "sw_within B sw' \<and> sw_incarnation sw' = sw_incarnation sw"
proof (rule reap_within [where nodes = "ml_nodes (sw_members sw)" and now = now])
  have um: "um_ok (ml_nodes (sw_members sw))" using assms(3) by (simp add: sw_ok_def ml_ok_def)
  show "\<forall>e \<in> set (ml_nodes (sw_members sw)). info_incarnation (snd e) \<le> B (fst e) \<and> node_id_fits (fst e)"
  proof
    fix e assume "e \<in> set (ml_nodes (sw_members sw))"
    then have "ml_get_node (sw_members sw) (fst e) = Some (snd e)" using um_find_mem [OF um, of "fst e" "snd e"] by (simp add: ml_get_node_def)
    then show "info_incarnation (snd e) \<le> B (fst e) \<and> node_id_fits (fst e)" using assms(2) by (simp add: sw_within_def table_within_def)
  qed
qed (use assms in \<open>simp_all add: suspicion_reaper_def\<close>)

text \<open>What a node spreads about itself after a refutation is the update queued for it.\<close>

definition alive_news :: "swim_protocol \<Rightarrow> membership_update" where
  "alive_news sw = \<lparr>upd_type = Update_Alive, upd_node = sw_self sw, upd_incarnation = sw_incarnation sw,
     upd_data_port = sc_self_data_port (sw_config sw)\<rparr>"

definition spreads_news :: "swim_protocol \<Rightarrow> bool" where
  "spreads_news sw \<longleftrightarrow> map_option ent_update (queued (sw_disseminator sw) (sw_self sw)) = Some (alive_news sw)"

lemma queued_within: "queue_within B d \<Longrightarrow> queued d n = Some e \<Longrightarrow> upd_incarnation (ent_update e) \<le> B n \<and> upd_node (ent_update e) = n"
  by (auto simp: queue_within_def queued_def update_within_def find_Some_iff)

lemma enqueue_newer:
  assumes "queue_within B d" and "B (upd_node u) < upd_incarnation u"
  shows "map_option ent_update (queued (enqueue d u) (upd_node u)) = Some u"
  using assms queued_within [OF assms(1), of "upd_node u"]
  by (auto simp: queued_enqueue update_supersedes_def split: option.splits dest: order.strict_trans1)

text \<open>
  A suspicion of this node raises its incarnation by one; the bound of this node rises with it, and the
  news is queued.
\<close>

lemma apply_update_refute:
  assumes ap: "apply_updates now (u # us) sw = (sw', calls)"
    and self: "upd_node u = sw_self sw \<and> (upd_type u = Update_Suspect \<or> upd_type u = Update_Dead)"
    and w: "sw_within B sw" and lim: "unat (sw_incarnation sw) + length (u # us) < 2 ^ 64"
  obtains sw1 c where "apply_updates now us sw1 = (sw', c)" and "sw_within (B(sw_self sw := sw_incarnation sw + 1)) sw1"
    and "sw_self sw1 = sw_self sw" and "sw_incarnation sw1 = sw_incarnation sw + 1" and "spreads_news sw1"
    and "B \<le> B(sw_self sw := sw_incarnation sw + 1)" and "unat (sw_incarnation sw + 1) = unat (sw_incarnation sw) + 1"
    and "sw_incarnation sw < sw_incarnation sw + 1"
proof -
  let ?B = "B(sw_self sw := sw_incarnation sw + 1)"
  obtain ml c b where up: "ml_update_state (sw_members sw) (sw_self sw) Alive (sw_incarnation sw + 1) now = (ml, c, b)" by (metis surj_pair)
  define sw1 where "sw1 = sw\<lparr>sw_incarnation := sw_incarnation sw + 1, sw_disseminator := enqueue (sw_disseminator sw)
      \<lparr>upd_type = Update_Alive, upd_node = sw_self sw, upd_incarnation = sw_incarnation sw + 1, upd_data_port = sc_self_data_port (sw_config sw)\<rparr>,
      sw_members := ml\<rparr>"
  obtain c' where ap': "apply_updates now us sw1 = (sw', c')"
    using ap self up by (auto simp: sw1_def Let_def split: prod.splits)
  have un: "unat (sw_incarnation sw + 1) = unat (sw_incarnation sw) + 1" using lim by (simp add: unat_word_ariths)
  then have less: "sw_incarnation sw < sw_incarnation sw + 1" by (simp add: word_less_nat_alt)
  then have mono: "B \<le> ?B" using w by (simp add: sw_within_def le_fun_def)
  have t: "table_within ?B (sw_members sw)" and q: "queue_within ?B (sw_disseminator sw)"
    using table_within_mono [OF _ mono] queue_within_mono [OF _ mono] w by (simp_all add: sw_within_def)
  have "table_within ?B ml" using table_within_update [OF t, of "sw_incarnation sw + 1" "sw_self sw" Alive now] up by simp
  moreover have "queue_within ?B (sw_disseminator sw1)"
    using queue_within_enqueue [OF q, of "alive_news sw1"] w by (simp add: update_within_def sw_within_def alive_news_def sw1_def)
  ultimately have "sw_within ?B sw1" using w by (simp add: sw_within_def sw1_def)
  moreover have "spreads_news sw1"
    using w less enqueue_newer [of B "sw_disseminator sw" "alive_news sw1"] by (simp add: spreads_news_def alive_news_def sw_within_def sw1_def)
  ultimately show thesis using that [OF ap'] mono un less by (simp add: sw1_def del: fun_upd_apply)
qed

text \<open>An update that is not a suspicion of this node changes at most the table.\<close>

lemma apply_update_other:
  assumes "apply_updates now (u # us) sw = (sw', calls)"
    and "\<not> (upd_node u = sw_self sw \<and> (upd_type u = Update_Suspect \<or> upd_type u = Update_Dead))"
    and u: "update_within B u" and w: "sw_within B sw"
  obtains ml c where "apply_updates now us (sw\<lparr>sw_members := ml\<rparr>) = (sw', c)" and "sw_within B (sw\<lparr>sw_members := ml\<rparr>)"
proof (cases "upd_node u = sw_self sw")
  case True
  then have "apply_updates now us (sw\<lparr>sw_members := sw_members sw\<rparr>) = (sw', calls)" using assms by auto
  then show thesis by (rule that) (use w in simp)
next
  case other: False
  let ?info = "(default_node_info (upd_node u) now)\<lparr>info_state := Alive, info_incarnation := upd_incarnation u, info_data_port := upd_data_port u\<rparr>"
  let ?st = "case upd_type u of Update_Suspect \<Rightarrow> Suspect | Update_Dead \<Rightarrow> Dead | Update_Leave \<Rightarrow> Left | _ \<Rightarrow> Alive"
  obtain ml c ok where op: "(if upd_type u = Update_Join \<or> upd_type u = Update_Alive then ml_add_node (sw_members sw) ?info
      else ml_update_state (sw_members sw) (upd_node u) ?st (upd_incarnation u) now) = (ml, c, ok)" by (metis surj_pair)
  obtain c' where ap: "apply_updates now us (sw\<lparr>sw_members := ml\<rparr>) = (sw', c')"
    using assms(1) other op by (auto split: prod.splits)
  have "table_within B ml"
    using u w table_within_add [of B "sw_members sw" ?info] table_within_update [of B "sw_members sw" "upd_incarnation u" "upd_node u" ?st now] op
    by (cases "upd_type u = Update_Join \<or> upd_type u = Update_Alive") (simp_all add: default_node_info_def update_within_def sw_within_def)
  then have "sw_within B (sw\<lparr>sw_members := ml\<rparr>)" using w by (simp add: sw_within_def)
  with ap show thesis by (rule that)
qed

lemma apply_updates_within:
  assumes "\<forall>u \<in> set us. update_within B u" and "apply_updates now us sw = (sw', calls)" and "sw_within B sw"
    and "unat (sw_incarnation sw) + length us < 2 ^ 64"
  shows "sw_within (B(sw_self sw := sw_incarnation sw')) sw' \<and> sw_incarnation sw \<le> sw_incarnation sw' \<and>
    unat (sw_incarnation sw') \<le> unat (sw_incarnation sw) + length us \<and> sw_self sw' = sw_self sw"
  using assms
proof (induction us arbitrary: B sw calls)
  case Nil
  then have "B(sw_self sw := sw_incarnation sw) = B" by (simp add: sw_within_def fun_upd_idem)
  then show ?case using Nil by simp
next
  case (Cons u us)
  have skip: ?case if "apply_updates now us sw1 = (sw', c)" "sw_within B sw1" "sw_self sw1 = sw_self sw" "sw_incarnation sw1 = sw_incarnation sw" for sw1 c
    using Cons.IH [OF _ that(1,2)] Cons.prems that(3,4) by simp
  show ?case
  proof (cases "upd_node u = sw_self sw \<and> (upd_type u = Update_Suspect \<or> upd_type u = Update_Dead)")
    case True
    obtain sw1 c where ap: "apply_updates now us sw1 = (sw', c)" and w: "sw_within (B(sw_self sw := sw_incarnation sw + 1)) sw1"
      and keep: "sw_self sw1 = sw_self sw" "sw_incarnation sw1 = sw_incarnation sw + 1" and news: "spreads_news sw1"
      and mono: "B \<le> B(sw_self sw := sw_incarnation sw + 1)" and un: "unat (sw_incarnation sw + 1) = unat (sw_incarnation sw) + 1"
      and less: "sw_incarnation sw < sw_incarnation sw + 1"
      by (rule apply_update_refute [OF Cons.prems(2) True Cons.prems(3,4)])
    have us: "\<forall>u \<in> set us. update_within (B(sw_self sw := sw_incarnation sw + 1)) u"
      using Cons.prems(1) update_within_mono [OF _ mono] by simp
    show ?thesis using Cons.IH [OF us ap w, unfolded keep fun_upd_upd] un less Cons.prems(4) by (auto simp del: fun_upd_apply)
  next
    case False
    obtain ml c' where ap: "apply_updates now us (sw\<lparr>sw_members := ml\<rparr>) = (sw', c')" and w: "sw_within B (sw\<lparr>sw_members := ml\<rparr>)"
      by (rule apply_update_other [OF Cons.prems(2) False _ Cons.prems(3)]) (use Cons.prems(1) in simp)
    then show ?thesis using skip [OF ap w] by simp
  qed
qed

lemma learn_sender_within:
  assumes "learn_sender now msg sw = (sw', calls)" and "sw_within B sw" and "node_id_fits (msg_sender msg)"
  shows "sw_within B sw' \<and> sw_incarnation sw' = sw_incarnation sw \<and> sw_self sw' = sw_self sw"
proof (cases "msg_sender msg \<noteq> sw_self sw \<and> ml_get_node (sw_members sw) (msg_sender msg) = None")
  case True
  let ?p = "sender_port (msg_sender msg) (msg_updates msg)"
  let ?info = "(default_node_info (msg_sender msg) now)\<lparr>info_data_port := ?p, info_state := Alive\<rparr>"
  let ?u = "\<lparr>upd_type = Update_Join, upd_node = msg_sender msg, upd_incarnation = 0, upd_data_port = ?p\<rparr>"
  obtain ml c ok where ad: "ml_add_node (sw_members sw) ?info = (ml, c, ok)" by (metis surj_pair)
  have "table_within B ml" using table_within_add [of B "sw_members sw" ?info] ad assms(2,3) by (simp add: sw_within_def default_node_info_def)
  moreover have "queue_within B (enqueue (sw_disseminator sw) ?u)"
    using queue_within_enqueue [of B "sw_disseminator sw" ?u] assms(2,3) by (simp add: sw_within_def update_within_def)
  moreover have "sw' = sw\<lparr>sw_members := ml, sw_disseminator := enqueue (sw_disseminator sw) ?u\<rparr>"
    using assms(1) True ad by (auto simp: learn_sender_def Let_def)
  ultimately show ?thesis using assms(2) by (simp add: sw_within_def)
next
  case False
  then have "sw' = sw" using assms(1) by (simp only: learn_sender_def if_False prod.inject)
  then show ?thesis using assms(2) by simp
qed

lemma handle_message_within:
  assumes srt: "sorts_by ent_transmit_count srt" and w: "sw_within B sw" and fits: "swim_message_fits msg"
    and us: "\<forall>u \<in> set (msg_updates msg). update_within B u" and lim: "unat (sw_incarnation sw) + length (msg_updates msg) < 2 ^ 64"
    and h: "handle_message srt now msg sw = (sw', sent, calls, rls)"
  shows "sw_within (B(sw_self sw := sw_incarnation sw')) sw' \<and> sw_incarnation sw \<le> sw_incarnation sw' \<and>
    unat (sw_incarnation sw') \<le> unat (sw_incarnation sw) + length (msg_updates msg) \<and> sw_self sw' = sw_self sw \<and>
    sent_within (B(sw_self sw := sw_incarnation sw')) sent"
proof -
  obtain sw1 c1 where l: "learn_sender now msg sw = (sw1, c1)" by fastforce
  obtain sw2 c2 where a: "apply_updates now (msg_updates msg) sw1 = (sw2, c2)" by fastforce
  have w1: "sw_within B sw1" "sw_incarnation sw1 = sw_incarnation sw" "sw_self sw1 = sw_self sw"
    using learn_sender_within [OF l w] fits by (simp_all add: swim_message_fits_def)
  let ?B = "B(sw_self sw := sw_incarnation sw2)"
  have w2: "sw_within ?B sw2" "sw_incarnation sw \<le> sw_incarnation sw2" "sw_self sw2 = sw_self sw"
    "unat (sw_incarnation sw2) \<le> unat (sw_incarnation sw) + length (msg_updates msg)"
    using apply_updates_within [OF us a w1(1)] lim w1(2,3) by (simp_all del: fun_upd_apply)
  have "sw_within ?B sw' \<and> sw_incarnation sw' = sw_incarnation sw2 \<and> sent_within ?B sent \<and> sw_self sw' = sw_self sw2"
  proof (cases "msg_type msg")
    case Ping
    then have o: "on_ping srt msg sw2 = (sw', sent)" using h l a by (auto simp: handle_message_def split: prod.splits)
    then show ?thesis using on_ping_within [OF srt w2(1) o] by (auto simp: on_ping_eq simp del: fun_upd_apply)
  next
    case Ack
    then have o: "on_ack now msg sw2 = (sw', [])" and "sent = []" using h l a by (auto simp: handle_message_def on_ack_eq split: prod.splits)
    then show ?thesis using on_ack_within [OF o w2(1)] by (simp add: sent_within_def del: fun_upd_apply)
  next
    case PingReq
    then have o: "on_ping_req msg sw2 = (sw', sent, rls)" using h l a by (auto simp: handle_message_def split: prod.splits)
    then show ?thesis using on_ping_req_within [OF o w2(1)] on_ping_req_run [OF o] by (simp add: sw_run_def del: fun_upd_apply)
  qed
  then show ?thesis using w2 by (simp del: fun_upd_apply)
qed

section \<open>Steps keep the bounds\<close>

definition node_within :: "(node_id \<Rightarrow> u64) \<Rightarrow> server_node \<Rightarrow> bool" where
  "node_within B nd \<longleftrightarrow> sw_within B (nd_swim nd) \<and> pred_option node_id_fits (probe_target (nd_probe nd))"

lemma sent_within_Nil [simp]: "sent_within B []"
  by (simp add: sent_within_def)

lemma node_step_self: "node_step nd inp sent nd' \<Longrightarrow> node_ok nd \<Longrightarrow> sw_self (nd_swim nd') = sw_self (nd_swim nd)"
  using node_step_run [of nd inp sent nd'] by (auto simp: node_ok_def sw_run_def)

lemma silent_step_within:
  assumes st: "node_step nd None sent nd'" and ok: "node_ok nd" and w: "node_within B nd"
  shows "node_within B nd' \<and> sw_incarnation (nd_swim nd') = sw_incarnation (nd_swim nd) \<and> sent_within B sent"
proof -
  have sw: "sw_within B (nd_swim nd)" and tgt: "pred_option node_id_fits (probe_target (nd_probe nd))"
    using w by (simp_all add: node_within_def)
  from st show ?thesis
  proof cases
    case (probe_direct draw target srt sw seq)
    have "\<exists>info. ml_get_node (sw_members (nd_swim nd)) target = Some info"
      using random_peer_alive [OF probe_direct(5) _ probe_direct(4)] ok by (auto simp: node_ok_def sw_ok_def)
    then have "node_id_fits target" using sw by (auto simp: sw_within_def table_within_def)
    then show ?thesis using direct_ping_within [OF probe_direct(6) sw probe_direct(7)] probe_direct(1) by (simp add: node_within_def)
  next
    case (probe_acked target seq sw)
    then show ?thesis using ping_result_within [OF probe_acked(4) sw] by (simp add: node_within_def)
  next
    case (probe_alone target seq sw1 shuffle sw2 now sw calls)
    have r: "sw_within B sw1 \<and> sw_incarnation sw1 = sw_incarnation (nd_swim nd)" by (rule ping_result_within [OF probe_alone(4) sw])
    have i: "sw_within B sw2 \<and> sw_incarnation sw2 = sw_incarnation sw1" using indirect_ping_within [OF probe_alone(5)] r by blast
    show ?thesis using suspect_target_within [OF probe_alone(6) conjunct1 [OF i]] i r probe_alone(1,2) by (simp add: node_within_def)
  next
    case (probe_indirect target seq sw1 shuffle sw2 seq' r rs srt sw)
    have r: "sw_within B sw1 \<and> sw_incarnation sw1 = sw_incarnation (nd_swim nd)" by (rule ping_result_within [OF probe_indirect(3) sw])
    have i: "sw_within B sw2 \<and> sw_incarnation sw2 = sw_incarnation sw1" using indirect_ping_within [OF probe_indirect(5)] r by blast
    have "node_id_fits target" using tgt probe_indirect(2) by simp
    then show ?thesis using ping_req_within [OF probe_indirect(6) conjunct1 [OF i] _ probe_indirect(7)] r i probe_indirect(1) by (simp add: node_within_def)
  next
    case (probe_request target seq r rs srt sw)
    then show ?thesis using ping_req_within [OF probe_request(3) sw _ probe_request(4)] tgt by (simp add: node_within_def)
  next
    case (probe_relayed target seq sw)
    then show ?thesis using ping_result_within [OF probe_relayed(4) sw] by (simp add: node_within_def)
  next
    case (probe_failed target seq sw1 now sw calls)
    have r: "sw_within B sw1 \<and> sw_incarnation sw1 = sw_incarnation (nd_swim nd)" by (rule ping_result_within [OF probe_failed(4) sw])
    show ?thesis using suspect_target_within [OF probe_failed(5) conjunct1 [OF r]] r probe_failed(1,2) by (simp add: node_within_def)
  next
    case (reaper now sw calls)
    then show ?thesis using suspicion_reaper_within [OF reaper(5) sw] w ok by (simp add: node_within_def node_ok_def)
  next
    case (relay_timed_out rl sw again)
    then show ?thesis using relay_timeout_within [OF relay_timed_out(3) sw] w by (simp add: node_within_def)
  next
    case (relay_acked rl)
    then show ?thesis using relay_done_within [of B "nd_swim nd" rl] w by (simp add: node_within_def relay_done_def)
  next
    case stop
    then show ?thesis using w by (simp add: node_within_def swim_stop_def sw_within_def)
  qed (use w in \<open>auto simp: node_within_def\<close>)
qed

lemma receive_step_within:
  assumes st: "node_step nd (Some bs) sent nd'" and w: "node_within B nd"
    and us: "\<And>msg. swim_deserialize bs = Some msg \<Longrightarrow> \<forall>u \<in> set (msg_updates msg). update_within B u"
    and lim: "unat (sw_incarnation (nd_swim nd)) + 65535 < 2 ^ 64"
  shows "node_within (B(sw_self (nd_swim nd) := sw_incarnation (nd_swim nd'))) nd' \<and>
    sent_within (B(sw_self (nd_swim nd) := sw_incarnation (nd_swim nd'))) sent \<and>
    sw_incarnation (nd_swim nd) \<le> sw_incarnation (nd_swim nd') \<and>
    unat (sw_incarnation (nd_swim nd')) \<le> unat (sw_incarnation (nd_swim nd)) + 65535"
  using st
proof cases
  case (datagram msg srt now sw calls rls)
  have fits: "swim_message_fits msg" using swim_deserialize_sound [OF datagram(3)] by blast
  then have "length (msg_updates msg) \<le> 65535" by (simp add: swim_message_fits_def)
  moreover have "sw_within B (nd_swim nd)" using w by (simp add: node_within_def)
  moreover from calculation(1) lim have "unat (sw_incarnation (nd_swim nd)) + length (msg_updates msg) < 2 ^ 64" by linarith
  ultimately show ?thesis
    using handle_message_within [OF datagram(4) _ fits us [OF datagram(3)] _ datagram(5)] w datagram(1) by (simp add: node_within_def del: fun_upd_apply)
next
  case no_message
  moreover have "B(sw_self (nd_swim nd) := sw_incarnation (nd_swim nd)) = B" using w by (simp add: node_within_def sw_within_def fun_upd_idem)
  ultimately show ?thesis using w by (simp add: node_within_def del: fun_upd_apply)
qed

section \<open>The invariant of a cluster\<close>

definition network_within :: "(node_id \<Rightarrow> u64) \<Rightarrow> (node_id \<times> bytes) set \<Rightarrow> bool" where
  "network_within B net \<longleftrightarrow>
     (\<forall>(dest, bs) \<in> net. \<forall>msg. swim_deserialize bs = Some msg \<longrightarrow> (\<forall>u \<in> set (msg_updates msg). update_within B u))"

definition cluster_ok :: "nat \<Rightarrow> cluster \<Rightarrow> bool" where
  "cluster_ok k c \<longleftrightarrow> network_within (own_incarnation c) (cl_network c) \<and>
     (\<forall>p nd. cl_nodes c p = Some nd \<longrightarrow> node_ok nd \<and> sw_self (nd_swim nd) = p \<and> node_within (own_incarnation c) nd \<and>
        unat (sw_incarnation (nd_swim nd)) \<le> 65535 * k)"

lemma network_within_mono: "network_within B net \<Longrightarrow> B \<le> B' \<Longrightarrow> network_within B' net"
  unfolding network_within_def by (blast intro: update_within_mono)

lemma node_within_mono: "node_within B nd \<Longrightarrow> B \<le> B' \<Longrightarrow> B' (sw_self (nd_swim nd)) = B (sw_self (nd_swim nd)) \<Longrightarrow> node_within B' nd"
  by (auto simp: node_within_def sw_within_def intro: table_within_mono queue_within_mono)

lemma network_within_transmit:
  assumes "network_within B net" and "sent_within B sent"
  shows "network_within B (net \<union> (\<lambda>(dest, msg). (dest, swim_serialize msg)) ` set sent)"
proof -
  have "\<forall>u \<in> set (msg_updates msg'). update_within B u"
    if "(dest, msg) \<in> set sent" "swim_deserialize (swim_serialize msg) = Some msg'" for dest msg msg'
  proof -
    have "swim_message_fits msg" "\<forall>u \<in> set (msg_updates msg). update_within B u" using assms(2) that(1) by (auto simp: sent_within_def)
    then show ?thesis using swim_deserialize_complete [of msg "[]"] that(2) by simp
  qed
  then show ?thesis using assms(1) unfolding network_within_def by fastforce
qed

lemma own_with_node [simp]: "own_incarnation (with_node p nd c) = (own_incarnation c)(p := sw_incarnation (nd_swim nd))"
  by (simp add: own_incarnation_def with_node_def fun_eq_iff)

lemma own_transmit [simp]: "own_incarnation (transmit sent c) = own_incarnation c"
  by (simp add: own_incarnation_def transmit_def fun_eq_iff)

text \<open>A node goes from \<open>nd\<close> to \<open>nd'\<close> and sends messages; the others stay.\<close>

lemma cluster_ok_step:
  assumes c: "cluster_ok k c" and p: "cl_nodes c p = Some nd"
    and nd': "node_ok nd'" "sw_self (nd_swim nd') = p" "unat (sw_incarnation (nd_swim nd')) \<le> 65535 * k'" "k \<le> k'"
    and w: "node_within ((own_incarnation c)(p := sw_incarnation (nd_swim nd'))) nd'"
    and s: "sent_within ((own_incarnation c)(p := sw_incarnation (nd_swim nd'))) sent"
    and inc: "sw_incarnation (nd_swim nd) \<le> sw_incarnation (nd_swim nd')"
  shows "cluster_ok k' (transmit sent (with_node p nd' c))"
proof -
  let ?B = "(own_incarnation c)(p := sw_incarnation (nd_swim nd'))"
  have mono: "own_incarnation c \<le> ?B" using inc p by (simp add: le_fun_def own_incarnation_def)
  have "network_within ?B (cl_network (transmit sent (with_node p nd' c)))"
    using network_within_transmit [OF network_within_mono [OF _ mono] s] c by (simp add: cluster_ok_def transmit_def with_node_def del: fun_upd_apply)
  moreover have "node_ok x \<and> sw_self (nd_swim x) = q \<and> node_within ?B x \<and> unat (sw_incarnation (nd_swim x)) \<le> 65535 * k'"
    if "cl_nodes (transmit sent (with_node p nd' c)) q = Some x" for q x
  proof (cases "q = p")
    case True
    then show ?thesis using that nd' w by (simp add: transmit_def with_node_def del: fun_upd_apply) (simp del: fun_upd_apply add: fun_upd_same)
  next
    case False
    then have "cl_nodes c q = Some x" using that by (simp add: transmit_def with_node_def)
    then have x: "node_ok x" "sw_self (nd_swim x) = q" "node_within (own_incarnation c) x" "unat (sw_incarnation (nd_swim x)) \<le> 65535 * k"
      using c by (simp_all add: cluster_ok_def)
    have "node_within ?B x" by (rule node_within_mono [OF x(3) mono]) (use x(2) False in simp)
    then show ?thesis using x nd'(4) by simp
  qed
  ultimately show ?thesis by (simp add: cluster_ok_def del: fun_upd_apply)
qed

lemma start_within:
  assumes "node_id_fits self" and "pred_option (\<lambda>(seed_id, _). node_id_fits seed_id) seed" and "B self = 0"
  shows "node_within B (start_node self data_port seed now)" and "sw_incarnation (nd_swim (start_node self data_port seed now)) = 0"
    and "sw_self (nd_swim (start_node self data_port seed now)) = self"
proof -
  let ?nd = "start_node self data_port seed now"
  let ?i = "\<lambda>nid port. (default_node_info nid now)\<lparr>info_data_port := port, info_state := Alive\<rparr>"
  define ml1 where "ml1 = fst (ml_add_node (set_on_change new_member_list True) (?i self data_port))"
  have "table_within B (set_on_change new_member_list True)"
    by (simp add: table_within_def ml_get_node_def set_on_change_def new_member_list_def)
  then have t1: "table_within B ml1" unfolding ml1_def by (rule table_within_add) (simp_all add: assms default_node_info_def)
  have "sw_members (nd_swim ?nd) = (case seed of None \<Rightarrow> ml1 | Some (seed_id, port) \<Rightarrow> fst (ml_add_node ml1 (?i seed_id port)))"
    by (cases seed) (auto simp: start_node_def swim_run_def new_swim_protocol_def ml1_def Let_def split: prod.splits)
  moreover have "table_within B (fst (ml_add_node ml1 (?i seed_id port)))" if "node_id_fits seed_id" for seed_id port
    by (rule table_within_add [OF t1]) (simp_all add: that default_node_info_def)
  ultimately have "table_within B (sw_members (nd_swim ?nd))" using t1 assms(2) by (cases seed) (auto split: prod.splits)
  moreover have "queue_within B (sw_disseminator (nd_swim ?nd))"
    using assms(1) by (simp add: start_node_def swim_run_def new_swim_protocol_def queue_within_def update_within_def enqueue_def
      new_disseminator_def Let_def split: prod.splits)
  moreover show "sw_incarnation (nd_swim ?nd) = 0" "sw_self (nd_swim ?nd) = self"
    by (simp_all add: start_node_def swim_run_def new_swim_protocol_def Let_def split: prod.splits)
  moreover have "sc_max_piggyback_updates (sw_config (nd_swim ?nd)) = 8" "nd_probe ?nd = Probe_Waiting"
    by (simp_all add: start_node_def swim_run_def new_swim_protocol_def default_swim_config_def Let_def split: prod.splits)
  ultimately show "node_within B ?nd" using assms by (simp add: node_within_def sw_within_def)
qed

lemma cluster_ok_run: "cluster_run k c \<Longrightarrow> k \<le> 2 ^ 48 \<Longrightarrow> cluster_ok k c"
proof (induction rule: cluster_run.induct)
  case empty
  then show ?case by (simp add: cluster_ok_def network_within_def)
next
  case (boot k c self seed data_port now)
  let ?nd = "start_node self data_port seed now"
  have c: "cluster_ok k c" using boot by simp
  have z: "own_incarnation c self = 0" using boot.hyps(2) by (simp add: own_incarnation_def)
  have st: "node_within (own_incarnation c) ?nd" "sw_incarnation (nd_swim ?nd) = 0" "sw_self (nd_swim ?nd) = self"
    using start_within [where B = "own_incarnation c", OF boot.hyps(3,4)] z by blast+
  have "(own_incarnation c)(self := 0) = own_incarnation c" using z by (simp add: fun_upd_idem)
  then have own: "own_incarnation (with_node self ?nd c) = own_incarnation c" by (simp add: st(2) del: fun_upd_apply)
  have "node_ok x \<and> sw_self (nd_swim x) = q \<and> node_within (own_incarnation c) x \<and> unat (sw_incarnation (nd_swim x)) \<le> 65535 * k"
    if "cl_nodes (with_node self ?nd c) q = Some x" for q x
  proof (cases "q = self")
    case True
    then have "x = ?nd" using that by (simp add: with_node_def)
    then show ?thesis using st True node_ok_start by simp
  next
    case False
    then show ?thesis using that c by (simp add: with_node_def cluster_ok_def)
  qed
  then show ?case unfolding cluster_ok_def own using c by (simp add: cluster_ok_def) (simp add: with_node_def)
next
  case (work k c p nd sent nd')
  have c: "cluster_ok k c" using work by simp
  then have nd: "node_ok nd" "sw_self (nd_swim nd) = p" "node_within (own_incarnation c) nd" "unat (sw_incarnation (nd_swim nd)) \<le> 65535 * k"
    using work.hyps(2) by (simp_all add: cluster_ok_def)
  note w = silent_step_within [OF work.hyps(3) nd(1,3)]
  have "(own_incarnation c)(p := sw_incarnation (nd_swim nd')) = own_incarnation c"
    using w work.hyps(2) by (simp add: own_incarnation_def fun_upd_idem)
  then show ?case
    using cluster_ok_step [OF c work.hyps(2) node_ok_step [OF work.hyps(3) nd(1)], of k sent] w nd node_step_self [OF work.hyps(3) nd(1)]
    by (simp del: fun_upd_apply)
next
  case (deliver k c p nd bs sent nd')
  have c: "cluster_ok k c" using deliver by simp
  then have nd: "node_ok nd" "sw_self (nd_swim nd) = p" "node_within (own_incarnation c) nd" "unat (sw_incarnation (nd_swim nd)) \<le> 65535 * k"
    using deliver.hyps(2) by (simp_all add: cluster_ok_def)
  have "\<forall>u \<in> set (msg_updates msg). update_within (own_incarnation c) u" if "swim_deserialize bs = Some msg" for msg
    using c deliver.hyps(3) that by (auto simp: cluster_ok_def network_within_def)
  moreover have "unat (sw_incarnation (nd_swim nd)) + 65535 < 2 ^ 64" using nd(4) deliver.prems by simp
  ultimately show ?case
    using cluster_ok_step [OF c deliver.hyps(2) node_ok_step [OF deliver.hyps(4) nd(1)], of "Suc k" sent]
      receive_step_within [OF deliver.hyps(4) nd(3)] nd node_step_self [OF deliver.hyps(4) nd(1)]
    by (simp del: fun_upd_apply)
qed

section \<open>News about oneself\<close>

lemma apply_updates_news:
  assumes "\<forall>u \<in> set us. update_within B u" and "apply_updates now us sw = (sw', calls)" and "sw_within B sw"
    and "unat (sw_incarnation sw) + length us < 2 ^ 64"
    and "spreads_news sw \<or> (\<exists>u \<in> set us. upd_node u = sw_self sw \<and> upd_type u \<in> {Update_Suspect, Update_Dead})"
  shows "spreads_news sw'"
  using assms
proof (induction us arbitrary: B sw calls)
  case (Cons u us)
  show ?case
  proof (cases "upd_node u = sw_self sw \<and> (upd_type u = Update_Suspect \<or> upd_type u = Update_Dead)")
    case True
    obtain sw1 c where ap: "apply_updates now us sw1 = (sw', c)" and w: "sw_within (B(sw_self sw := sw_incarnation sw + 1)) sw1"
      and keep: "sw_self sw1 = sw_self sw" "sw_incarnation sw1 = sw_incarnation sw + 1" and news: "spreads_news sw1"
      and mono: "B \<le> B(sw_self sw := sw_incarnation sw + 1)" and un: "unat (sw_incarnation sw + 1) = unat (sw_incarnation sw) + 1"
      and less: "sw_incarnation sw < sw_incarnation sw + 1"
      by (rule apply_update_refute [OF Cons.prems(2) True Cons.prems(3,4)])
    have us: "\<forall>u \<in> set us. update_within (B(sw_self sw := sw_incarnation sw + 1)) u"
      using Cons.prems(1) update_within_mono [OF _ mono] by simp
    show ?thesis by (rule Cons.IH [OF us ap w]) (use news un Cons.prems(4) in \<open>simp_all add: keep\<close>)
  next
    case False
    obtain ml c' where ap: "apply_updates now us (sw\<lparr>sw_members := ml\<rparr>) = (sw', c')" and w: "sw_within B (sw\<lparr>sw_members := ml\<rparr>)"
      by (rule apply_update_other [OF Cons.prems(2) False _ Cons.prems(3)]) (use Cons.prems(1) in simp)
    show ?thesis by (rule Cons.IH [OF _ ap w]) (use Cons.prems False in \<open>auto simp: spreads_news_def alive_news_def\<close>)
  qed
qed simp

lemma apply_updates_raises:
  assumes "\<forall>u \<in> set us. update_within B u" and "apply_updates now us sw = (sw', calls)" and "sw_within B sw"
    and "unat (sw_incarnation sw) + length us < 2 ^ 64"
    and "\<exists>u \<in> set us. upd_node u = sw_self sw \<and> upd_type u \<in> {Update_Suspect, Update_Dead}"
  shows "sw_incarnation sw < sw_incarnation sw'"
  using assms
proof (induction us arbitrary: sw calls)
  case (Cons u us)
  show ?case
  proof (cases "upd_node u = sw_self sw \<and> (upd_type u = Update_Suspect \<or> upd_type u = Update_Dead)")
    case True
    obtain sw1 c where ap: "apply_updates now us sw1 = (sw', c)" and w: "sw_within (B(sw_self sw := sw_incarnation sw + 1)) sw1"
      and keep: "sw_self sw1 = sw_self sw" "sw_incarnation sw1 = sw_incarnation sw + 1" and news: "spreads_news sw1"
      and mono: "B \<le> B(sw_self sw := sw_incarnation sw + 1)" and un: "unat (sw_incarnation sw + 1) = unat (sw_incarnation sw) + 1"
      and less: "sw_incarnation sw < sw_incarnation sw + 1"
      by (rule apply_update_refute [OF Cons.prems(2) True Cons.prems(3,4)])
    have us: "\<forall>u \<in> set us. update_within (B(sw_self sw := sw_incarnation sw + 1)) u"
      using Cons.prems(1) update_within_mono [OF _ mono] by simp
    have "sw_incarnation sw + 1 \<le> sw_incarnation sw'" using apply_updates_within [OF us ap w] un Cons.prems(4) by (simp add: keep)
    with less show ?thesis by simp
  next
    case False
    obtain ml c' where ap: "apply_updates now us (sw\<lparr>sw_members := ml\<rparr>) = (sw', c')" and w: "sw_within B (sw\<lparr>sw_members := ml\<rparr>)"
      by (rule apply_update_other [OF Cons.prems(2) False _ Cons.prems(3)]) (use Cons.prems(1) in simp)
    have "sw_incarnation (sw\<lparr>sw_members := ml\<rparr>) < sw_incarnation sw'"
      by (rule Cons.IH [OF _ ap w]) (use Cons.prems False in auto)
    then show ?thesis by simp
  qed
qed simp

lemma own_bound: "cluster_ok k c \<Longrightarrow> unat (own_incarnation c n) \<le> 65535 * k"
  by (cases "cl_nodes c n") (simp_all add: own_incarnation_def cluster_ok_def)

section \<open>Properties\<close>

text \<open>
  C5. Nobody knows a later incarnation of a node than the node itself: in every cluster of nodes with
  distinct identities, none of them restarted, under loss, reordering and duplication of datagrams and
  with nodes that join or fall silent at any time, the incarnation that any member table, any
  dissemination queue or any datagram in flight gives for a node is at most the one the node has
  given itself. The bound on the deliveries excludes that the 64-bit counter wraps: a datagram
  carries at most 65535 updates.
\<close>
theorem incarnations_are_own:
  assumes "cluster_run k c" and "k \<le> 2 ^ 48"
  shows "(\<forall>p nd. cl_nodes c p = Some nd \<longrightarrow>
      (\<forall>n info. ml_get_node (sw_members (nd_swim nd)) n = Some info \<longrightarrow> info_incarnation info \<le> own_incarnation c n) \<and>
      (\<forall>e \<in> set (dis_queue (sw_disseminator (nd_swim nd))).
         upd_incarnation (ent_update e) \<le> own_incarnation c (upd_node (ent_update e)))) \<and>
    (\<forall>(dest, bs) \<in> cl_network c. \<forall>msg. swim_deserialize bs = Some msg \<longrightarrow>
      (\<forall>u \<in> set (msg_updates msg). upd_incarnation u \<le> own_incarnation c (upd_node u)))"
proof -
  have c: "cluster_ok k c" by (rule cluster_ok_run [OF assms])
  then have "sw_within (own_incarnation c) (nd_swim nd)" if "cl_nodes c p = Some nd" for p nd
    using that by (simp add: cluster_ok_def node_within_def)
  moreover have "network_within (own_incarnation c) (cl_network c)" using c by (simp add: cluster_ok_def)
  ultimately show ?thesis
    unfolding sw_within_def table_within_def queue_within_def network_within_def update_within_def by blast
qed

abbreviation pair_cluster :: cluster where
  "pair_cluster \<equiv> with_node other_id (start_node other_id 2 (Some (self_id, 2)) 0)
     (with_node self_id lonely_node \<lparr>cl_nodes = Map.empty, cl_network = {}\<rparr>)"

lemma pair_cluster_run: "cluster_run 0 pair_cluster"
  by (intro cluster_run.boot cluster_run.empty) (simp_all add: with_node_def node_id_fits_def)

theorem incarnations_are_own_witness:
  "\<exists>info. ml_get_node (sw_members (nd_swim (start_node other_id 2 (Some (self_id, 2)) 0))) self_id = Some info \<and>
     info_incarnation info \<le> own_incarnation pair_cluster self_id"
proof -
  let ?nd = "start_node other_id 2 (Some (self_id, 2)) 0"
  obtain info where info: "ml_get_node (sw_members (nd_swim ?nd)) self_id = Some info"
    by (simp add: start_members ml_get_node_def um_find_def)
  moreover have "cl_nodes pair_cluster other_id = Some ?nd" by (simp add: with_node_def)
  ultimately have "info_incarnation info \<le> own_incarnation pair_cluster self_id"
    using incarnations_are_own [OF pair_cluster_run] by (simp del: own_with_node)
  with info show ?thesis by blast
qed

text \<open>
  C11. A refutation prevails: when a running node of such a cluster receives a datagram that says it is
  suspect or dead, then afterwards the update it spreads about itself says that it is alive, and every
  node of the cluster that merges this update regards it as alive, whatever it held before.
\<close>
theorem refutation_prevails:
  assumes "cluster_run k c" and "k < 2 ^ 48" and "cl_nodes c x = Some nd" and "(dest, bs) \<in> cl_network c"
    and "swim_deserialize bs = Some msg" and "u \<in> set (msg_updates msg)" and "upd_node u = x"
    and "upd_type u \<in> {Update_Suspect, Update_Dead}" and "apply_updates now (msg_updates msg) (nd_swim nd) = (sw', calls)"
  shows "spreads_news sw' \<and>
    (\<forall>p nd_p. cl_nodes c p = Some nd_p \<longrightarrow>
       ml_view (fst (ml_add_node (sw_members (nd_swim nd_p))
         ((default_node_info x t)\<lparr>info_incarnation := upd_incarnation (alive_news sw'), info_data_port := upd_data_port (alive_news sw')\<rparr>))) x =
       Some (sw_incarnation sw', Alive))"
proof -
  have c: "cluster_ok k c" by (rule cluster_ok_run [OF assms(1)]) (use assms(2) in simp)
  have nd: "sw_within (own_incarnation c) (nd_swim nd)" "sw_self (nd_swim nd) = x" "own_incarnation c x = sw_incarnation (nd_swim nd)"
    using c assms(3) by (simp_all add: cluster_ok_def node_within_def own_incarnation_def)
  have us: "\<forall>u \<in> set (msg_updates msg). update_within (own_incarnation c) u"
    using c assms(4,5) by (auto simp: cluster_ok_def network_within_def)
  have "length (msg_updates msg) \<le> 65535" using swim_deserialize_sound [OF assms(5)] by (simp add: swim_message_fits_def)
  then have lim: "unat (sw_incarnation (nd_swim nd)) + length (msg_updates msg) < 2 ^ 64" using own_bound [OF c, of x] nd(3) assms(2) by simp
  have news: "spreads_news sw'" by (rule apply_updates_news [OF us assms(9) nd(1) lim]) (use assms(6-8) nd(2) in auto)
  have up: "sw_incarnation (nd_swim nd) < sw_incarnation sw'"
    by (rule apply_updates_raises [OF us assms(9) nd(1) lim]) (use assms(6-8) nd(2) in auto)
  have "ml_view (fst (ml_add_node ml ((default_node_info x t)\<lparr>info_incarnation := sw_incarnation sw', info_data_port := port\<rparr>))) x =
      Some (sw_incarnation sw', Alive)" if "table_within (own_incarnation c) ml" for ml port
  proof -
    have "max r (sw_incarnation sw', Alive) = (sw_incarnation sw', Alive)" if "ml_view ml x = Some r" for r
    proof -
      have "fst r \<le> own_incarnation c x"
        using that \<open>table_within (own_incarnation c) ml\<close> by (auto simp: ml_view_def info_rank_def table_within_def)
      then have "fst r < sw_incarnation sw'" using up nd(3) by simp
      then show ?thesis by (cases r) (simp add: max_def)
    qed
    then show ?thesis by (auto simp: ml_view_add default_node_info_def info_rank_def split: option.splits)
  qed
  moreover have "table_within (own_incarnation c) (sw_members (nd_swim nd_p))" if "cl_nodes c p = Some nd_p" for p nd_p
    using c that by (simp add: cluster_ok_def node_within_def sw_within_def)
  ultimately show ?thesis using news by (simp add: alive_news_def)
qed

lemma silent_cluster:
  assumes "silent_steps nd nd'" and "cluster_run k c" and "cl_nodes c p = Some nd"
  shows "\<exists>c'. cluster_run k c' \<and> cl_nodes c' = (cl_nodes c)(p \<mapsto> nd')"
  using assms
proof (induction rule: silent_steps.induct)
  case (silent_nil nd)
  then show ?case by (intro exI [of _ c]) (simp add: fun_upd_idem)
next
  case (silent_step nd nd1 sent nd2)
  then obtain c1 where c1: "cluster_run k c1" "cl_nodes c1 = (cl_nodes c)(p \<mapsto> nd1)" by blast
  then have "cluster_run k (transmit sent (with_node p nd2 c1))" using cluster_run.work [OF c1(1) _ silent_step.hyps(2), of p] by simp
  then show ?case using c1(2) by (intro exI [of _ "transmit sent (with_node p nd2 c1)"]) (simp add: transmit_def with_node_def)
qed

abbreviation false_alarm :: membership_update where
  "false_alarm \<equiv> \<lparr>upd_type = Update_Suspect, upd_node = other_id, upd_incarnation = 0, upd_data_port = 0\<rparr>"

text \<open>A run in which a node hears that it is suspected.\<close>

lemma alarmed_node:
  "\<exists>nd. silent_steps lonely_node nd \<and> nd_receiving nd \<and> sw_self (nd_swim nd) = self_id \<and>
     (\<exists>info. ml_get_node (sw_members (nd_swim nd)) other_id = Some info \<and> info_state info = Suspect \<and> info_incarnation info = 0) \<and>
     sc_max_piggyback_updates (sw_config (nd_swim nd)) = 8 \<and>
     dis_queue (sw_disseminator (nd_swim nd)) = [\<lparr>ent_update = lonely_join, ent_transmit_count = 2\<rparr>, \<lparr>ent_update = false_alarm, ent_transmit_count = 0\<rparr>]"
proof -
  obtain nd where nd: "silent_steps lonely_node nd" "nd_receiving nd" "sw_self (nd_swim nd) = self_id"
    "sw_disseminator (nd_swim nd) = \<lparr>dis_max_transmissions = 10, dis_queue = [\<lparr>ent_update = lonely_join, ent_transmit_count = 2\<rparr>]\<rparr>"
    "nd_probe nd = Probe_Indirect other_id 1" "um_find 1 (sw_pending_acks (nd_swim nd)) = Some False"
    "sw_members (nd_swim nd) = sw_members (nd_swim lonely_node)" "sw_config (nd_swim nd) = sw_config (nd_swim lonely_node)"
    using lonely_silence by blast
  let ?info = "(default_node_info other_id 0)\<lparr>info_data_port := 2, info_state := Alive\<rparr>"
  have mem: "ml_get_node (sw_members (nd_swim nd)) other_id = Some ?info" by (simp add: nd(7) start_members ml_get_node_def um_find_def)
  obtain nd1 where nd1: "node_step nd None [] nd1"
    "ml_get_node (sw_members (nd_swim nd1)) other_id = Some (?info\<lparr>info_state := Suspect, info_last_change := 0\<rparr>)"
    "sw_disseminator (nd_swim nd1) = enqueue (sw_disseminator (nd_swim nd))
      \<lparr>upd_type = Update_Suspect, upd_node = other_id, upd_incarnation = info_incarnation ?info, upd_data_port = 0\<rparr>"
    "nd_receiving nd1 = nd_receiving nd" "sw_config (nd_swim nd1) = sw_config (nd_swim nd)" "sw_self (nd_swim nd1) = sw_self (nd_swim nd)"
    by (rule silent_probe_suspects [OF nd(5) _ mem]) (use nd(6) in auto)
  have "silent_steps lonely_node nd1" by (rule silent_steps.silent_step [OF nd(1) nd1(1)])
  then show ?thesis using nd nd1 by (intro exI [of _ nd1]) (simp add: start_state default_swim_config_def enqueue_def default_node_info_def)
qed

lemma alarming_run:
  "\<exists>c nd bs msg. cluster_run 1 c \<and> cl_nodes c other_id = Some nd \<and> (other_id, bs) \<in> cl_network c \<and>
     swim_deserialize bs = Some msg \<and> false_alarm \<in> set (msg_updates msg)"
proof -
  let ?srt = "sort_key ent_transmit_count" and ?o = "start_node other_id 2 (Some (self_id, 2)) 0"
  obtain nd info where nd: "silent_steps lonely_node nd" "nd_receiving nd" "sw_self (nd_swim nd) = self_id"
    "ml_get_node (sw_members (nd_swim nd)) other_id = Some info" "info_state info = Suspect" "info_incarnation info = 0"
    "sc_max_piggyback_updates (sw_config (nd_swim nd)) = 8"
    "dis_queue (sw_disseminator (nd_swim nd)) = [\<lparr>ent_update = lonely_join, ent_transmit_count = 2\<rparr>, \<lparr>ent_update = false_alarm, ent_transmit_count = 0\<rparr>]"
    using alarmed_node by blast
  have "cl_nodes pair_cluster self_id = Some lonely_node" by (simp add: with_node_def)
  then obtain c1 where c1: "cluster_run 0 c1" "cl_nodes c1 = (cl_nodes pair_cluster)(self_id \<mapsto> nd)"
    using silent_cluster [OF nd(1) pair_cluster_run] by blast
  have o1: "cl_nodes c1 other_id = Some ?o" by (simp add: c1(2) with_node_def)
  let ?join = "\<lparr>upd_type = Update_Join, upd_node = other_id, upd_incarnation = 0, upd_data_port = 2\<rparr>"
  define ping where "ping = \<lparr>msg_type = Ping, msg_seq_num = 0, msg_sender = other_id, msg_target = None, msg_updates = [?join]\<rparr>"
  obtain sw1 where d: "direct_ping ?srt (nd_swim ?o) self_id = (sw1, [(self_id, ping)], 0)"
    by (simp add: direct_ping_eq start_state default_swim_config_def get_updates_eq ping_def Let_def)
  let ?o1 = "?o\<lparr>nd_swim := sw1, nd_probe := Probe_Direct self_id 0\<rparr>"
  have s1: "node_step ?o None [(self_id, ping)] ?o1"
    by (rule node_step.probe_direct [where draw = "\<lambda>m. 0" and srt = ?srt])
      (simp_all add: start_state random_peer_def start_members alive_peers_def default_node_info_def d sorts_by_sort_key)
  define c2 where "c2 = transmit [(self_id, ping)] (with_node other_id ?o1 c1)"
  have c2: "cluster_run 0 c2" unfolding c2_def by (rule cluster_run.work [OF c1(1) o1 s1])
  have "swim_message_fits ping" by (simp add: swim_message_fits_def ping_def node_id_fits_def)
  then have dp: "swim_deserialize (swim_serialize ping) = Some ping" using swim_deserialize_complete [of ping "[]"] by simp
  let ?us = "snd (updates_of ?srt (nd_swim nd))"
  define ack where "ack = \<lparr>msg_type = Ack, msg_seq_num = 0, msg_sender = self_id, msg_target = None, msg_updates = ?us\<rparr>"
  have "apply_updates 0 [?join] (nd_swim nd) = (nd_swim nd, [])"
    using nd(3-6) by (simp add: ml_add_node_def default_node_info_def ml_get_node_def info_supersedes_def)
  then obtain sw2 where h: "handle_message ?srt 0 ping (nd_swim nd) = (sw2, [(other_id, ack)], [], [])"
    using nd(3,4) by (simp add: handle_message_def learn_sender_def ping_def on_ping_eq ack_def)
  have s2: "node_step nd (Some (swim_serialize ping)) [(other_id, ack)]
      (nd\<lparr>nd_swim := sw2, nd_receiving := sw_running sw2, nd_relays := nd_relays nd @ map (\<lambda>rl. (rl, False)) [], nd_ring := ring_follow [] (nd_ring nd)\<rparr>)"
    (is "node_step nd _ _ ?nd2") by (rule node_step.datagram [OF nd(2) dp sorts_by_sort_key h])
  have "cluster_run (Suc 0) (transmit [(other_id, ack)] (with_node self_id ?nd2 c2))"
    by (rule cluster_run.deliver [OF c2 _ _ s2]) (simp_all add: c2_def c1(2) transmit_def with_node_def)
  moreover have "false_alarm \<in> set (msg_updates ack)"
    using nd(7,8) by (simp add: ack_def get_updates_eq Let_def)
  moreover have "swim_message_fits ack"
    using nd(7,8) by (simp add: swim_message_fits_def ack_def node_id_fits_def get_updates_eq Let_def)
  then have "swim_deserialize (swim_serialize ack) = Some ack" using swim_deserialize_complete [of ack "[]"] by simp
  moreover have "cl_nodes (transmit [(other_id, ack)] (with_node self_id ?nd2 c2)) other_id = Some ?o1"
    "(other_id, swim_serialize ack) \<in> cl_network (transmit [(other_id, ack)] (with_node self_id ?nd2 c2))"
    by (simp_all add: c2_def transmit_def with_node_def)
  ultimately show ?thesis unfolding One_nat_def by blast
qed

theorem refutation_prevails_witness:
  "\<exists>c nd now us sw' calls. cluster_run 1 c \<and> cl_nodes c other_id = Some nd \<and> apply_updates now us (nd_swim nd) = (sw', calls) \<and>
     false_alarm \<in> set us \<and> spreads_news sw'"
proof -
  obtain c nd bs msg where r: "cluster_run 1 c" "cl_nodes c other_id = Some nd" "(other_id, bs) \<in> cl_network c"
    "swim_deserialize bs = Some msg" "false_alarm \<in> set (msg_updates msg)"
    using alarming_run by blast
  obtain sw' calls where a: "apply_updates 0 (msg_updates msg) (nd_swim nd) = (sw', calls)" by fastforce
  have "spreads_news sw'" using refutation_prevails [OF r(1) _ r(2-5) _ _ a] by simp
  then show ?thesis using r a by blast
qed

end
