(* ===== verification/Task.thy ===== *)
theory Task
  imports Prelude
begin

text \<open>
  Coroutines and the \<open>Task\<close> type (\<open>src/src/io/task.h\<close>).

  A coroutine frame lives on a heap, named by the handle of the coroutine. The frame records the
  promise and where the coroutine is suspended. Resuming a coroutine runs it on the stack of the
  resumer, so there is a stack of running coroutines, the innermost first; suspending returns to the
  resumer, and awaiting a task (\<open>Task::await_suspend\<close>) or finishing (\<open>FinalAwaiter\<close>) transfers control to
  another coroutine in place. \<open>None\<close> is undefined behaviour: resuming or destroying a coroutine that is
  not there, that runs or that has finished, or dereferencing an empty task.

  What a coroutine does between two suspensions is not fixed here. The type of the values that tasks
  return is a parameter, and an exception is named by a string.
\<close>

section \<open>Frames\<close>

type_synonym coro = nat

record 'v promise =
  pr_caller :: "coro option"
  pr_value :: "'v option"
  pr_exception :: "string option"

text \<open>
  Where a coroutine is: before its first statement, waiting for a task, for an operation of the kernel
  or for another coroutine that holds its handle, running, or at its final suspension.
\<close>

datatype suspension = At_Start | At_Task coro | At_Io | At_Other | Running | At_End

record 'v frame =
  fr_promise :: "'v promise"
  fr_at :: suspension

record 'v coroutines =
  crt_frames :: "coro \<Rightarrow> 'v frame option"
  crt_stack :: "coro list"

definition set_frame :: "coro \<Rightarrow> 'v frame \<Rightarrow> ('v, 'm) coroutines_scheme \<Rightarrow> ('v, 'm) coroutines_scheme" where
  "set_frame a f cs = cs\<lparr>crt_frames := (crt_frames cs)(a \<mapsto> f)\<rparr>"

definition resume :: "coro \<Rightarrow> ('v, 'm) coroutines_scheme \<Rightarrow> ('v, 'm) coroutines_scheme option" where
  "resume a cs =
     (case crt_frames cs a of
        None \<Rightarrow> None
      | Some f \<Rightarrow>
          if fr_at f = Running \<or> fr_at f = At_End then None
          else Some ((set_frame a (f\<lparr>fr_at := Running\<rparr>) cs)\<lparr>crt_stack := a # crt_stack cs\<rparr>))"

text \<open>The innermost running coroutine suspends itself.\<close>

definition suspend :: "suspension \<Rightarrow> ('v, 'm) coroutines_scheme \<Rightarrow> ('v, 'm) coroutines_scheme option" where
  "suspend at cs =
     (case crt_stack cs of
        [] \<Rightarrow> None
      | a # st \<Rightarrow>
          (case crt_frames cs a of
             None \<Rightarrow> None
           | Some f \<Rightarrow> Some ((set_frame a (f\<lparr>fr_at := at\<rparr>) cs)\<lparr>crt_stack := st\<rparr>)))"

section \<open>The promise\<close>

text \<open>Calling a coroutine: a frame with a fresh promise, suspended at its start.\<close>

definition new_promise :: "'v promise" where
  "new_promise = \<lparr>pr_caller = None, pr_value = None, pr_exception = None\<rparr>"

definition get_return_object :: "coro \<Rightarrow> ('v, 'm) coroutines_scheme \<Rightarrow> ('v, 'm) coroutines_scheme option" where
  "get_return_object a cs =
     (case crt_frames cs a of
        Some _ \<Rightarrow> None
      | None \<Rightarrow> Some (set_frame a \<lparr>fr_promise = new_promise, fr_at = At_Start\<rparr> cs))"

definition return_value :: "'v \<Rightarrow> 'v promise \<Rightarrow> 'v promise" where
  "return_value v pr = pr\<lparr>pr_value := Some v\<rparr>"

definition unhandled_exception :: "string \<Rightarrow> 'v promise \<Rightarrow> 'v promise" where
  "unhandled_exception e pr = pr\<lparr>pr_exception := Some e\<rparr>"

datatype 'v outcome = Returned 'v | Threw string

definition promise_result :: "'v promise \<Rightarrow> 'v outcome option" where
  "promise_result pr =
     (case pr_exception pr of
        Some e \<Rightarrow> Some (Threw e)
      | None \<Rightarrow> map_option Returned (pr_value pr))"

text \<open>
  The end of a coroutine: its outcome goes to the promise, it suspends finally, and the final awaiter
  transfers control to the coroutine that awaits it, if there is one.
\<close>

definition final_suspend :: "coro option \<Rightarrow> ('v, 'm) coroutines_scheme \<Rightarrow> ('v, 'm) coroutines_scheme option" where
  "final_suspend caller cs = (case caller of Some c \<Rightarrow> resume c cs | None \<Rightarrow> Some cs)"

fun store_outcome :: "'v outcome \<Rightarrow> 'v promise \<Rightarrow> 'v promise" where
  "store_outcome (Returned v) pr = return_value v pr"
| "store_outcome (Threw e) pr = unhandled_exception e pr"

definition finish :: "'v outcome \<Rightarrow> ('v, 'm) coroutines_scheme \<Rightarrow> ('v, 'm) coroutines_scheme option" where
  "finish r cs =
     (case crt_stack cs of
        [] \<Rightarrow> None
      | a # _ \<Rightarrow>
          (case crt_frames cs a of
             None \<Rightarrow> None
           | Some f \<Rightarrow>
               Option.bind (suspend At_End (set_frame a (f\<lparr>fr_promise := store_outcome r (fr_promise f)\<rparr>) cs))
                 (final_suspend (pr_caller (fr_promise f)))))"

section \<open>Tasks\<close>

text \<open>A task is its handle; an empty task has none.\<close>

type_synonym task = "coro option"

definition task_done :: "('v, 'm) coroutines_scheme \<Rightarrow> task \<Rightarrow> bool option" where
  "task_done cs t =
     (case t of
        None \<Rightarrow> Some True
      | Some a \<Rightarrow> map_option (\<lambda>f. fr_at f = At_End) (crt_frames cs a))"

definition task_start :: "task \<Rightarrow> ('v, 'm) coroutines_scheme \<Rightarrow> ('v, 'm) coroutines_scheme option" where
  "task_start t cs =
     (case t of
        None \<Rightarrow> Some cs
      | Some a \<Rightarrow>
          (case task_done cs t of
             None \<Rightarrow> None
           | Some True \<Rightarrow> Some cs
           | Some False \<Rightarrow> resume a cs))"

definition task_await_suspend :: "task \<Rightarrow> coro \<Rightarrow> ('v, 'm) coroutines_scheme \<Rightarrow> (('v, 'm) coroutines_scheme \<times> coro) option" where
  "task_await_suspend t caller cs =
     (case t of
        None \<Rightarrow> None
      | Some a \<Rightarrow>
          (case crt_frames cs a of
             None \<Rightarrow> None
           | Some f \<Rightarrow> Some (set_frame a (f\<lparr>fr_promise := (fr_promise f)\<lparr>pr_caller := Some caller\<rparr>\<rparr>) cs, a)))"

text \<open>\<open>co_await\<close> of a task by the innermost running coroutine: a task is never ready.\<close>

definition await_task :: "coro \<Rightarrow> ('v, 'm) coroutines_scheme \<Rightarrow> ('v, 'm) coroutines_scheme option" where
  "await_task a cs =
     (case crt_stack cs of
        [] \<Rightarrow> None
      | c # _ \<Rightarrow>
          do { cs \<leftarrow> suspend (At_Task a) cs;
               (cs, h) \<leftarrow> task_await_suspend (Some a) c cs;
               resume h cs })"

definition task_await_resume :: "('v, 'm) coroutines_scheme \<Rightarrow> task \<Rightarrow> 'v outcome option" where
  "task_await_resume cs t =
     (case t of
        None \<Rightarrow> None
      | Some a \<Rightarrow> Option.bind (crt_frames cs a) (\<lambda>f. promise_result (fr_promise f)))"

text \<open>
  Destroying a task destroys its frame and what lives in it, which includes the task that the
  coroutine awaits.
\<close>

definition free_frame :: "coro \<Rightarrow> ('v, 'm) coroutines_scheme \<Rightarrow> ('v, 'm) coroutines_scheme" where
  "free_frame a cs = cs\<lparr>crt_frames := (crt_frames cs)(a := None)\<rparr>"

partial_function (option) frame_destroy :: "coro \<Rightarrow> ('v, 'm) coroutines_scheme \<Rightarrow> ('v, 'm) coroutines_scheme option" where
  "frame_destroy a cs =
     (case crt_frames cs a of
        None \<Rightarrow> None
      | Some f \<Rightarrow>
          (case fr_at f of
             Running \<Rightarrow> None
           | At_Task b \<Rightarrow> frame_destroy b (free_frame a cs)
           | _ \<Rightarrow> Some (free_frame a cs)))"

definition task_destroy :: "task \<Rightarrow> ('v, 'm) coroutines_scheme \<Rightarrow> ('v, 'm) coroutines_scheme option" where
  "task_destroy t cs = (case t of None \<Rightarrow> Some cs | Some a \<Rightarrow> frame_destroy a cs)"

text \<open>Moving: the new value of the source and of the target; the move constructor and the move assignment to another object.\<close>

definition task_move :: "task \<Rightarrow> task \<times> task" where
  "task_move other = (None, other)"

definition task_move_assign :: "task \<Rightarrow> task \<Rightarrow> ('v, 'm) coroutines_scheme \<Rightarrow> (('v, 'm) coroutines_scheme \<times> task \<times> task) option" where
  "task_move_assign this other cs = map_option (\<lambda>cs. (cs, None, other)) (task_destroy this cs)"

text \<open>
  The lists of detached tasks of \<open>SwimProtocol::spawn\<close> and of \<open>main\<close>: a task is started, kept, and the
  finished ones are erased.
\<close>

fun erase_done :: "task list \<Rightarrow> ('v, 'm) coroutines_scheme \<Rightarrow> (('v, 'm) coroutines_scheme \<times> task list) option" where
  "erase_done [] cs = Some (cs, [])"
| "erase_done (t # ts) cs =
     (case task_done cs t of
        None \<Rightarrow> None
      | Some True \<Rightarrow> Option.bind (task_destroy t cs) (erase_done ts)
      | Some False \<Rightarrow> map_option (\<lambda>(cs, ts). (cs, t # ts)) (erase_done ts cs))"

text \<open>\<open>body\<close> is what the coroutine does before it first suspends or finishes.\<close>

definition spawn_detached ::
  "(('v, 'm) coroutines_scheme \<Rightarrow> ('v, 'm) coroutines_scheme option) \<Rightarrow> task \<Rightarrow> task list \<Rightarrow> ('v, 'm) coroutines_scheme \<Rightarrow>
   (('v, 'm) coroutines_scheme \<times> task list) option" where
  "spawn_detached body t ts cs =
     do { cs \<leftarrow> task_start t cs;
          cs \<leftarrow> body cs;
          erase_done (ts @ [t]) cs }"

end
