(* ===== verification/IoContext.thy ===== *)
theory IoContext
  imports Task "HOL-Library.Signed_Division"
begin

text \<open>
  The event loop over io_uring (\<open>src/src/io/io_uring_context.h\<close>, \<open>io_uring_context.cpp\<close>) and the
  awaitables (\<open>src/src/io/awaitable.h\<close>).

  An operation handed to the kernel carries the address of a \<open>Completion\<close>, through which the event
  loop later finds whom to tell: a coroutine to resume or a callback to call. Completions live in the
  awaitable inside a coroutine frame, in an \<open>OwnedCallback\<close> on the heap, or in the listener; a
  \<open>pointer\<close> names one of these places. The kernel and liburing are not modelled: the operations it
  holds are a list of pointers (\<open>ex_ops\<close>), \<open>ex_calling\<close> is the completion whose callback the loop is
  executing, whether a submission entry is free is an argument, and so are the
  results of the waits. \<open>None\<close> is an access to a completion that is gone, or a null entry.
\<close>

section \<open>Completions\<close>

type_synonym i32 = "32 word"

datatype completion_type = Callback | Coroutine

record completion =
  cm_type :: completion_type
  cm_owns :: bool
  cm_result :: i32
  cm_callback :: "nat option"
  cm_handle :: "coro option"

definition new_completion :: completion where
  "new_completion = \<lparr>cm_type = Callback, cm_owns = False, cm_result = 0, cm_callback = None, cm_handle = None\<rparr>"

definition from_callback :: "nat option \<Rightarrow> completion" where
  "from_callback cb = new_completion\<lparr>cm_type := Callback, cm_callback := cb\<rparr>"

definition from_coroutine :: "coro \<Rightarrow> completion" where
  "from_coroutine h = new_completion\<lparr>cm_type := Coroutine, cm_handle := Some h\<rparr>"

datatype pointer = In_Frame coro | Owned nat | In_Listener

record 'v executor = "'v coroutines" +
  ex_awaitable :: "coro \<Rightarrow> completion"
  ex_owned :: "nat \<Rightarrow> completion option"
  ex_listener :: completion
  ex_ops :: "pointer list"
  ex_calling :: "pointer option"

fun load :: "'v executor \<Rightarrow> pointer \<Rightarrow> completion option" where
  "load ex (In_Frame a) = (if crt_frames ex a = None then None else Some (ex_awaitable ex a))"
| "load ex (Owned n) = ex_owned ex n"
| "load ex In_Listener = Some (ex_listener ex)"

fun store :: "pointer \<Rightarrow> completion \<Rightarrow> 'v executor \<Rightarrow> 'v executor" where
  "store (In_Frame a) c ex = ex\<lparr>ex_awaitable := (ex_awaitable ex)(a := c)\<rparr>"
| "store (Owned n) c ex = ex\<lparr>ex_owned := (ex_owned ex)(n \<mapsto> c)\<rparr>"
| "store In_Listener c ex = ex\<lparr>ex_listener := c\<rparr>"

section \<open>Construction\<close>

text \<open>
  The context: the descriptor through which \<open>stop\<close> wakes the loop, and \<open>running_\<close>. The results of setting up
  the queue and of \<open>eventfd\<close> are arguments; the flag next to the error says whether the queue was torn down again.
\<close>

record io_uring_context =
  ctx_stop_fd :: int
  ctx_running :: bool

datatype context_error = Queue_Init_Failed int | Eventfd_Failed

definition new_io_uring_context :: "int \<Rightarrow> int \<Rightarrow> context_error \<times> bool + io_uring_context" where
  "new_io_uring_context ret event_fd =
     (if ret < 0 then Inl (Queue_Init_Failed (- ret), False)
      else if event_fd < 0 then Inl (Eventfd_Failed, True)
      else Inr \<lparr>ctx_stop_fd = event_fd, ctx_running = False\<rparr>)"

text \<open>The descriptor that the destructor closes; it also tears the queue down.\<close>

definition ctx_destroy :: "io_uring_context \<Rightarrow> int option" where
  "ctx_destroy ctx = (if ctx_stop_fd ctx \<ge> 0 then Some (ctx_stop_fd ctx) else None)"

section \<open>Submission\<close>

text \<open>\<open>free1\<close> and \<open>free2\<close>: whether \<open>io_uring_get_sqe\<close> finds an entry at the first call, and after a submit.\<close>

definition get_sqe :: "bool \<Rightarrow> bool \<Rightarrow> bool" where
  "get_sqe free1 free2 = (if \<not> free1 then free2 else True)"

definition submit_op :: "bool \<Rightarrow> bool \<Rightarrow> pointer \<Rightarrow> 'v executor \<Rightarrow> 'v executor option" where
  "submit_op free1 free2 p ex = (if get_sqe free1 free2 then Some (ex\<lparr>ex_ops := ex_ops ex @ [p]\<rparr>) else None)"

text \<open>The same \<open>await_suspend\<close> in the four awaitable classes, and \<open>await_resume\<close>.\<close>

definition io_await_suspend :: "bool \<Rightarrow> bool \<Rightarrow> coro \<Rightarrow> 'v executor \<Rightarrow> 'v executor option" where
  "io_await_suspend free1 free2 h ex = submit_op free1 free2 (In_Frame h) (store (In_Frame h) (from_coroutine h) ex)"

definition io_await_resume :: "'v executor \<Rightarrow> coro \<Rightarrow> i32" where
  "io_await_resume ex h = cm_result (ex_awaitable ex h)"

text \<open>\<open>co_await\<close> of an operation by the innermost running coroutine: an operation is never ready.\<close>

definition await_io :: "bool \<Rightarrow> bool \<Rightarrow> 'v executor \<Rightarrow> 'v executor option" where
  "await_io free1 free2 ex =
     (case crt_stack ex of
        [] \<Rightarrow> None
      | a # _ \<Rightarrow> Option.bind (suspend At_Io ex) (io_await_suspend free1 free2 a))"

text \<open>The operations, as the helper functions prepare them; lengths are cut to 32 bits.\<close>

type_synonym fd = int

datatype uring_op =
    Prep_Accept fd
  | Prep_Read fd u32
  | Prep_Write fd u32
  | Prep_Read_Fixed fd u32 u16
  | Prep_Write_Fixed fd u32 u16
  | Prep_Close fd
  | Prep_Nop
  | Prep_Connect fd
  | Prep_Cancel pointer
  | Prep_Recvmsg fd u64 bool
  | Prep_Sendmsg fd u64
  | Prep_Timeout int int

definition async_accept :: "fd \<Rightarrow> uring_op" where "async_accept listen_fd = Prep_Accept listen_fd"
definition io_async_read :: "fd \<Rightarrow> u64 \<Rightarrow> uring_op" where "io_async_read f len = Prep_Read f (ucast len)"
definition io_async_write :: "fd \<Rightarrow> u64 \<Rightarrow> uring_op" where "io_async_write f len = Prep_Write f (ucast len)"
definition async_read_fixed :: "fd \<Rightarrow> u64 \<Rightarrow> u16 \<Rightarrow> uring_op" where
  "async_read_fixed f len buf_idx = Prep_Read_Fixed f (ucast len) buf_idx"
definition async_write_fixed :: "fd \<Rightarrow> u64 \<Rightarrow> u16 \<Rightarrow> uring_op" where
  "async_write_fixed f len buf_idx = Prep_Write_Fixed f (ucast len) buf_idx"
definition async_close :: "fd \<Rightarrow> uring_op" where "async_close f = Prep_Close f"
definition async_nop :: uring_op where "async_nop = Prep_Nop"
definition async_connect :: "fd \<Rightarrow> uring_op" where "async_connect f = Prep_Connect f"
definition async_cancel :: "pointer \<Rightarrow> uring_op" where "async_cancel user_data = Prep_Cancel user_data"

text \<open>The vectors of the datagram awaitables keep the full length; the flag is whether a source address is asked for.\<close>

definition async_recvfrom :: "fd \<Rightarrow> u64 \<Rightarrow> bool \<Rightarrow> uring_op" where
  "async_recvfrom f len src_addr = Prep_Recvmsg f len src_addr"

definition async_sendto :: "fd \<Rightarrow> u64 \<Rightarrow> uring_op" where
  "async_sendto f len = Prep_Sendmsg f len"

text \<open>Seconds and nanoseconds of a timeout; the division of C++ truncates.\<close>

definition async_timeout :: "int \<Rightarrow> uring_op" where
  "async_timeout ms = Prep_Timeout (ms sdiv 1000) ((ms smod 1000) * 1000000)"

section \<open>Completion of an operation\<close>

text \<open>The callback that is to be called, if any; the callback runs between \<open>process_cqe\<close> and \<open>after_callback\<close>.\<close>

definition process_cqe :: "pointer option \<Rightarrow> i32 \<Rightarrow> 'v executor \<Rightarrow> ('v executor \<times> nat option) option" where
  "process_cqe data res ex =
     (case data of
        None \<Rightarrow> Some (ex, None)
      | Some p \<Rightarrow>
          (case load ex p of
             None \<Rightarrow> None
           | Some cpl \<Rightarrow>
               let ex = store p (cpl\<lparr>cm_result := res\<rparr>) ex
               in case cm_type cpl of
                    Callback \<Rightarrow> Some (ex, cm_callback cpl)
                  | Coroutine \<Rightarrow>
                      (case cm_handle cpl of
                         None \<Rightarrow> Some (ex, None)
                       | Some h \<Rightarrow> map_option (\<lambda>ex. (ex, None)) (resume h ex))))"

definition after_callback :: "pointer \<Rightarrow> 'v executor \<Rightarrow> 'v executor option" where
  "after_callback p ex =
     (case load ex p of
        None \<Rightarrow> None
      | Some cpl \<Rightarrow>
          if cm_owns cpl then (case p of Owned n \<Rightarrow> Some (ex\<lparr>ex_owned := (ex_owned ex)(n := None)\<rparr>) | _ \<Rightarrow> None)
          else Some ex)"

section \<open>The event loop\<close>

text \<open>
  What one wait of the loop brings: the result of \<open>io_uring_submit_and_wait\<close>, the completions, and whether
  \<open>stop\<close> is called, by a signal or by a callback, before the loop looks at \<open>running_\<close> again.
\<close>

record 'c loop_wait =
  wk_ret :: int
  wk_cqes :: "'c list"
  wk_stop :: bool

datatype loop_end = Stopped | Wait_Failed | Still_Waiting

definition eintr :: int where "eintr = 4"

text \<open>The completions processed and how the loop ends; it is still waiting when no further wait returns.\<close>

fun run_loop :: "bool \<Rightarrow> 'c loop_wait list \<Rightarrow> 'c list \<Rightarrow> 'c list \<times> loop_end" where
  "run_loop False ws done = (done, Stopped)"
| "run_loop True [] done = (done, Still_Waiting)"
| "run_loop True (w # ws) done =
     (if wk_ret w < 0
      then if wk_ret w = - eintr then run_loop (\<not> wk_stop w) ws done else (done, Wait_Failed)
      else run_loop (\<not> wk_stop w) ws (done @ wk_cqes w))"

text \<open>\<open>run\<close> sets \<open>running_\<close>, whatever it was.\<close>

definition run :: "bool \<Rightarrow> 'c loop_wait list \<Rightarrow> 'c list \<times> loop_end" where
  "run running ws = (let running = True in run_loop running ws [])"

text \<open>
  The counter of the event descriptor and the flag after \<open>stop\<close>. \<open>arm_stop_event\<close> asks for 8 bytes into
  the 4-byte field \<open>result\<close> of \<open>stop_completion_\<close>, which the low half of the pointer \<open>callback\<close> follows.
\<close>

definition stop :: "bool \<times> u64 \<Rightarrow> bool \<times> u64" where
  "stop st = (False, snd st + 1)"

definition stop_event_read :: "u64 \<Rightarrow> u64 \<Rightarrow> i32 \<times> u64" where
  "stop_event_read counter callback = (ucast counter, (callback AND push_bit 32 (mask 32)) OR drop_bit 32 counter)"

text \<open>The read past the field does no harm: as long as \<open>stop\<close> was called less than \<open>2 ^ 32\<close> times, the null pointer next to it stays null.\<close>

lemma stop_event_read_null:
  assumes "unat counter < 2 ^ 32"
  shows "snd (stop_event_read counter 0) = 0"
proof -
  have "drop_bit 32 counter = 0" using assms by (simp add: unat_eq_0 [symmetric] unat_div_distrib drop_bit_eq_div)
  then show ?thesis by (simp add: stop_event_read_def)
qed

section \<open>Properties\<close>

text \<open>The completions that a wait hands to \<open>process_cqe\<close>, and the waits after which the loop goes on.\<close>

definition delivered :: "'c loop_wait \<Rightarrow> 'c list" where
  "delivered w = (if wk_ret w < 0 then [] else wk_cqes w)"

definition wait_ok :: "'c loop_wait \<Rightarrow> bool" where
  "wait_ok w \<longleftrightarrow> 0 \<le> wk_ret w \<or> wk_ret w = - eintr"

lemma run_loop_append:
  assumes "\<forall>w\<in>set pre. wait_ok w \<and> \<not> wk_stop w"
  shows "run_loop True (pre @ ws) cs = run_loop True ws (cs @ concat (map delivered pre))"
  using assms by (induction pre arbitrary: cs) (auto simp: wait_ok_def delivered_def eintr_def)

text \<open>
  C37. The event loop: while its waits succeed or are interrupted and nobody calls \<open>stop\<close>, it processes every completion that the
  waits return, once and in order, and goes on. It ends at the first wait during which \<open>stop\<close> is called, after all the
  completions of that wait, and at the first wait that fails otherwise, with none of its completions. What \<open>running_\<close> was before does not matter: a
  \<open>stop\<close> before \<open>run\<close> is lost.
\<close>
theorem run_until_stop:
  assumes "\<forall>w\<in>set pre. wait_ok w \<and> \<not> wk_stop w"
  shows "run running pre = (concat (map delivered pre), Still_Waiting) \<and>
    (wait_ok w \<and> wk_stop w \<longrightarrow> run running (pre @ w # post) = (concat (map delivered (pre @ [w])), Stopped)) \<and>
    (\<not> wait_ok w \<longrightarrow> run running (pre @ w # post) = (concat (map delivered pre), Wait_Failed)) \<and>
    run (fst (stop st)) ws = run True ws"
  using run_loop_append [OF assms, of "[]" "[]"] run_loop_append [OF assms, of "w # post" "[]"]
  by (auto simp: run_def wait_ok_def delivered_def eintr_def)

theorem run_until_stop_witness:
  "run False [\<lparr>wk_ret = 2, wk_cqes = ''ab'', wk_stop = False\<rparr>, \<lparr>wk_ret = -4, wk_cqes = [], wk_stop = False\<rparr>,
      \<lparr>wk_ret = 1, wk_cqes = ''c'', wk_stop = True\<rparr>, \<lparr>wk_ret = 1, wk_cqes = ''d'', wk_stop = False\<rparr>] = (''abc'', Stopped)"
  using run_until_stop [of "[\<lparr>wk_ret = 2, wk_cqes = ''ab'', wk_stop = False\<rparr>, \<lparr>wk_ret = -4, wk_cqes = [], wk_stop = False\<rparr>]"
      False "\<lparr>wk_ret = 1, wk_cqes = ''c'', wk_stop = True\<rparr>" "[\<lparr>wk_ret = 1, wk_cqes = ''d'', wk_stop = False\<rparr>]" "(True, 0)" "[]"]
  by (auto simp add: wait_ok_def delivered_def eintr_def)

end
