(* ===== verification/Sockets.thy ===== *)
theory Sockets
  imports IoContext
begin

text \<open>
  Owners of file descriptors: \<open>TcpConnection\<close>, \<open>TcpListener\<close> and \<open>UdpSocket\<close> (\<open>src/src/io/tcp_connection.h\<close>,
  \<open>tcp_connection.cpp\<close>, \<open>tcp_listener.h\<close>, \<open>tcp_listener.cpp\<close>, \<open>udp_socket.h\<close>, \<open>udp_socket.cpp\<close>).

  An operation that closes a descriptor returns it next to its other results; the results of system
  calls are arguments. The locale \<open>unique_owner\<close> states what move construction, move assignment and
  giving up a handle do, and shows once that every handle stays with exactly one object until it is
  given up; connections and datagram sockets satisfy it.
\<close>

section \<open>Unique ownership\<close>

text \<open>
  A program that works with owners: it makes an owner of a handle, moves one into a new object or into
  another existing one, or makes one give up its handle, in one of several ways \<open>'k\<close>. Objects are named
  by their index.
\<close>

datatype ('k, 'h) owner_op = Make 'h | Move nat | Assign nat nat | Give_Up 'k nat

record ('k, 'h, 'o) owners =
  ow_objects :: "'o list"
  ow_given :: "('k \<times> 'h) list"

definition given :: "'k \<Rightarrow> 'h option \<Rightarrow> ('k \<times> 'h) list" where
  "given k freed = (case freed of None \<Rightarrow> [] | Some h \<Rightarrow> [(k, h)])"

fun owner_step ::
  "('h \<Rightarrow> 'o) \<Rightarrow> ('o \<Rightarrow> 'o \<times> 'o) \<Rightarrow> ('o \<Rightarrow> 'o \<Rightarrow> 'o \<times> 'o \<times> 'h option) \<Rightarrow> ('k \<Rightarrow> 'o \<Rightarrow> 'o \<times> 'h option) \<Rightarrow> 'k \<Rightarrow>
   ('k, 'h) owner_op \<Rightarrow> ('k, 'h, 'o) owners \<Rightarrow> ('k, 'h, 'o) owners" where
  "owner_step mk move assign give_up by_assign (Make h) s = s\<lparr>ow_objects := ow_objects s @ [mk h]\<rparr>"
| "owner_step mk move assign give_up by_assign (Move i) s =
     (if i < length (ow_objects s)
      then case move (ow_objects s ! i) of (x, y) \<Rightarrow> s\<lparr>ow_objects := (ow_objects s)[i := x] @ [y]\<rparr>
      else s)"
| "owner_step mk move assign give_up by_assign (Assign i j) s =
     (if i < length (ow_objects s) \<and> j < length (ow_objects s) \<and> i \<noteq> j
      then case assign (ow_objects s ! i) (ow_objects s ! j) of
             (x, y, freed) \<Rightarrow> s\<lparr>ow_objects := (ow_objects s)[i := x, j := y], ow_given := ow_given s @ given by_assign freed\<rparr>
      else s)"
| "owner_step mk move assign give_up by_assign (Give_Up k i) s =
     (if i < length (ow_objects s)
      then case give_up k (ow_objects s ! i) of
             (x, freed) \<Rightarrow> s\<lparr>ow_objects := (ow_objects s)[i := x], ow_given := ow_given s @ given k freed\<rparr>
      else s)"

text \<open>The handles the objects hold, those that were given up, and those that were handed in.\<close>

definition one :: "'h option \<Rightarrow> 'h multiset" where
  "one h = (case h of None \<Rightarrow> {#} | Some h \<Rightarrow> {#h#})"

definition held :: "('o \<Rightarrow> 'h option) \<Rightarrow> ('k, 'h, 'o) owners \<Rightarrow> 'h multiset" where
  "held handle s = \<Sum>\<^sub># (image_mset (\<lambda>x. one (handle x)) (mset (ow_objects s)))"

definition given_up :: "('k, 'h, 'o) owners \<Rightarrow> 'h multiset" where
  "given_up s = mset (map snd (ow_given s))"

fun made :: "('k, 'h) owner_op list \<Rightarrow> 'h multiset" where
  "made [] = {#}"
| "made (Make h # ops) = add_mset h (made ops)"
| "made (_ # ops) = made ops"

lemma one_simps [simp]: "one None = {#}" "one (Some h) = {#h#}"
  by (simp_all add: one_def)

lemma given_handles [simp]: "image_mset snd (mset (given k freed)) = one freed"
  by (simp add: given_def one_def split: option.split)

lemma sum_update:
  assumes "i < length xs"
  shows "\<Sum>\<^sub># (image_mset f (mset (xs[i := x]))) + f (xs ! i) = \<Sum>\<^sub># (image_mset f (mset xs)) + f x"
  using assms
proof (induction xs arbitrary: i)
  case (Cons y ys)
  then show ?case by (cases i) (auto simp: ac_simps)
qed simp

locale unique_owner =
  fixes handle :: "'o \<Rightarrow> 'h option"
    and mk :: "'h \<Rightarrow> 'o"
    and move :: "'o \<Rightarrow> 'o \<times> 'o"
    and assign :: "'o \<Rightarrow> 'o \<Rightarrow> 'o \<times> 'o \<times> 'h option"
    and give_up :: "'k \<Rightarrow> 'o \<Rightarrow> 'o \<times> 'h option"
    and by_assign :: 'k
    and good :: "'h \<Rightarrow> bool"
  assumes handle_make: "good h \<Longrightarrow> handle (mk h) = Some h"
    and handle_move: "move x = (x', y) \<Longrightarrow> handle x' = None \<and> handle y = handle x"
    and handle_assign: "assign x y = (x', y', freed) \<Longrightarrow> handle x' = handle y \<and> handle y' = None \<and> freed = handle x"
    and handle_give_up: "give_up k x = (x', freed) \<Longrightarrow> handle x' = None \<and> freed = handle x"
begin

text \<open>Every handle is held by exactly one object or has been given up once.\<close>

lemma owner_step_conserves:
  fixes s :: "('k, 'h, 'o) owners"
  assumes "\<And>h. oper = Make h \<Longrightarrow> good h"
  shows "held handle (owner_step mk move assign give_up by_assign oper s) + given_up (owner_step mk move assign give_up by_assign oper s) =
    held handle s + given_up s + made [oper]"
proof (cases oper)
  case (Make h)
  then show ?thesis using handle_make [OF assms [OF Make]] by (simp add: held_def given_up_def)
next
  case (Move i)
  show ?thesis
  proof (cases "i < length (ow_objects s)")
    case True
    obtain x y where m: "move (ow_objects s ! i) = (x, y)" by fastforce
    show ?thesis using True Move m handle_move [OF m] sum_update [OF True, of "\<lambda>x. one (handle x)" x]
      by (simp add: held_def given_up_def ac_simps)
  qed (simp add: Move)
next
  case (Assign i j)
  show ?thesis
  proof (cases "i < length (ow_objects s) \<and> j < length (ow_objects s) \<and> i \<noteq> j")
    case True
    let ?S = "\<lambda>xs. \<Sum>\<^sub># (image_mset (\<lambda>x. one (handle x)) (mset xs))"
    obtain x y freed where m: "assign (ow_objects s ! i) (ow_objects s ! j) = (x, y, freed)" by (metis surj_pair)
    have "?S ((ow_objects s)[i := x, j := y]) + one (handle ((ow_objects s)[i := x] ! j)) = ?S ((ow_objects s)[i := x]) + one (handle y)"
      by (rule sum_update) (use True in simp)
    moreover have "?S ((ow_objects s)[i := x]) + one (handle (ow_objects s ! i)) = ?S (ow_objects s) + one (handle x)"
      by (rule sum_update) (use True in simp)
    ultimately have "one (handle x) + (?S ((ow_objects s)[i := x, j := y]) + one (handle (ow_objects s ! i))) = one (handle x) + ?S (ow_objects s)"
      using handle_assign [OF m] True by (simp add: ac_simps)
    then show ?thesis using True Assign m handle_assign [OF m] by (simp add: held_def given_up_def ac_simps)
  qed (auto simp: Assign)
next
  case (Give_Up k i)
  show ?thesis
  proof (cases "i < length (ow_objects s)")
    case True
    obtain x freed where m: "give_up k (ow_objects s ! i) = (x, freed)" by fastforce
    show ?thesis using True Give_Up m handle_give_up [OF m] sum_update [OF True, of "\<lambda>x. one (handle x)" x]
      by (simp add: held_def given_up_def ac_simps)
  qed (simp add: Give_Up)
qed

lemma made_Cons: "made (oper # opers) = made [oper] + made opers"
  by (cases oper) simp_all

lemma owners_conserve:
  fixes s :: "('k, 'h, 'o) owners"
  assumes "\<And>h. Make h \<in> set opers \<Longrightarrow> good h"
  shows "held handle (fold (owner_step mk move assign give_up by_assign) opers s) +
    given_up (fold (owner_step mk move assign give_up by_assign) opers s) = held handle s + given_up s + made opers"
  using assms
proof (induction opers arbitrary: s)
  case (Cons oper opers)
  let ?s = "owner_step mk move assign give_up by_assign oper s"
  have "held handle (fold (owner_step mk move assign give_up by_assign) (oper # opers) s) +
      given_up (fold (owner_step mk move assign give_up by_assign) (oper # opers) s) = held handle ?s + given_up ?s + made opers"
    using Cons by simp
  also have "\<dots> = held handle s + given_up s + made [oper] + made opers"
    using owner_step_conserves [of oper s] Cons.prems by simp
  also have "\<dots> = held handle s + given_up s + made (oper # opers)" unfolding made_Cons [of oper opers] by (simp add: ac_simps)
  finally show ?case .
qed simp

end

section \<open>TCP connections\<close>

record tcp_connection =
  tc_fd :: fd

definition new_tcp_connection :: "fd \<Rightarrow> tcp_connection" where
  "new_tcp_connection f = \<lparr>tc_fd = f\<rparr>"

text \<open>The second component is the descriptor that is closed, if one is.\<close>

definition tc_close :: "tcp_connection \<Rightarrow> tcp_connection \<times> fd option" where
  "tc_close c = (if 0 \<le> tc_fd c then (c\<lparr>tc_fd := -1\<rparr>, Some (tc_fd c)) else (c, None))"

definition tc_destroy :: "tcp_connection \<Rightarrow> tcp_connection \<times> fd option" where
  "tc_destroy c = tc_close c"

text \<open>Move construction: the source afterwards, and the new object. Move assignment, to another object: both afterwards.\<close>

definition tc_move :: "tcp_connection \<Rightarrow> tcp_connection \<times> tcp_connection" where
  "tc_move other = (other\<lparr>tc_fd := -1\<rparr>, \<lparr>tc_fd = tc_fd other\<rparr>)"

definition tc_assign :: "tcp_connection \<Rightarrow> tcp_connection \<Rightarrow> tcp_connection \<times> tcp_connection \<times> fd option" where
  "tc_assign this other =
     (case tc_close this of (this, closed) \<Rightarrow> (this\<lparr>tc_fd := tc_fd other\<rparr>, other\<lparr>tc_fd := -1\<rparr>, closed))"

definition tc_release :: "tcp_connection \<Rightarrow> tcp_connection \<times> fd" where
  "tc_release c = (c\<lparr>tc_fd := -1\<rparr>, tc_fd c)"

text \<open>
  The operations with a callback: \<open>n\<close> is the address of the new \<open>OwnedCallback\<close>, \<open>cb\<close> names the function
  that is moved into it.
\<close>

definition make_owned_completion :: "nat \<Rightarrow> nat \<Rightarrow> 'v executor \<Rightarrow> 'v executor option" where
  "make_owned_completion n cb ex =
     (case ex_owned ex n of
        Some _ \<Rightarrow> None
      | None \<Rightarrow> Some (store (Owned n) ((from_callback (Some cb))\<lparr>cm_owns := True\<rparr>) ex))"

definition tc_submit :: "bool \<Rightarrow> bool \<Rightarrow> nat \<Rightarrow> nat \<Rightarrow> 'v executor \<Rightarrow> 'v executor option" where
  "tc_submit free1 free2 n cb ex = Option.bind (make_owned_completion n cb ex) (submit_op free1 free2 (Owned n))"

definition tc_async_read :: "tcp_connection \<Rightarrow> u64 \<Rightarrow> bool \<Rightarrow> bool \<Rightarrow> nat \<Rightarrow> nat \<Rightarrow> 'v executor \<Rightarrow> ('v executor \<times> uring_op) option" where
  "tc_async_read c len free1 free2 n cb ex =
     map_option (\<lambda>ex. (ex, Prep_Read (tc_fd c) (ucast len))) (tc_submit free1 free2 n cb ex)"

definition tc_async_write :: "tcp_connection \<Rightarrow> u64 \<Rightarrow> bool \<Rightarrow> bool \<Rightarrow> nat \<Rightarrow> nat \<Rightarrow> 'v executor \<Rightarrow> ('v executor \<times> uring_op) option" where
  "tc_async_write c len free1 free2 n cb ex =
     map_option (\<lambda>ex. (ex, Prep_Write (tc_fd c) (ucast len))) (tc_submit free1 free2 n cb ex)"

definition tc_async_read_fixed ::
  "tcp_connection \<Rightarrow> u64 \<Rightarrow> u16 \<Rightarrow> bool \<Rightarrow> bool \<Rightarrow> nat \<Rightarrow> nat \<Rightarrow> 'v executor \<Rightarrow> ('v executor \<times> uring_op) option" where
  "tc_async_read_fixed c len buf_idx free1 free2 n cb ex =
     map_option (\<lambda>ex. (ex, Prep_Read_Fixed (tc_fd c) (ucast len) buf_idx)) (tc_submit free1 free2 n cb ex)"

definition tc_async_write_fixed ::
  "tcp_connection \<Rightarrow> u64 \<Rightarrow> u16 \<Rightarrow> bool \<Rightarrow> bool \<Rightarrow> nat \<Rightarrow> nat \<Rightarrow> 'v executor \<Rightarrow> ('v executor \<times> uring_op) option" where
  "tc_async_write_fixed c len buf_idx free1 free2 n cb ex =
     map_option (\<lambda>ex. (ex, Prep_Write_Fixed (tc_fd c) (ucast len) buf_idx)) (tc_submit free1 free2 n cb ex)"

datatype giving = Closing | Releasing

definition tc_handle :: "tcp_connection \<Rightarrow> fd option" where
  "tc_handle c = (if 0 \<le> tc_fd c then Some (tc_fd c) else None)"

fun tc_give_up :: "giving \<Rightarrow> tcp_connection \<Rightarrow> tcp_connection \<times> fd option" where
  "tc_give_up Closing c = tc_destroy c"
| "tc_give_up Releasing c = (case tc_release c of (c', f) \<Rightarrow> (c', if 0 \<le> f then Some f else None))"

interpretation tcp: unique_owner tc_handle new_tcp_connection tc_move tc_assign tc_give_up Closing "\<lambda>f. 0 \<le> f"
proof
  fix k x x' freed assume "tc_give_up k x = (x', freed)"
  then show "tc_handle x' = None \<and> freed = tc_handle x"
    by (cases k) (auto simp: tc_handle_def tc_destroy_def tc_close_def tc_release_def split: if_splits)
qed (auto simp: tc_handle_def new_tcp_connection_def tc_move_def tc_assign_def tc_close_def split: if_splits)

section \<open>Datagram sockets\<close>

record udp_socket =
  us_fd :: fd

text \<open>A constructor that throws has closed what it had opened; the descriptor it closed is returned with the error.\<close>

datatype socket_error = Socket_Failed | Bind_Failed | Listen_Failed

definition new_udp_socket :: "fd \<Rightarrow> int \<Rightarrow> socket_error \<times> fd option + udp_socket" where
  "new_udp_socket sock bound =
     (if sock < 0 then Inl (Socket_Failed, None)
      else if bound < 0 then Inl (Bind_Failed, Some sock)
      else Inr \<lparr>us_fd = sock\<rparr>)"

definition us_close :: "udp_socket \<Rightarrow> udp_socket \<times> fd option" where
  "us_close s = (if 0 \<le> us_fd s then (s\<lparr>us_fd := -1\<rparr>, Some (us_fd s)) else (s, None))"

definition us_destroy :: "udp_socket \<Rightarrow> udp_socket \<times> fd option" where
  "us_destroy s = us_close s"

definition us_move :: "udp_socket \<Rightarrow> udp_socket \<times> udp_socket" where
  "us_move other = (other\<lparr>us_fd := -1\<rparr>, \<lparr>us_fd = us_fd other\<rparr>)"

definition us_assign :: "udp_socket \<Rightarrow> udp_socket \<Rightarrow> udp_socket \<times> udp_socket \<times> fd option" where
  "us_assign this other =
     (case us_close this of (this, closed) \<Rightarrow> (this\<lparr>us_fd := us_fd other\<rparr>, other\<lparr>us_fd := -1\<rparr>, closed))"

definition us_handle :: "udp_socket \<Rightarrow> fd option" where
  "us_handle s = (if 0 \<le> us_fd s then Some (us_fd s) else None)"

interpretation udp: unique_owner us_handle "\<lambda>f. \<lparr>us_fd = f\<rparr>" us_move us_assign "\<lambda>k :: unit. us_destroy" "()" "\<lambda>f. 0 \<le> f"
  by unfold_locales (auto simp: us_handle_def us_move_def us_assign_def us_destroy_def us_close_def split: if_splits)

section \<open>The listener\<close>

record tcp_listener =
  tl_fd :: fd
  tl_on_accept :: bool

definition new_tcp_listener :: "fd \<Rightarrow> int \<Rightarrow> int \<Rightarrow> socket_error \<times> fd option + tcp_listener" where
  "new_tcp_listener sock bound listening =
     (if sock < 0 then Inl (Socket_Failed, None)
      else if bound < 0 then Inl (Bind_Failed, Some sock)
      else if listening < 0 then Inl (Listen_Failed, Some sock)
      else Inr \<lparr>tl_fd = sock, tl_on_accept = False\<rparr>)"

definition tl_destroy :: "tcp_listener \<Rightarrow> fd option" where
  "tl_destroy l = (if 0 \<le> tl_fd l then Some (tl_fd l) else None)"

text \<open>The callback of the listener is named 0.\<close>

definition tl_submit_accept :: "bool \<Rightarrow> bool \<Rightarrow> 'v executor \<Rightarrow> 'v executor option" where
  "tl_submit_accept free1 free2 ex = submit_op free1 free2 In_Listener (store In_Listener (from_callback (Some 0)) ex)"

definition tl_start :: "bool \<Rightarrow> bool \<Rightarrow> bool \<Rightarrow> tcp_listener \<Rightarrow> 'v executor \<Rightarrow> (tcp_listener \<times> 'v executor) option" where
  "tl_start on_accept free1 free2 l ex = map_option (\<lambda>ex. (l\<lparr>tl_on_accept := on_accept\<rparr>, ex)) (tl_submit_accept free1 free2 ex)"

text \<open>The connection that the accept callback hands on, and what it does after that.\<close>

definition tl_handle_accept :: "tcp_listener \<Rightarrow> fd \<Rightarrow> tcp_connection option" where
  "tl_handle_accept l f = (if tl_on_accept l then Some (new_tcp_connection f) else None)"

definition tl_accepted :: "tcp_listener \<Rightarrow> i32 \<Rightarrow> tcp_connection option" where
  "tl_accepted l res = (if 0 \<le> sint res then tl_handle_accept l (sint res) else None)"

section \<open>Properties\<close>

text \<open>
  C38. Descriptors have one owner: whatever sequence of constructions, moves, assignments, closings,
  releases and destructions a program performs on connections, or on datagram sockets, every descriptor it
  put in is at any time in exactly one object, or was closed or released exactly once.
\<close>
theorem descriptors_owned_once:
  assumes "\<forall>f. Make f \<in> set tcp_ops \<longrightarrow> 0 \<le> f" and "\<forall>f. Make f \<in> set udp_ops \<longrightarrow> 0 \<le> f"
  shows "(let s = fold (owner_step new_tcp_connection tc_move tc_assign tc_give_up Closing) tcp_ops \<lparr>ow_objects = [], ow_given = []\<rparr>
     in held tc_handle s + given_up s = made tcp_ops) \<and>
    (let s = fold (owner_step (\<lambda>f. \<lparr>us_fd = f\<rparr>) us_move us_assign (\<lambda>_ :: unit. us_destroy) ()) udp_ops \<lparr>ow_objects = [], ow_given = []\<rparr>
     in held us_handle s + given_up s = made udp_ops)"
proof -
  have e: "held handle \<lparr>ow_objects = [], ow_given = []\<rparr> = {#}" "given_up \<lparr>ow_objects = [], ow_given = []\<rparr> = {#}" for handle
    by (simp_all add: held_def given_up_def)
  show ?thesis
    using tcp.owners_conserve [of tcp_ops "\<lparr>ow_objects = [], ow_given = []\<rparr>"] udp.owners_conserve [of udp_ops "\<lparr>ow_objects = [], ow_given = []\<rparr>"] assms
    by (simp add: Let_def e)
qed

theorem descriptors_owned_once_witness:
  "let s = fold (owner_step new_tcp_connection tc_move tc_assign tc_give_up Closing)
       [Make 5, Make 6, Move 0, Assign 1 2, Give_Up Releasing 1, Give_Up Closing 1] \<lparr>ow_objects = [], ow_given = []\<rparr>
   in held tc_handle s + given_up s = {#5, 6#} \<and> ow_given s = [(Closing, 6), (Releasing, 5)]"
  using descriptors_owned_once [of "[Make 5, Make 6, Move 0, Assign 1 2, Give_Up Releasing 1, Give_Up Closing 1]" "[]"]
  by (simp add: Let_def new_tcp_connection_def tc_move_def tc_assign_def tc_close_def tc_destroy_def tc_release_def given_def add_mset_commute)

end
