(* ===== verification/Executor.thy ===== *)
theory Executor
  imports Sockets
begin

text \<open>
  Coroutines on the event loop: the steps that the code's coroutines, the wait group and the event loop
  take on the heap of frames and the operations in flight, in every order, and the invariant that
  makes them safe.

  A step is one call of the machinery of \<open>task.h\<close>, \<open>awaitable.h\<close> or \<open>io_uring_context.cpp\<close>: a coroutine
  is called, started, awaits a task, an operation or another coroutine, is woken, finishes or is
  destroyed after it finished, an operation with a callback is submitted, or the kernel completes
  one. Tasks are started or awaited once, as all of the code does.
\<close>

section \<open>Abstract view\<close>

text \<open>Where every coroutine is, and who awaits it.\<close>

definition place :: "('v, 'm) coroutines_scheme \<Rightarrow> coro \<Rightarrow> suspension option" where
  "place cs a = map_option fr_at (crt_frames cs a)"

definition caller_of :: "('v, 'm) coroutines_scheme \<Rightarrow> coro \<Rightarrow> coro option" where
  "caller_of cs a = Option.bind (crt_frames cs a) (\<lambda>f. pr_caller (fr_promise f))"

definition result_of :: "('v, 'm) coroutines_scheme \<Rightarrow> coro \<Rightarrow> 'v outcome option" where
  "result_of cs a = Option.bind (crt_frames cs a) (\<lambda>f. promise_result (fr_promise f))"

lemmas view_defs = place_def caller_of_def result_of_def

text \<open>A coroutine makes progress: it runs, waits for the kernel or a coroutine that will wake it, or for a task that makes progress.\<close>

inductive settled :: "(coro \<Rightarrow> suspension option) \<Rightarrow> coro \<Rightarrow> bool" for w :: "coro \<Rightarrow> suspension option" where
  base: "w a \<in> {Some Running, Some At_Io, Some At_Other} \<Longrightarrow> settled w a"
| chain: "w a = Some (At_Task b) \<Longrightarrow> settled w b \<Longrightarrow> settled w a"

definition linked :: "(coro \<Rightarrow> suspension option) \<Rightarrow> (coro \<Rightarrow> coro option) \<Rightarrow> coro list \<Rightarrow> bool" where
  "linked w cl st \<longleftrightarrow>
     distinct st \<and> (\<forall>a. a \<in> set st \<longleftrightarrow> w a = Some Running) \<and>
     (\<forall>c a. w c = Some (At_Task a) \<longrightarrow> cl a = Some c \<and> w a \<notin> {None, Some At_Start, Some At_End}) \<and>
     (\<forall>a c. cl a = Some c \<longrightarrow> w a \<noteq> Some At_End \<longrightarrow> w c = Some (At_Task a)) \<and>
     (\<forall>a. w a = Some At_Start \<longrightarrow> cl a = None) \<and>
     (\<forall>a. w a = None \<longrightarrow> cl a = None) \<and>
     (\<forall>a. w a \<notin> {None, Some At_Start, Some At_End} \<longrightarrow> settled w a)"

lemma settled_mono:
  assumes "settled w a" and "\<And>b. w b \<in> {Some Running, Some At_Io, Some At_Other} \<Longrightarrow> settled w' b"
    and "\<And>b c. w b = Some (At_Task c) \<Longrightarrow> w' b = Some (At_Task c) \<or> settled w' b"
  shows "settled w' a"
  using assms(1)
proof (induction rule: settled.induct)
  case (chain a b)
  then show ?case using assms(3) [OF chain.hyps(1)] by (auto intro: settled.chain)
qed (rule assms(2))

text \<open>Replacing the place of coroutines that were settled by one where they are settled keeps the others settled.\<close>

lemma settled_upd:
  assumes "settled w a" and "settled (w(b := s)) b"
  shows "settled (w(b := s)) a"
  using assms(1)
proof (rule settled_mono)
  fix x assume "w x \<in> {Some Running, Some At_Io, Some At_Other}"
  then show "settled (w(b := s)) x" using assms(2) by (cases "x = b") (auto intro: settled.base)
next
  fix x c assume "w x = Some (At_Task c)"
  then show "(w(b := s)) x = Some (At_Task c) \<or> settled (w(b := s)) x" using assms(2) by (cases "x = b") simp_all
qed

lemma linkedD:
  assumes "linked w cl st"
  shows "distinct st" and "a \<in> set st \<longleftrightarrow> w a = Some Running"
    and "w c = Some (At_Task a) \<Longrightarrow> cl a = Some c" and "w c = Some (At_Task a) \<Longrightarrow> w a \<notin> {None, Some At_Start, Some At_End}"
    and "cl a = Some c \<Longrightarrow> w a \<noteq> Some At_End \<Longrightarrow> w c = Some (At_Task a)"
    and "w a = Some At_Start \<Longrightarrow> cl a = None" and "w a = None \<Longrightarrow> cl a = None"
    and "w a \<notin> {None, Some At_Start, Some At_End} \<Longrightarrow> settled w a"
  using assms unfolding linked_def by blast+

lemma linkedI:
  assumes "distinct st" and "\<And>a. a \<in> set st \<longleftrightarrow> w a = Some Running"
    and "\<And>c a. w c = Some (At_Task a) \<Longrightarrow> cl a = Some c \<and> w a \<notin> {None, Some At_Start, Some At_End}"
    and "\<And>a c. cl a = Some c \<Longrightarrow> w a \<noteq> Some At_End \<Longrightarrow> w c = Some (At_Task a)"
    and "\<And>a. w a = Some At_Start \<Longrightarrow> cl a = None" and "\<And>a. w a = None \<Longrightarrow> cl a = None"
    and "\<And>a. w a \<notin> {None, Some At_Start, Some At_End} \<Longrightarrow> settled w a"
  shows "linked w cl st"
  using assms unfolding linked_def by blast

lemma linked_new:
  assumes l: "linked w cl st" and "w a = None"
  shows "linked (w(a \<mapsto> At_Start)) cl st"
proof (rule linkedI)
  fix x assume x: "(w(a \<mapsto> At_Start)) x \<notin> {None, Some At_Start, Some At_End}"
  then have "settled w x" using linkedD(8) [OF l, of x] by (auto split: if_splits)
  then show "settled (w(a \<mapsto> At_Start)) x"
  proof (rule settled_mono)
    fix b assume b: "w b \<in> {Some Running, Some At_Io, Some At_Other}"
    then have "b \<noteq> a" using assms(2) by auto
    then show "settled (w(a \<mapsto> At_Start)) b" using b by (intro settled.base) simp
  qed (use assms(2) in auto)
next
  fix c b assume "(w(a \<mapsto> At_Start)) c = Some (At_Task b)"
  then have "w c = Some (At_Task b)" by (auto split: if_splits)
  then show "cl b = Some c \<and> (w(a \<mapsto> At_Start)) b \<notin> {None, Some At_Start, Some At_End}"
    using linkedD(3,4) [OF l, of c b] assms(2) by auto
next
  fix b c assume c: "cl b = Some c" and "(w(a \<mapsto> At_Start)) b \<noteq> Some At_End"
  then have "b \<noteq> a" using linkedD(7) [OF l assms(2)] by auto
  then have "w c = Some (At_Task b)" using linkedD(5) [OF l c] \<open>(w(a \<mapsto> At_Start)) b \<noteq> Some At_End\<close> by simp
  then show "(w(a \<mapsto> At_Start)) c = Some (At_Task b)" using assms(2) by auto
next
  show "distinct st" by (rule linkedD(1) [OF l])
next
  fix x show "x \<in> set (st) \<longleftrightarrow> (w(a \<mapsto> At_Start)) x = Some Running" using linkedD(2) [OF l, of x] assms(2) by auto
next
  fix x assume "(w(a \<mapsto> At_Start)) x = Some At_Start"
  then show "(cl) x = None" using linkedD(6,7) [OF l, of x] assms(2) by (auto split: if_splits)
next
  fix x assume "(w(a \<mapsto> At_Start)) x = None"
  then show "(cl) x = None" using linkedD(7) [OF l, of x] assms(2) by (auto split: if_splits)
qed

text \<open>A suspended coroutine that waits for no task is resumed.\<close>

lemma linked_resume:
  assumes l: "linked w cl st" and s: "w a \<in> {Some At_Start, Some At_Io, Some At_Other}"
  shows "linked (w(a \<mapsto> Running)) cl (a # st)"
proof (rule linkedI)
  fix x assume x: "(w(a \<mapsto> Running)) x \<notin> {None, Some At_Start, Some At_End}"
  have "settled (w(a \<mapsto> Running)) a" by (rule settled.base) simp
  then show "settled (w(a \<mapsto> Running)) x" using x linkedD(8) [OF l, of x] by (cases "x = a") (auto intro: settled_upd)
next
  fix c b assume "(w(a \<mapsto> Running)) c = Some (At_Task b)"
  then have "w c = Some (At_Task b)" by (auto split: if_splits)
  then show "cl b = Some c \<and> (w(a \<mapsto> Running)) b \<notin> {None, Some At_Start, Some At_End}"
    using linkedD(3,4) [OF l, of c b] by auto
next
  fix b c assume c: "cl b = Some c" and b: "(w(a \<mapsto> Running)) b \<noteq> Some At_End"
  have "w b \<noteq> Some At_End" using b s by (cases "b = a") auto
  then have "w c = Some (At_Task b)" by (rule linkedD(5) [OF l c])
  then show "(w(a \<mapsto> Running)) c = Some (At_Task b)" using s by auto
next
  show "distinct (a # st)" using linkedD(1) [OF l] linkedD(2) [OF l, of a] s by auto
next
  fix x show "x \<in> set (a # st) \<longleftrightarrow> (w(a \<mapsto> Running)) x = Some Running" using linkedD(2) [OF l, of x] s by auto
next
  fix x assume "(w(a \<mapsto> Running)) x = Some At_Start"
  then show "(cl) x = None" using linkedD(6,7) [OF l, of x] s by (auto split: if_splits)
next
  fix x assume "(w(a \<mapsto> Running)) x = None"
  then show "(cl) x = None" using linkedD(7) [OF l, of x] s by (auto split: if_splits)
qed

lemma linked_suspend:
  assumes l: "linked w cl (a # st)" and s: "s \<in> {At_Io, At_Other}"
  shows "linked (w(a \<mapsto> s)) cl st"
proof -
  have run: "w a = Some Running" and nin: "a \<notin> set st" using linkedD(1,2) [OF l] by auto
  show ?thesis
  proof (rule linkedI)
    fix x assume x: "(w(a \<mapsto> s)) x \<notin> {None, Some At_Start, Some At_End}"
    have "settled (w(a \<mapsto> s)) a" by (rule settled.base) (use s in auto)
    then show "settled (w(a \<mapsto> s)) x" using x linkedD(8) [OF l, of x] by (cases "x = a") (auto intro: settled_upd)
  next
    fix x show "x \<in> set st \<longleftrightarrow> (w(a \<mapsto> s)) x = Some Running"
      using linkedD(2) [OF l, of x] nin s by auto
  next
    fix c b assume "(w(a \<mapsto> s)) c = Some (At_Task b)"
    then have "w c = Some (At_Task b)" using s by (auto split: if_splits)
    then show "cl b = Some c \<and> (w(a \<mapsto> s)) b \<notin> {None, Some At_Start, Some At_End}"
      using linkedD(3,4) [OF l, of c b] s by auto
  next
    fix b c assume c: "cl b = Some c" and b: "(w(a \<mapsto> s)) b \<noteq> Some At_End"
    have "w b \<noteq> Some At_End" using b run by (cases "b = a") auto
    then have "w c = Some (At_Task b)" by (rule linkedD(5) [OF l c])
    then show "(w(a \<mapsto> s)) c = Some (At_Task b)" using run by auto
  next
    show "distinct st" using linkedD(1) [OF l] linkedD(2) [OF l, of a] s by auto
  next
    fix x assume "(w(a \<mapsto> s)) x = Some At_Start"
    then show "(cl) x = None" using linkedD(6,7) [OF l, of x] s by (auto split: if_splits)
  next
    fix x assume "(w(a \<mapsto> s)) x = None"
    then show "(cl) x = None" using linkedD(7) [OF l, of x] s by (auto split: if_splits)
  qed
qed

text \<open>The innermost coroutine awaits a task that has not started.\<close>

lemma linked_await:
  assumes l: "linked w cl (c # st)" and s: "w a = Some At_Start"
  shows "linked (w(c \<mapsto> At_Task a, a \<mapsto> Running)) (cl(a \<mapsto> c)) (a # st)"
proof -
  have run: "w c = Some Running" and nin: "c \<notin> set st" using linkedD(1,2) [OF l] by auto
  have ne: "a \<noteq> c" using run s by auto
  let ?w = "w(c \<mapsto> At_Task a, a \<mapsto> Running)"
  have set_a: "settled ?w a" by (rule settled.base) simp
  moreover have "?w c = Some (At_Task a)" using ne by simp
  ultimately have set_c: "settled ?w c" using settled.chain [of ?w c a] by blast
  show ?thesis
  proof (rule linkedI)
    show "distinct (a # st)" using linkedD(1) [OF l] linkedD(2) [OF l, of a] s by auto
  next
    fix x show "x \<in> set (a # st) \<longleftrightarrow> ?w x = Some Running"
      using linkedD(2) [OF l, of x] nin ne by auto
  next
    fix x assume x: "?w x \<notin> {None, Some At_Start, Some At_End}"
    show "settled ?w x"
    proof (cases "x = a \<or> x = c")
      case True
      then show ?thesis using set_a set_c by blast
    next
      case False
      then have "settled w x" using x linkedD(8) [OF l, of x] by simp
      then show ?thesis
      proof (rule settled_mono)
        fix b assume b: "w b \<in> {Some Running, Some At_Io, Some At_Other}"
        then have "b \<noteq> a" using s by auto
        then show "settled ?w b" using b set_c by (cases "b = c") (auto intro: settled.base)
      qed (use run s in auto)
    qed
  next
    fix d b assume d: "?w d = Some (At_Task b)"
    show "(cl(a \<mapsto> c)) b = Some d \<and> ?w b \<notin> {None, Some At_Start, Some At_End}"
    proof (cases "d = c")
      case True
      then show ?thesis using d ne by auto
    next
      case False
      then have wd: "w d = Some (At_Task b)" using d by (auto split: if_splits)
      then have "b \<noteq> a" using linkedD(4) [OF l wd] s by auto
      then show ?thesis using linkedD(3,4) [OF l wd] by auto
    qed
  next
    fix b d assume d: "(cl(a \<mapsto> c)) b = Some d" and b: "?w b \<noteq> Some At_End"
    show "?w d = Some (At_Task b)"
    proof (cases "b = a")
      case True
      then show ?thesis using d ne by simp
    next
      case False
      then have "cl b = Some d" "w b \<noteq> Some At_End" using d b run by (auto split: if_splits)
      then have "w d = Some (At_Task b)" by (rule linkedD(5) [OF l])
      then show ?thesis using run s by auto
    qed
  next
    fix x assume "(w(c \<mapsto> At_Task a, a \<mapsto> Running)) x = Some At_Start"
    then show "(cl(a \<mapsto> c)) x = None" using linkedD(6,7) [OF l, of x] s run by (auto split: if_splits)
  next
    fix x assume "(w(c \<mapsto> At_Task a, a \<mapsto> Running)) x = None"
    then show "(cl(a \<mapsto> c)) x = None" using linkedD(7) [OF l, of x] s run by (auto split: if_splits)
  qed
qed

lemma settled_away:
  assumes "settled w x" and "x \<noteq> a" and "w a = Some Running" and "\<And>y. w y = Some (At_Task a) \<Longrightarrow> settled w' y"
    and "\<And>y. y \<noteq> a \<Longrightarrow> w y \<noteq> Some (At_Task a) \<Longrightarrow> w' y = w y"
  shows "settled w' x"
  using assms(1,2)
proof (induction rule: settled.induct)
  case (base x)
  then have "w' x = w x" using assms(5) by auto
  then show ?case using base by (intro settled.base) simp
next
  case (chain x b)
  show ?case
  proof (cases "b = a")
    case True
    then show ?thesis using assms(4) chain.hyps(1) by simp
  next
    case False
    then have "w' x = w x" using assms(5) chain by auto
    then show ?thesis using chain False by (auto intro: settled.chain)
  qed
qed

text \<open>The innermost coroutine finishes, without and with a coroutine that awaits it.\<close>

lemma linked_finish:
  assumes l: "linked w cl (a # st)" and n: "cl a = None"
  shows "linked (w(a \<mapsto> At_End)) cl st"
proof -
  have run: "w a = Some Running" and nin: "a \<notin> set st" using linkedD(1,2) [OF l] by auto
  have nobody: "w y \<noteq> Some (At_Task a)" for y using linkedD(3) [OF l, of y a] n by auto
  show ?thesis
  proof (rule linkedI)
    fix x show "x \<in> set st \<longleftrightarrow> (w(a \<mapsto> At_End)) x = Some Running" using linkedD(2) [OF l, of x] nin by auto
  next
    fix x assume "(w(a \<mapsto> At_End)) x \<notin> {None, Some At_Start, Some At_End}"
    then have "settled w x" "x \<noteq> a" using linkedD(8) [OF l, of x] by (auto split: if_splits)
    then show "settled (w(a \<mapsto> At_End)) x" by (rule settled_away [where w = w and a = a]) (simp_all add: nobody run)
  next
    fix c b assume "(w(a \<mapsto> At_End)) c = Some (At_Task b)"
    then have wc: "w c = Some (At_Task b)" by (auto split: if_splits)
    then show "cl b = Some c \<and> (w(a \<mapsto> At_End)) b \<notin> {None, Some At_Start, Some At_End}"
      using linkedD(3,4) [OF l wc] nobody by auto
  next
    fix b c assume c: "cl b = Some c" and b: "(w(a \<mapsto> At_End)) b \<noteq> Some At_End"
    then have "w b \<noteq> Some At_End" by (auto split: if_splits)
    then have "w c = Some (At_Task b)" by (rule linkedD(5) [OF l c])
    then show "(w(a \<mapsto> At_End)) c = Some (At_Task b)" using run by auto
  next
    show "distinct st" using linkedD(1) [OF l] linkedD(2) [OF l, of a] run by auto
  next
    fix x assume "(w(a \<mapsto> At_End)) x = Some At_Start"
    then show "(cl) x = None" using linkedD(6,7) [OF l, of x] run by (auto split: if_splits)
  next
    fix x assume "(w(a \<mapsto> At_End)) x = None"
    then show "(cl) x = None" using linkedD(7) [OF l, of x] run by (auto split: if_splits)
  qed
qed

lemma linked_finish_caller:
  assumes l: "linked w cl (a # st)" and c: "cl a = Some c"
  shows "w c = Some (At_Task a)" and "linked (w(a \<mapsto> At_End, c \<mapsto> Running)) cl (c # st)"
proof -
  have run: "w a = Some Running" and nin: "a \<notin> set st" using linkedD(1,2) [OF l] by auto
  show wc: "w c = Some (At_Task a)" by (rule linkedD(5) [OF l c]) (simp add: run)
  then have ne: "c \<noteq> a" using run by auto
  have only: "y = c" if "w y = Some (At_Task a)" for y using linkedD(3) [OF l that] c by simp
  let ?w = "w(a \<mapsto> At_End, c \<mapsto> Running)"
  show "linked ?w cl (c # st)"
  proof (rule linkedI)
    show "distinct (c # st)" using linkedD(1) [OF l] linkedD(2) [OF l, of c] wc by auto
  next
    fix x show "x \<in> set (c # st) \<longleftrightarrow> ?w x = Some Running" using linkedD(2) [OF l, of x] nin ne by auto
  next
    fix x assume x: "?w x \<notin> {None, Some At_Start, Some At_End}"
    have sc: "settled ?w c" by (rule settled.base) simp
    show "settled ?w x"
    proof (cases "x = c")
      case False
      then have "settled w x" "x \<noteq> a" using x linkedD(8) [OF l, of x] by (auto split: if_splits)
      then show ?thesis
      proof (rule settled_away [where w = w and a = a])
        show "w a = Some Running" by (rule run)
      next
        fix y assume "w y = Some (At_Task a)"
        then have "y = c" by (rule only)
        then show "settled ?w y" using sc by simp
      next
        fix y assume "y \<noteq> a" "w y \<noteq> Some (At_Task a)"
        then have "y \<noteq> c" using wc by auto
        then show "?w y = w y" using \<open>y \<noteq> a\<close> by simp
      qed
    qed (use sc in simp)
  next
    fix d b assume d: "?w d = Some (At_Task b)"
    then have wd: "w d = Some (At_Task b)" "d \<noteq> c" by (auto split: if_splits)
    then have "b \<noteq> a" using only by auto
    then show "cl b = Some d \<and> ?w b \<notin> {None, Some At_Start, Some At_End}" using linkedD(3,4) [OF l wd(1)] by auto
  next
    fix b d assume d: "cl b = Some d" and b: "?w b \<noteq> Some At_End"
    then have "b \<noteq> a" using ne by auto
    have "w b \<noteq> Some At_End" using b wc by (cases "b = c") (auto simp: \<open>b \<noteq> a\<close>)
    then have "w d = Some (At_Task b)" by (rule linkedD(5) [OF l d])
    then show "?w d = Some (At_Task b)" using run wc \<open>b \<noteq> a\<close> by auto
  next
    fix x assume "(w(a \<mapsto> At_End, c \<mapsto> Running)) x = Some At_Start"
    then show "(cl) x = None" using linkedD(6,7) [OF l, of x] wc by (auto split: if_splits)
  next
    fix x assume "(w(a \<mapsto> At_End, c \<mapsto> Running)) x = None"
    then show "(cl) x = None" using linkedD(7) [OF l, of x] wc by (auto split: if_splits)
  qed
qed

lemma linked_destroy:
  assumes l: "linked w cl st" and e: "w a = Some At_End"
  shows "linked (w(a := None)) (cl(a := None)) st"
proof (rule linkedI)
  fix x assume "(w(a := None)) x \<notin> {None, Some At_Start, Some At_End}"
  then have "settled w x" using linkedD(8) [OF l, of x] by (auto split: if_splits)
  then show "settled (w(a := None)) x"
  proof (rule settled_mono)
    fix b assume b: "w b \<in> {Some Running, Some At_Io, Some At_Other}"
    then have "b \<noteq> a" using e by auto
    then show "settled (w(a := None)) b" using b by (intro settled.base) simp
  qed (use e in auto)
next
  fix c b assume "(w(a := None)) c = Some (At_Task b)"
  then have wc: "w c = Some (At_Task b)" by (auto split: if_splits)
  then have "b \<noteq> a" using linkedD(4) [OF l wc] e by auto
  then show "(cl(a := None)) b = Some c \<and> (w(a := None)) b \<notin> {None, Some At_Start, Some At_End}" using linkedD(3,4) [OF l wc] by auto
next
  fix b c assume "(cl(a := None)) b = Some c" and "(w(a := None)) b \<noteq> Some At_End"
  then have "cl b = Some c" "w b \<noteq> Some At_End" by (auto split: if_splits)
  then have "w c = Some (At_Task b)" by (rule linkedD(5) [OF l])
  then show "(w(a := None)) c = Some (At_Task b)" using e by auto
next
  show "distinct st" by (rule linkedD(1) [OF l])
next
  fix x show "x \<in> set (st) \<longleftrightarrow> (w(a := None)) x = Some Running" using linkedD(2) [OF l, of x] e by auto
next
  fix x assume "(w(a := None)) x = Some At_Start"
  then show "(cl(a := None)) x = None" using linkedD(6,7) [OF l, of x] e by (auto split: if_splits)
next
  fix x assume "(w(a := None)) x = None"
  then show "(cl(a := None)) x = None" using linkedD(7) [OF l, of x] e by (auto split: if_splits)
qed

section \<open>Operations on the view\<close>

lemma resume_Some_iff:
  "resume a cs = Some cs' \<longleftrightarrow>
     (\<exists>f. crt_frames cs a = Some f \<and> fr_at f \<noteq> Running \<and> fr_at f \<noteq> At_End \<and>
        cs' = cs\<lparr>crt_frames := (crt_frames cs)(a \<mapsto> f\<lparr>fr_at := Running\<rparr>), crt_stack := a # crt_stack cs\<rparr>)"
  by (auto simp: resume_def set_frame_def split: option.splits)

lemma suspend_Some_iff:
  "suspend s cs = Some cs' \<longleftrightarrow>
     (\<exists>a st f. crt_stack cs = a # st \<and> crt_frames cs a = Some f \<and>
        cs' = cs\<lparr>crt_frames := (crt_frames cs)(a \<mapsto> f\<lparr>fr_at := s\<rparr>), crt_stack := st\<rparr>)"
  by (auto simp: suspend_def set_frame_def split: option.splits list.splits)

lemma view_set [simp]:
  "place (cs\<lparr>crt_frames := fs, crt_stack := st\<rparr>) = (\<lambda>a. map_option fr_at (fs a))"
  "caller_of (cs\<lparr>crt_frames := fs, crt_stack := st\<rparr>) = (\<lambda>a. Option.bind (fs a) (\<lambda>f. pr_caller (fr_promise f)))"
  "result_of (cs\<lparr>crt_frames := fs, crt_stack := st\<rparr>) = (\<lambda>a. Option.bind (fs a) (\<lambda>f. promise_result (fr_promise f)))"
  by (simp_all add: fun_eq_iff view_defs)

lemma resume_view:
  assumes "resume a cs = Some cs'"
  shows "place cs' = (place cs)(a \<mapsto> Running)" and "caller_of cs' = caller_of cs" and "result_of cs' = result_of cs"
    and "crt_stack cs' = a # crt_stack cs" and "coroutines.more cs' = coroutines.more cs"
  using assms by (auto simp: resume_Some_iff view_defs fun_eq_iff)

lemma suspend_view:
  assumes "suspend s cs = Some cs'"
  obtains a st where "crt_stack cs = a # st" and "crt_stack cs' = st" and "place cs' = (place cs)(a \<mapsto> s)" and "caller_of cs' = caller_of cs"
    and "result_of cs' = result_of cs" and "coroutines.more cs' = coroutines.more cs"
proof -
  obtain a st f where *: "crt_stack cs = a # st" "crt_frames cs a = Some f"
    "cs' = cs\<lparr>crt_frames := (crt_frames cs)(a \<mapsto> f\<lparr>fr_at := s\<rparr>), crt_stack := st\<rparr>"
    using assms by (auto simp: suspend_Some_iff)
  then have "place cs' = (place cs)(a \<mapsto> s)" "caller_of cs' = caller_of cs" "result_of cs' = result_of cs" "crt_stack cs' = st"
    by (auto simp: view_defs fun_eq_iff)
  then show thesis using * by (intro that) simp_all
qed

lemma get_return_object_view:
  assumes "get_return_object a cs = Some cs'"
  shows "place cs a = None" and "place cs' = (place cs)(a \<mapsto> At_Start)" and "caller_of cs' = caller_of cs" and "result_of cs' = result_of cs"
    and "crt_stack cs' = crt_stack cs" and "coroutines.more cs' = coroutines.more cs"
  using assms by (auto simp: get_return_object_def set_frame_def new_promise_def promise_result_def view_defs fun_eq_iff split: option.splits)

lemma await_task_view:
  assumes "await_task a cs = Some cs'" and "place cs a = Some At_Start" and "crt_stack cs = c # st" and "place cs c = Some Running"
  shows "place cs' = (place cs)(c \<mapsto> At_Task a, a \<mapsto> Running)" and "caller_of cs' = (caller_of cs)(a \<mapsto> c)" and "result_of cs' = result_of cs"
    and "crt_stack cs' = a # st" and "coroutines.more cs' = coroutines.more cs"
proof -
  have ne: "a \<noteq> c" using assms(2,4) by auto
  obtain cs1 cs2 where s: "suspend (At_Task a) cs = Some cs1" and t: "task_await_suspend (Some a) c cs1 = Some (cs2, a)" and r: "resume a cs2 = Some cs'"
    using assms(1,3) by (auto simp: await_task_def bind_eq_Some_conv task_await_suspend_def split: option.splits)
  have v1: "place cs1 = (place cs)(c \<mapsto> At_Task a)" "caller_of cs1 = caller_of cs" "result_of cs1 = result_of cs" "crt_stack cs1 = st"
    "coroutines.more cs1 = coroutines.more cs"
    using suspend_view [OF s] assms(3) by auto
  have v2: "place cs2 = place cs1" "caller_of cs2 = (caller_of cs1)(a \<mapsto> c)" "result_of cs2 = result_of cs1" "crt_stack cs2 = crt_stack cs1"
    "coroutines.more cs2 = coroutines.more cs1"
    using t by (auto simp: task_await_suspend_def set_frame_def view_defs fun_eq_iff promise_result_def split: option.splits)
  show "place cs' = (place cs)(c \<mapsto> At_Task a, a \<mapsto> Running)" and "caller_of cs' = (caller_of cs)(a \<mapsto> c)" and "result_of cs' = result_of cs"
    and "crt_stack cs' = a # st" and "coroutines.more cs' = coroutines.more cs"
    using resume_view [OF r] v1 v2 by simp_all
qed

lemma promise_result_store: "promise_result pr = None \<Longrightarrow> promise_result (store_outcome r pr) = Some r"
  by (cases r) (auto simp: promise_result_def return_value_def unhandled_exception_def split: option.splits)

lemma pr_caller_store [simp]: "pr_caller (store_outcome r pr) = pr_caller pr"
  by (cases r) (simp_all add: return_value_def unhandled_exception_def)

text \<open>Finishing works when nobody awaits the coroutine, or the one that awaits it is suspended on a task.\<close>

lemma finish_Some:
  assumes st: "crt_stack cs = a # st" and run: "place cs a = Some Running" and res: "result_of cs a = None"
    and cl: "\<And>c. caller_of cs a = Some c \<Longrightarrow> place cs c = Some (At_Task a)"
  obtains cs' where "finish r cs = Some cs'"
    and "place cs' = (case caller_of cs a of None \<Rightarrow> (place cs)(a \<mapsto> At_End) | Some c \<Rightarrow> (place cs)(a \<mapsto> At_End, c \<mapsto> Running))"
    and "caller_of cs' = caller_of cs" and "result_of cs' = (result_of cs)(a \<mapsto> r)"
    and "crt_stack cs' = (case caller_of cs a of None \<Rightarrow> st | Some c \<Rightarrow> c # st)" and "coroutines.more cs' = coroutines.more cs"
proof -
  obtain f where f: "crt_frames cs a = Some f" using run by (auto simp: place_def)
  let ?f = "f\<lparr>fr_promise := store_outcome r (fr_promise f)\<rparr>"
  define cs1 where "cs1 = cs\<lparr>crt_frames := (crt_frames cs)(a \<mapsto> ?f\<lparr>fr_at := At_End\<rparr>), crt_stack := st\<rparr>"
  have s: "suspend At_End (set_frame a ?f cs) = Some cs1" using st by (simp add: suspend_def set_frame_def cs1_def)
  have v1: "place cs1 = (place cs)(a \<mapsto> At_End)" "caller_of cs1 = caller_of cs" "result_of cs1 = (result_of cs)(a \<mapsto> r)" "crt_stack cs1 = st"
    using f res by (auto simp: cs1_def view_defs fun_eq_iff promise_result_store)
  have fin: "finish r cs = final_suspend (caller_of cs a) cs1" using st f s by (simp add: finish_def caller_of_def)
  show thesis
  proof (cases "caller_of cs a")
    case None
    then show thesis using fin v1 by (intro that [of cs1]) (simp_all add: final_suspend_def cs1_def)
  next
    case (Some c)
    have pc: "place cs c = Some (At_Task a)" by (rule cl [OF Some])
    then have "c \<noteq> a" using run by auto
    then have "place cs1 c = Some (At_Task a)" using pc v1(1) by simp
    then obtain g where "crt_frames cs1 c = Some g" "fr_at g = At_Task a" by (auto simp: place_def)
    then have "resume c cs1 \<noteq> None" by (simp add: resume_def)
    then obtain cs' where rc: "resume c cs1 = Some cs'" by blast
    show thesis by (rule that [of cs']) (use fin Some rc resume_view [OF rc] v1 in \<open>simp_all add: final_suspend_def cs1_def\<close>)
  qed
qed

lemma frame_destroy_end:
  assumes "place cs a = Some At_End"
  shows "frame_destroy a cs = Some (free_frame a cs)"
  using assms by (subst frame_destroy.simps) (auto simp: place_def split: option.splits)

lemma free_frame_view:
  "place (free_frame a cs) = (place cs)(a := None)" "caller_of (free_frame a cs) = (caller_of cs)(a := None)"
  "result_of (free_frame a cs) = (result_of cs)(a := None)" "crt_stack (free_frame a cs) = crt_stack cs"
  "coroutines.more (free_frame a cs) = coroutines.more cs"
  by (auto simp: free_frame_def view_defs fun_eq_iff)

section \<open>Steps\<close>

text \<open>
  The calls that the callback of a completion makes are steps between the completion and \<open>step_returned\<close>;
  a callback and the loop itself run with no coroutine on the stack.
\<close>

inductive ex_step :: "'v executor \<Rightarrow> 'v executor \<Rightarrow> bool" where
  step_call: "get_return_object a ex = Some ex' \<Longrightarrow> ex_step ex ex'"
| step_start: "place ex a = Some At_Start \<Longrightarrow> task_start (Some a) ex = Some ex' \<Longrightarrow> ex_step ex ex'"
| step_await: "place ex a = Some At_Start \<Longrightarrow> await_task a ex = Some ex' \<Longrightarrow> ex_step ex ex'"
| step_await_io: "await_io free1 free2 ex = Some ex' \<Longrightarrow> ex_step ex ex'"
| step_wait: "suspend At_Other ex = Some ex' \<Longrightarrow> ex_step ex ex'"
| step_wake: "place ex a = Some At_Other \<Longrightarrow> resume a ex = Some ex' \<Longrightarrow> ex_step ex ex'"
| step_finish: "finish r ex = Some ex' \<Longrightarrow> ex_step ex ex'"
| step_destroy: "task_done ex (Some a) = Some True \<Longrightarrow> task_destroy (Some a) ex = Some ex' \<Longrightarrow> ex_step ex ex'"
| step_submit: "tc_submit free1 free2 n cb ex = Some ex' \<Longrightarrow> ex_step ex ex'"
| step_listen: "In_Listener \<notin> set (ex_ops ex) \<Longrightarrow> tl_submit_accept free1 free2 ex = Some ex' \<Longrightarrow> ex_step ex ex'"
| step_complete: "crt_stack ex = [] \<Longrightarrow> ex_calling ex = None \<Longrightarrow> p \<in> set (ex_ops ex) \<Longrightarrow>
    process_cqe (Some p) res (ex\<lparr>ex_ops := remove1 p (ex_ops ex)\<rparr>) = Some (ex', cb) \<Longrightarrow>
    ex_step ex (ex'\<lparr>ex_calling := if cb = None then None else Some p\<rparr>)"
| step_returned: "crt_stack ex = [] \<Longrightarrow> ex_calling ex = Some p \<Longrightarrow> after_callback p ex = Some ex' \<Longrightarrow>
    ex_step ex (ex'\<lparr>ex_calling := None\<rparr>)"

definition idle_executor :: "'v executor" where
  "idle_executor = \<lparr>crt_frames = (\<lambda>_. None), crt_stack = [], ex_awaitable = (\<lambda>_. new_completion), ex_owned = (\<lambda>_. None),
     ex_listener = new_completion, ex_ops = [], ex_calling = None\<rparr>"

inductive ex_reachable :: "'v executor \<Rightarrow> bool" where
  ex_idle: "ex_reachable idle_executor"
| ex_more: "ex_reachable ex \<Longrightarrow> ex_step ex ex' \<Longrightarrow> ex_reachable ex'"

section \<open>Invariant\<close>

text \<open>The finished coroutines are those with an outcome.\<close>

definition coroutines_ok :: "('v, 'm) coroutines_scheme \<Rightarrow> bool" where
  "coroutines_ok cs \<longleftrightarrow> linked (place cs) (caller_of cs) (crt_stack cs) \<and> (\<forall>a. result_of cs a \<noteq> None \<longleftrightarrow> place cs a = Some At_End)"

text \<open>The completions in flight: one for every coroutine that waits for the kernel, one for every owned callback, one for the listener.\<close>

definition in_flight_ok :: "'v executor \<Rightarrow> bool" where
  "in_flight_ok ex \<longleftrightarrow>
     distinct (ex_ops ex) \<and>
     (\<forall>n. ex_calling ex = Some (Owned n) \<longrightarrow> Owned n \<notin> set (ex_ops ex)) \<and> (\<forall>a. ex_calling ex \<noteq> Some (In_Frame a)) \<and>
     (\<forall>n. ex_owned ex n \<noteq> None \<longleftrightarrow> Owned n \<in> set (ex_ops ex) \<or> ex_calling ex = Some (Owned n)) \<and>
     (\<forall>n c. ex_owned ex n = Some c \<longrightarrow> cm_type c = Callback \<and> cm_owns c \<and> cm_callback c \<noteq> None) \<and>
     (In_Listener \<in> set (ex_ops ex) \<or> ex_calling ex = Some In_Listener \<longrightarrow>
        cm_type (ex_listener ex) = Callback \<and> \<not> cm_owns (ex_listener ex) \<and> cm_callback (ex_listener ex) \<noteq> None)"

definition waits_ok :: "'v executor \<Rightarrow> bool" where
  "waits_ok ex \<longleftrightarrow>
     (\<forall>a. In_Frame a \<in> set (ex_ops ex) \<longleftrightarrow> place ex a = Some At_Io) \<and>
     (\<forall>a. place ex a = Some At_Io \<longrightarrow> cm_type (ex_awaitable ex a) = Coroutine \<and> cm_handle (ex_awaitable ex a) = Some a)"

definition ex_ok :: "'v executor \<Rightarrow> bool" where
  "ex_ok ex \<longleftrightarrow> coroutines_ok ex \<and> in_flight_ok ex \<and> waits_ok ex"

lemma ex_okI: "coroutines_ok ex \<Longrightarrow> in_flight_ok ex \<Longrightarrow> waits_ok ex \<Longrightarrow> ex_ok ex"
  by (simp add: ex_ok_def)

text \<open>The other fields depend on the extension of the record only.\<close>

lemma more_fields:
  assumes "coroutines.more (ex :: 'v executor) = coroutines.more ex'"
  shows "ex_ops ex = ex_ops ex'" and "ex_awaitable ex = ex_awaitable ex'" and "ex_owned ex = ex_owned ex'" and "ex_listener ex = ex_listener ex'"
    and "ex_calling ex = ex_calling ex'"
  using assms by (cases ex; cases ex'; simp)+

lemma in_flight_ok_cong:
  assumes "coroutines.more (ex :: 'v executor) = coroutines.more ex'"
  shows "in_flight_ok ex \<longleftrightarrow> in_flight_ok ex'"
  using more_fields [OF assms] by (simp add: in_flight_ok_def)

text \<open>A step on the coroutines alone that moves none of them to or from an operation of the kernel.\<close>

lemma waits_ok_cong:
  assumes "coroutines.more (ex :: 'v executor) = coroutines.more ex'" and "waits_ok ex"
    and "\<And>a. place ex' a = Some At_Io \<longleftrightarrow> place ex a = Some At_Io"
  shows "waits_ok ex'"
  using assms(2,3) more_fields [OF assms(1)] by (simp add: waits_ok_def)

lemma place_fields [simp]:
  "place (ex\<lparr>ex_ops := os\<rparr>) = place ex" "place (ex\<lparr>ex_awaitable := aw\<rparr>) = place ex" "place (ex\<lparr>ex_owned := ow\<rparr>) = place ex"
  "place (ex\<lparr>ex_listener := li\<rparr>) = place ex" "place (ex\<lparr>ex_calling := ca\<rparr>) = place ex"
  by (simp_all add: place_def fun_eq_iff)

lemma coroutines_ok_fields [simp]:
  "coroutines_ok (ex\<lparr>ex_ops := os\<rparr>) = coroutines_ok ex" "coroutines_ok (ex\<lparr>ex_awaitable := aw\<rparr>) = coroutines_ok ex"
  "coroutines_ok (ex\<lparr>ex_owned := ow\<rparr>) = coroutines_ok ex" "coroutines_ok (ex\<lparr>ex_listener := li\<rparr>) = coroutines_ok ex"
  "coroutines_ok (ex\<lparr>ex_calling := ca\<rparr>) = coroutines_ok ex"
  by (simp_all add: coroutines_ok_def view_defs [abs_def])

section \<open>Every step keeps the invariant\<close>

lemma coroutines_okD:
  assumes "coroutines_ok cs"
  shows "linked (place cs) (caller_of cs) (crt_stack cs)" and "result_of cs a \<noteq> None \<longleftrightarrow> place cs a = Some At_End"
  using assms by (simp_all add: coroutines_ok_def)

lemma running_top: "coroutines_ok cs \<Longrightarrow> crt_stack cs = a # st \<Longrightarrow> place cs a = Some Running"
  using linkedD(2) [OF coroutines_okD(1)] by fastforce

lemma ok_call:
  assumes ok: "coroutines_ok cs" and c: "get_return_object a cs = Some cs'"
  shows "coroutines_ok cs'"
  using coroutines_okD(2) [OF ok] linked_new [OF coroutines_okD(1) [OF ok] get_return_object_view(1) [OF c]]
  by (auto simp: coroutines_ok_def get_return_object_view [OF c])

lemma ok_resume:
  assumes ok: "coroutines_ok cs" and s: "place cs a \<in> {Some At_Start, Some At_Io, Some At_Other}" and r: "resume a cs = Some cs'"
  shows "coroutines_ok cs'"
  using coroutines_okD(2) [OF ok] linked_resume [OF coroutines_okD(1) [OF ok] s] s
  by (auto simp: coroutines_ok_def resume_view [OF r])

lemma ok_suspend:
  assumes ok: "coroutines_ok cs" and s: "s \<in> {At_Io, At_Other}" and r: "suspend s cs = Some cs'"
  shows "coroutines_ok cs'"
proof -
  obtain a st where v: "crt_stack cs = a # st" "crt_stack cs' = st" "place cs' = (place cs)(a \<mapsto> s)" "caller_of cs' = caller_of cs"
    "result_of cs' = result_of cs" using suspend_view [OF r] by metis
  have l: "linked (place cs) (caller_of cs) (a # st)" using coroutines_okD(1) [OF ok] v(1) by simp
  show ?thesis using coroutines_okD(2) [OF ok] linked_suspend [OF l s] running_top [OF ok v(1)] s
    by (auto simp: coroutines_ok_def v)
qed

lemma ok_await:
  assumes ok: "coroutines_ok cs" and s: "place cs a = Some At_Start" and r: "await_task a cs = Some cs'"
  shows "coroutines_ok cs'"
proof -
  obtain c st where st: "crt_stack cs = c # st" using r by (auto simp: await_task_def split: list.splits)
  note run = running_top [OF ok st]
  have l: "linked (place cs) (caller_of cs) (c # st)" using coroutines_okD(1) [OF ok] st by simp
  show ?thesis using coroutines_okD(2) [OF ok] linked_await [OF l s] s run
    by (auto simp: coroutines_ok_def await_task_view [OF r s st run])
qed

text \<open>A running coroutine can finish, and control goes to the one that awaits it.\<close>

lemma finish_ok:
  assumes ok: "coroutines_ok cs" and st: "crt_stack cs = a # st"
  obtains cs' where "finish r cs = Some cs'" and "coroutines_ok cs'" and "result_of cs' a = Some r"
    and "place cs' a = Some At_End" and "crt_stack cs' = (case caller_of cs a of None \<Rightarrow> st | Some c \<Rightarrow> c # st)"
    and "\<And>x. place cs' x = Some At_Io \<longleftrightarrow> place cs x = Some At_Io" and "coroutines.more cs' = coroutines.more cs"
proof -
  note run = running_top [OF ok st] and res = coroutines_okD(2) [OF ok]
  have l: "linked (place cs) (caller_of cs) (a # st)" using coroutines_okD(1) [OF ok] st by simp
  have "result_of cs a = None" using run res [of a] by auto
  then obtain cs' where f: "finish r cs = Some cs'"
    and v: "place cs' = (case caller_of cs a of None \<Rightarrow> (place cs)(a \<mapsto> At_End) | Some c \<Rightarrow> (place cs)(a \<mapsto> At_End, c \<mapsto> Running))"
      "caller_of cs' = caller_of cs" "result_of cs' = (result_of cs)(a \<mapsto> r)"
      "crt_stack cs' = (case caller_of cs a of None \<Rightarrow> st | Some c \<Rightarrow> c # st)" "coroutines.more cs' = coroutines.more cs"
    by (rule finish_Some [OF st run, where r = r]) (use linked_finish_caller(1) [OF l] in auto)
  show thesis
  proof (cases "caller_of cs a")
    case None
    show thesis using linked_finish [OF l None] res None v run
      by (intro that [OF f]) (auto simp: coroutines_ok_def)
  next
    case (Some c)
    note wc = linked_finish_caller(1) [OF l Some]
    then have "c \<noteq> a" using run by auto
    then show thesis using linked_finish_caller(2) [OF l Some] res Some v run wc
      by (intro that [OF f]) (auto simp: coroutines_ok_def)
  qed
qed

lemma ok_destroy:
  assumes ok: "coroutines_ok cs" and e: "place cs a = Some At_End"
  shows "coroutines_ok (free_frame a cs)"
  using coroutines_okD(2) [OF ok] linked_destroy [OF coroutines_okD(1) [OF ok] e]
  by (auto simp: coroutines_ok_def free_frame_view)

lemma submit_op_Some_iff: "submit_op free1 free2 p ex = Some ex' \<longleftrightarrow> get_sqe free1 free2 \<and> ex' = ex\<lparr>ex_ops := ex_ops ex @ [p]\<rparr>"
  by (auto simp: submit_op_def)

lemma ok_await_io:
  assumes ok: "ex_ok ex" and s: "await_io free1 free2 ex = Some ex'"
  shows "ex_ok ex'"
proof -
  obtain a st where st: "crt_stack ex = a # st" using s by (auto simp: await_io_def split: list.splits)
  then obtain ex1 where e1: "suspend At_Io ex = Some ex1"
    and e': "ex' = ex1\<lparr>ex_awaitable := (ex_awaitable ex1)(a := from_coroutine a), ex_ops := ex_ops ex1 @ [In_Frame a]\<rparr>"
    using s by (auto simp: await_io_def bind_eq_Some_conv io_await_suspend_def submit_op_Some_iff)
  have v: "place ex1 = (place ex)(a \<mapsto> At_Io)" "coroutines.more ex1 = coroutines.more ex" using suspend_view [OF e1] st by auto
  have run: "place ex a = Some Running" by (rule running_top [OF _ st]) (use ok in \<open>simp add: ex_ok_def\<close>)
  then have nin: "In_Frame a \<notin> set (ex_ops ex)" using ok by (auto simp: ex_ok_def waits_ok_def)
  show ?thesis
  proof (rule ex_okI)
    show "coroutines_ok ex'" using ok_suspend [OF _ _ e1] ok by (simp add: e' ex_ok_def)
    show "in_flight_ok ex'" using ok nin by (auto simp: e' ex_ok_def in_flight_ok_def more_fields [OF v(2)])
    show "waits_ok ex'" using ok by (auto simp: e' ex_ok_def waits_ok_def v(1) more_fields [OF v(2)] from_coroutine_def new_completion_def)
  qed
qed

lemma ok_tc_submit:
  assumes ok: "ex_ok ex" and s: "tc_submit free1 free2 n cb ex = Some ex'"
  shows "ex_ok ex'"
proof -
  have n: "ex_owned ex n = None"
    and e': "ex' = ex\<lparr>ex_owned := (ex_owned ex)(n \<mapsto> (from_callback (Some cb))\<lparr>cm_owns := True\<rparr>), ex_ops := ex_ops ex @ [Owned n]\<rparr>"
    using s by (auto simp: tc_submit_def make_owned_completion_def submit_op_Some_iff bind_eq_Some_conv split: option.splits)
  have io: "in_flight_ok ex" and "waits_ok ex" and "coroutines_ok ex" using ok by (simp_all add: ex_ok_def)
  have nin: "Owned n \<notin> set (ex_ops ex)" "ex_calling ex \<noteq> Some (Owned n)"
    using io n unfolding in_flight_ok_def by blast+
  show ?thesis
  proof (rule ex_okI)
    show "coroutines_ok ex'" using \<open>coroutines_ok ex\<close> by (simp add: e')
    show "in_flight_ok ex'" using io nin unfolding in_flight_ok_def e' by (simp add: from_callback_def new_completion_def) blast
    show "waits_ok ex'" using \<open>waits_ok ex\<close> by (simp add: e' waits_ok_def)
  qed
qed

lemma ok_tl_submit_accept:
  assumes ok: "ex_ok ex" and n: "In_Listener \<notin> set (ex_ops ex)" and s: "tl_submit_accept free1 free2 ex = Some ex'"
  shows "ex_ok ex'"
proof -
  have e': "ex' = ex\<lparr>ex_listener := from_callback (Some 0), ex_ops := ex_ops ex @ [In_Listener]\<rparr>"
    using s by (auto simp: tl_submit_accept_def submit_op_Some_iff)
  show ?thesis using ok n
    by (simp add: e' ex_ok_def in_flight_ok_def waits_ok_def from_callback_def new_completion_def)
qed

text \<open>What a completion in flight does: it resumes the coroutine that waits for it, or names the callback to call.\<close>

lemma process_cqe_frame:
  assumes ok: "ex_ok ex" and p: "In_Frame a \<in> set (ex_ops ex)"
  obtains ex' where "process_cqe (Some (In_Frame a)) res (ex\<lparr>ex_ops := remove1 (In_Frame a) (ex_ops ex)\<rparr>) = Some (ex', None)"
    and "crt_stack ex' = a # crt_stack ex" and "io_await_resume ex' a = res" and "ex_ok (ex'\<lparr>ex_calling := ex_calling ex\<rparr>)"
proof -
  have at: "place ex a = Some At_Io" and aw: "cm_type (ex_awaitable ex a) = Coroutine" "cm_handle (ex_awaitable ex a) = Some a"
    using ok p by (auto simp: ex_ok_def waits_ok_def)
  then obtain f where f: "crt_frames ex a = Some f" "fr_at f = At_Io" by (auto simp: place_def)
  define ex1 where "ex1 = ex\<lparr>ex_ops := remove1 (In_Frame a) (ex_ops ex), ex_awaitable := (ex_awaitable ex)(a := (ex_awaitable ex a)\<lparr>cm_result := res\<rparr>)\<rparr>"
  have "resume a ex1 \<noteq> None" using f by (simp add: resume_def ex1_def)
  then obtain ex' where r: "resume a ex1 = Some ex'" by blast
  note v = resume_view [OF r] and w = more_fields [OF resume_view(5) [OF r]]
  have pl: "place ex1 = place ex" by (simp add: ex1_def)
  have d: "distinct (ex_ops ex)" using ok by (simp add: ex_ok_def in_flight_ok_def)
  show thesis
  proof (rule that [of ex'])
    show "process_cqe (Some (In_Frame a)) res (ex\<lparr>ex_ops := remove1 (In_Frame a) (ex_ops ex)\<rparr>) = Some (ex', None)"
      using f aw r by (simp add: process_cqe_def ex1_def)
    show "crt_stack ex' = a # crt_stack ex" using v(4) by (simp add: ex1_def)
    show "io_await_resume ex' a = res" using w(2) by (simp add: io_await_resume_def ex1_def)
    show "ex_ok (ex'\<lparr>ex_calling := ex_calling ex\<rparr>)"
    proof (rule ex_okI)
      show "coroutines_ok (ex'\<lparr>ex_calling := ex_calling ex\<rparr>)"
        using ok_resume [OF _ _ r] ok at pl by (simp add: ex_ok_def ex1_def)
      show "in_flight_ok (ex'\<lparr>ex_calling := ex_calling ex\<rparr>)" using ok d w by (simp add: ex_ok_def in_flight_ok_def ex1_def)
      show "waits_ok (ex'\<lparr>ex_calling := ex_calling ex\<rparr>)" using ok d w v(1) pl by (auto simp: ex_ok_def waits_ok_def ex1_def)
    qed
  qed
qed

lemma process_cqe_callback:
  assumes ok: "ex_ok ex" and p: "p \<in> set (ex_ops ex)" and c: "ex_calling ex = None" and np: "\<And>a. p \<noteq> In_Frame a"
  obtains ex' cb where "process_cqe (Some p) res (ex\<lparr>ex_ops := remove1 p (ex_ops ex)\<rparr>) = Some (ex', Some cb)"
    and "ex_ok (ex'\<lparr>ex_calling := Some p\<rparr>)"
proof -
  have io: "in_flight_ok ex" and wt: "waits_ok ex" and cr: "coroutines_ok ex" using ok by (simp_all add: ex_ok_def)
  show thesis
  proof (cases p)
    case (Owned n)
    then obtain cp cb where n: "ex_owned ex n = Some cp" "cm_type cp = Callback" "cm_owns cp" "cm_callback cp = Some cb"
      using io p unfolding in_flight_ok_def by blast
    let ?ex = "ex\<lparr>ex_ops := remove1 p (ex_ops ex), ex_owned := (ex_owned ex)(n \<mapsto> cp\<lparr>cm_result := res\<rparr>)\<rparr>"
    show thesis
    proof (rule that [of ?ex cb])
      show "process_cqe (Some p) res (ex\<lparr>ex_ops := remove1 p (ex_ops ex)\<rparr>) = Some (?ex, Some cb)"
        using n Owned by (simp add: process_cqe_def)
      show "ex_ok (?ex\<lparr>ex_calling := Some p\<rparr>)"
        using io wt cr n c by (intro ex_okI) (auto simp: in_flight_ok_def waits_ok_def Owned)
    qed
  next
    case In_Listener
    then obtain cb where n: "cm_type (ex_listener ex) = Callback" "\<not> cm_owns (ex_listener ex)" "cm_callback (ex_listener ex) = Some cb"
      using io p unfolding in_flight_ok_def by blast
    let ?ex = "ex\<lparr>ex_ops := remove1 p (ex_ops ex), ex_listener := (ex_listener ex)\<lparr>cm_result := res\<rparr>\<rparr>"
    show thesis
    proof (rule that [of ?ex cb])
      show "process_cqe (Some p) res (ex\<lparr>ex_ops := remove1 p (ex_ops ex)\<rparr>) = Some (?ex, Some cb)"
        using n In_Listener by (simp add: process_cqe_def)
      show "ex_ok (?ex\<lparr>ex_calling := Some p\<rparr>)"
        using io wt cr n c by (intro ex_okI) (auto simp: in_flight_ok_def waits_ok_def In_Listener)
    qed
  qed (use np in auto)
qed

lemma after_callback_ok:
  assumes ok: "ex_ok ex" and c: "ex_calling ex = Some p"
  obtains ex' where "after_callback p ex = Some ex'" and "ex_ok (ex'\<lparr>ex_calling := None\<rparr>)" and "\<And>n. p = Owned n \<Longrightarrow> ex_owned ex' n = None"
proof -
  have io: "in_flight_ok ex" and wt: "waits_ok ex" and cr: "coroutines_ok ex" using ok by (simp_all add: ex_ok_def)
  show thesis
  proof (cases p)
    case (Owned n)
    then obtain cp where n: "ex_owned ex n = Some cp" "cm_owns cp" "Owned n \<notin> set (ex_ops ex)" using io c unfolding in_flight_ok_def by blast
    show thesis
      by (rule that [of "ex\<lparr>ex_owned := (ex_owned ex)(n := None)\<rparr>"])
        (use io wt cr n c Owned in \<open>auto simp: after_callback_def ex_ok_def in_flight_ok_def waits_ok_def\<close>)
  next
    case In_Listener
    then have "\<not> cm_owns (ex_listener ex)" using io c unfolding in_flight_ok_def by blast
    then show thesis
      by (intro that [of ex]) (use io wt cr c In_Listener in \<open>auto simp: after_callback_def ex_ok_def in_flight_ok_def waits_ok_def\<close>)
  next
    case (In_Frame a)
    then show thesis using io c by (simp add: in_flight_ok_def)
  qed
qed

text \<open>A step on the coroutines alone keeps the rest of the invariant.\<close>

lemma ex_ok_coroutines:
  assumes "ex_ok ex" and "coroutines.more ex' = coroutines.more ex" and "coroutines_ok ex'"
    and "\<And>a. place ex' a = Some At_Io \<longleftrightarrow> place ex a = Some At_Io"
  shows "ex_ok ex'"
  using assms in_flight_ok_cong [OF assms(2)] waits_ok_cong [OF assms(2) [symmetric]] by (simp add: ex_ok_def)

lemma ok_complete:
  assumes ok: "ex_ok ex" and "ex_calling ex = None" and p: "p \<in> set (ex_ops ex)"
    and "process_cqe (Some p) res (ex\<lparr>ex_ops := remove1 p (ex_ops ex)\<rparr>) = Some (ex', cb)"
  shows "ex_ok (ex'\<lparr>ex_calling := if cb = None then None else Some p\<rparr>)"
proof (cases "\<exists>a. p = In_Frame a")
  case True
  then obtain a where a: "p = In_Frame a" ..
  show ?thesis by (rule process_cqe_frame [OF ok p [unfolded a], of res]) (use assms a in auto)
next
  case False
  show ?thesis by (rule process_cqe_callback [OF ok p, of res]) (use assms False in auto)
qed

lemma ok_await_task:
  assumes ok: "ex_ok ex" and a: "place ex a = Some At_Start" "await_task a ex = Some ex'"
  shows "ex_ok ex'"
proof -
  have cok: "coroutines_ok ex" using ok by (simp add: ex_ok_def)
  obtain c st where st: "crt_stack ex = c # st" using a by (auto simp: await_task_def split: list.splits)
  note v = await_task_view [OF a(2,1) st running_top [OF cok st]]
  show ?thesis by (rule ex_ok_coroutines [OF ok _ ok_await [OF cok a]]) (use v a running_top [OF cok st] in auto)
qed

lemma ex_ok_step:
  assumes "ex_step ex ex'" and ok: "ex_ok ex"
  shows "ex_ok ex'"
proof -
  have cok: "coroutines_ok ex" using ok by (simp add: ex_ok_def)
  from assms(1) show ?thesis
  proof cases
    case (step_call a)
    show ?thesis by (rule ex_ok_coroutines [OF ok _ ok_call [OF cok step_call]]) (use get_return_object_view [OF step_call] in auto)
  next
    case (step_start a)
    then have r: "resume a ex = Some ex'" by (auto simp: task_start_def task_done_def place_def)
    show ?thesis by (rule ex_ok_coroutines [OF ok _ ok_resume [OF cok _ r]]) (use resume_view [OF r] step_start in auto)
  next
    case step_wait
    then obtain a st where v: "crt_stack ex = a # st" "place ex' = (place ex)(a \<mapsto> At_Other)" "coroutines.more ex' = coroutines.more ex"
      using suspend_view by metis
    show ?thesis by (rule ex_ok_coroutines [OF ok _ ok_suspend [OF cok _ step_wait]]) (use v running_top [OF cok v(1)] in auto)
  next
    case (step_wake a)
    show ?thesis by (rule ex_ok_coroutines [OF ok _ ok_resume [OF cok _ step_wake(2)]])
        (use resume_view [OF step_wake(2)] step_wake(1) in auto)
  next
    case (step_finish r)
    then obtain a st where st: "crt_stack ex = a # st" by (auto simp: finish_def split: list.splits)
    show ?thesis by (rule finish_ok [OF cok st, of r]) (use step_finish in \<open>auto intro: ex_ok_coroutines [OF ok]\<close>)
  next
    case (step_destroy a)
    then have e: "place ex a = Some At_End" by (auto simp: task_done_def place_def)
    then have "ex' = free_frame a ex" using step_destroy frame_destroy_end [OF e] by (simp add: task_destroy_def)
    then show ?thesis using e
      by (auto intro!: ex_ok_coroutines [OF ok] ok_destroy [OF cok] simp: free_frame_view split: if_splits)
  next
    case (step_returned p ex1)
    show ?thesis by (rule after_callback_ok [OF ok step_returned(3)]) (use step_returned in auto)
  qed (auto intro: ok_await_task [OF ok] ok_await_io [OF ok] ok_tc_submit [OF ok] ok_tl_submit_accept [OF ok]
    dest: ok_complete [OF ok])
qed

lemma ex_ok_idle: "ex_ok idle_executor"
  by (auto simp: ex_ok_def coroutines_ok_def in_flight_ok_def waits_ok_def linked_def view_defs idle_executor_def)

lemma ex_ok_reachable: "ex_reachable ex \<Longrightarrow> ex_ok ex"
  by (induction rule: ex_reachable.induct) (auto intro: ex_ok_idle ex_ok_step)

section \<open>Detached tasks\<close>

text \<open>The handles of the tasks of a list that have finished.\<close>

definition finished :: "('v, 'm) coroutines_scheme \<Rightarrow> task list \<Rightarrow> coro set" where
  "finished cs ts = {a. Some a \<in> set ts \<and> task_done cs (Some a) = Some True}"

lemma finished_simps [simp]:
  "finished cs [] = {}" "finished cs (None # ts) = finished cs ts"
  "task_done cs (Some a) = Some True \<Longrightarrow> finished cs (Some a # ts) = insert a (finished cs ts)"
  "task_done cs (Some a) = Some False \<Longrightarrow> finished cs (Some a # ts) = finished cs ts"
  by (auto simp: finished_def)

lemma task_done_free: "t \<noteq> Some a \<Longrightarrow> task_done (free_frame a cs) t = task_done cs t"
  by (cases t) (auto simp: task_done_def free_frame_def)

lemma finished_free:
  assumes "Some a \<notin> set ts"
  shows "finished (free_frame a cs) ts = finished cs ts"
proof -
  have "task_done (free_frame a cs) (Some x) = task_done cs (Some x)" if "Some x \<in> set ts" for x
    using that assms by (intro task_done_free) auto
  then show ?thesis by (auto simp: finished_def)
qed

text \<open>Erasing destroys exactly the finished tasks and keeps the others in order.\<close>

lemma erase_done_eq:
  assumes "distinct [t \<leftarrow> ts. t \<noteq> None]" and "\<And>a. Some a \<in> set ts \<Longrightarrow> crt_frames cs a \<noteq> None"
  shows "erase_done ts cs = Some (cs\<lparr>crt_frames := \<lambda>a. if a \<in> finished cs ts then None else crt_frames cs a\<rparr>,
    [t \<leftarrow> ts. task_done cs t = Some False])"
  using assms
proof (induction ts arbitrary: cs)
  case (Cons t ts)
  have live: "\<And>a. Some a \<in> set ts \<Longrightarrow> crt_frames cs a \<noteq> None" using Cons.prems(2) by simp
  have "task_done cs t \<noteq> None" using Cons.prems(2) by (cases t) (simp_all add: task_done_def)
  then consider "t = None" | a where "t = Some a" "task_done cs t = Some True" | a where "t = Some a" "task_done cs t = Some False"
    by (cases t) (auto, metis)
  then show ?case
  proof cases
    case 1
    then show ?thesis using Cons.IH [OF _ live] Cons.prems(1) by (simp add: task_done_def task_destroy_def)
  next
    case 2
    have nin: "Some a \<notin> set ts" using Cons.prems(1) 2 by auto
    have "erase_done ts (free_frame a cs) = Some ((free_frame a cs)\<lparr>crt_frames := \<lambda>x. if x \<in> finished (free_frame a cs) ts then None else crt_frames (free_frame a cs) x\<rparr>,
        [t \<leftarrow> ts. task_done (free_frame a cs) t = Some False])"
    proof (rule Cons.IH)
      show "distinct [t \<leftarrow> ts. t \<noteq> None]" using Cons.prems(1) by (simp split: if_splits)
      show "crt_frames (free_frame a cs) x \<noteq> None" if "Some x \<in> set ts" for x using live [OF that] that nin by (auto simp: free_frame_def)
    qed
    moreover note finished_free [OF nin, of cs]
    moreover have "[t \<leftarrow> ts. task_done (free_frame a cs) t = Some False] = [t \<leftarrow> ts. task_done cs t = Some False]"
      using nin by (intro filter_cong refl) (metis task_done_free)
    moreover have "frame_destroy a cs = Some (free_frame a cs)" using 2 by (intro frame_destroy_end) (auto simp: task_done_def place_def)
    ultimately show ?thesis using 2 by (auto simp: task_destroy_def free_frame_def fun_eq_iff)
  next
    case 3
    then show ?thesis using Cons.IH [OF _ live] Cons.prems(1) by simp
  qed
qed simp

text \<open>
  A spawned task is started and kept, with those spawned earlier, as long as it has not finished; the
  coroutines that are destroyed are exactly the finished ones of the list.
\<close>

lemma spawn_detached_eq:
  assumes "task_start t cs = Some cs1" and "body cs1 = Some cs2"
    and "distinct [x \<leftarrow> ts @ [t]. x \<noteq> None]" and "\<forall>a. Some a \<in> set (ts @ [t]) \<longrightarrow> crt_frames cs2 a \<noteq> None"
  shows "\<exists>cs3. spawn_detached body t ts cs = Some (cs3, [x \<leftarrow> ts @ [t]. task_done cs2 x = Some False]) \<and>
    (\<forall>a. crt_frames cs3 a = (if Some a \<in> set (ts @ [t]) \<and> place cs2 a = Some At_End then None else crt_frames cs2 a)) \<and>
    crt_stack cs3 = crt_stack cs2"
proof -
  let ?cs = "cs2\<lparr>crt_frames := \<lambda>a. if a \<in> finished cs2 (ts @ [t]) then None else crt_frames cs2 a\<rparr>"
  have e: "erase_done (ts @ [t]) cs2 = Some (?cs, [x \<leftarrow> ts @ [t]. task_done cs2 x = Some False])"
    by (rule erase_done_eq) (use assms in blast)+
  have "a \<in> finished cs2 (ts @ [t]) \<longleftrightarrow> Some a \<in> set (ts @ [t]) \<and> place cs2 a = Some At_End" for a
    by (auto simp: finished_def task_done_def place_def)
  then show ?thesis using assms(1,2) e by (intro exI [of _ ?cs]) (simp add: spawn_detached_def)
qed

section \<open>A run\<close>

text \<open>Coroutine 0 awaits coroutine 1, which waits for the kernel; the listener is armed and a callback is in flight.\<close>

definition reading :: "nat executor option" where
  "reading =
     do { ex \<leftarrow> tl_submit_accept True True idle_executor;
          ex \<leftarrow> tc_submit False True 4 9 ex;
          ex \<leftarrow> get_return_object 0 ex;
          ex \<leftarrow> task_start (Some 0) ex;
          ex \<leftarrow> get_return_object 1 ex;
          ex \<leftarrow> await_task 1 ex;
          await_io True True ex }"

lemmas coroutine_defs = get_return_object_def set_frame_def task_start_def task_done_def resume_def suspend_def await_task_def task_await_suspend_def
  await_io_def io_await_suspend_def submit_op_def get_sqe_def tl_submit_accept_def tc_submit_def make_owned_completion_def idle_executor_def

lemma reading_state:
  obtains ex where "reading = Some ex" and "ex_reachable ex" and "place ex 0 = Some (At_Task 1)" and "place ex 1 = Some At_Io"
    and "ex_ops ex = [In_Listener, Owned 4, In_Frame 1]" and "crt_stack ex = []" and "ex_calling ex = None"
proof -
  have "\<exists>ex. reading = Some ex" by (simp add: reading_def coroutine_defs)
  then obtain ex where ex: "reading = Some ex" ..
  then obtain e1 e2 e3 e4 e5 e6 where s: "tl_submit_accept True True idle_executor = Some e1" "tc_submit False True 4 9 e1 = Some e2"
    "get_return_object 0 e2 = Some e3" "task_start (Some 0) e3 = Some e4" "get_return_object 1 e4 = Some e5" "await_task 1 e5 = Some e6"
    "await_io True True e6 = Some ex"
    by (auto simp: reading_def bind_eq_Some_conv)
  have "ex_reachable e2" by (rule ex_more [OF ex_more [OF ex_idle step_listen [OF _ s(1)]] step_submit [OF s(2)]]) (simp add: idle_executor_def)
  then have "ex_reachable e4" using get_return_object_view(2) [OF s(3)] ex_more [OF ex_more [OF _ step_call [OF s(3)]] step_start [OF _ s(4)]] by simp
  then have "ex_reachable e6" using get_return_object_view(2) [OF s(5)] ex_more [OF ex_more [OF _ step_call [OF s(5)]] step_await [OF _ s(6)]] by simp
  then have "ex_reachable ex" by (rule ex_more [OF _ step_await_io [OF s(7)]])
  then show thesis by (rule that [OF ex]) (use ex in \<open>auto simp: reading_def coroutine_defs place_def\<close>)
qed

section \<open>Properties\<close>

text \<open>
  C3. The event loop and the coroutines on it are safe, in whatever order coroutines are called, started,
  await each other or the kernel, are woken and finish, and operations complete. A completion in flight is there when the kernel
  reports it: a waiting coroutine is suspended then, is resumed and gets the result, and an owned callback is still allocated, and is
  freed after it was called. A coroutine that finishes hands its outcome and the control to the one that awaits it, and a finished
  coroutine can be destroyed.
\<close>
theorem executor_safe:
  assumes "ex_reachable ex"
  shows "(\<forall>p res. crt_stack ex = [] \<and> ex_calling ex = None \<and> p \<in> set (ex_ops ex) \<longrightarrow>
       (\<exists>ex' cb. process_cqe (Some p) res (ex\<lparr>ex_ops := remove1 p (ex_ops ex)\<rparr>) = Some (ex', cb) \<and>
          (case p of In_Frame a \<Rightarrow> crt_stack ex' = [a] \<and> io_await_resume ex' a = res \<and> cb = None | _ \<Rightarrow> cb \<noteq> None))) \<and>
     (\<forall>p. ex_calling ex = Some p \<longrightarrow> (\<exists>ex'. after_callback p ex = Some ex' \<and> (\<forall>n. p = Owned n \<longrightarrow> ex_owned ex' n = None))) \<and>
     (\<forall>a st r. crt_stack ex = a # st \<longrightarrow>
       (\<exists>ex'. finish r ex = Some ex' \<and> task_done ex' (Some a) = Some True \<and> task_await_resume ex' (Some a) = Some r \<and>
          crt_stack ex' = (case caller_of ex a of None \<Rightarrow> st | Some c \<Rightarrow> c # st))) \<and>
     (\<forall>a. task_done ex (Some a) = Some True \<longrightarrow> (\<exists>ex'. task_destroy (Some a) ex = Some ex' \<and> crt_frames ex' = (crt_frames ex)(a := None)))"
proof (intro conjI allI impI)
  have ok: "ex_ok ex" by (rule ex_ok_reachable [OF assms])
  then have cok: "coroutines_ok ex" by (simp add: ex_ok_def)
  {
    fix p res assume *: "crt_stack ex = [] \<and> ex_calling ex = None \<and> p \<in> set (ex_ops ex)"
    show "\<exists>ex' cb. process_cqe (Some p) res (ex\<lparr>ex_ops := remove1 p (ex_ops ex)\<rparr>) = Some (ex', cb) \<and>
        (case p of In_Frame a \<Rightarrow> crt_stack ex' = [a] \<and> io_await_resume ex' a = res \<and> cb = None | _ \<Rightarrow> cb \<noteq> None)"
    proof (cases "\<exists>a. p = In_Frame a")
      case True
      then obtain a where a: "p = In_Frame a" ..
      show ?thesis by (rule process_cqe_frame [OF ok, of a res]) (use a * in auto)
    next
      case False
      show ?thesis by (rule process_cqe_callback [OF ok, of p res]) (use False * in \<open>auto split: pointer.split\<close>)
    qed
  next
    fix p assume "ex_calling ex = Some p"
    then show "\<exists>ex'. after_callback p ex = Some ex' \<and> (\<forall>n. p = Owned n \<longrightarrow> ex_owned ex' n = None)"
      using after_callback_ok [OF ok] by metis
  next
    fix a st r assume "crt_stack ex = a # st"
    then show "\<exists>ex'. finish r ex = Some ex' \<and> task_done ex' (Some a) = Some True \<and> task_await_resume ex' (Some a) = Some r \<and>
        crt_stack ex' = (case caller_of ex a of None \<Rightarrow> st | Some c \<Rightarrow> c # st)"
      by (rule finish_ok [OF cok, where r = r]) (auto simp: task_done_def task_await_resume_def view_defs)
  next
    fix a assume "task_done ex (Some a) = Some True"
    then show "\<exists>ex'. task_destroy (Some a) ex = Some ex' \<and> crt_frames ex' = (crt_frames ex)(a := None)"
      using frame_destroy_end [of ex a] by (auto simp: task_done_def task_destroy_def place_def free_frame_def)
  }
qed

theorem executor_safe_witness:
  "\<exists>ex ex'. reading = Some ex \<and> process_cqe (Some (In_Frame 1)) 7 (ex\<lparr>ex_ops := [In_Listener, Owned 4]\<rparr>) = Some (ex', None) \<and>
     crt_stack ex' = [1] \<and> io_await_resume ex' 1 = 7"
proof -
  obtain ex where ex: "reading = Some ex" "ex_reachable ex" "ex_ops ex = [In_Listener, Owned 4, In_Frame 1]" "crt_stack ex = []" "ex_calling ex = None"
    by (rule reading_state)
  show ?thesis using executor_safe [OF ex(2), THEN conjunct1, rule_format, of "In_Frame 1" 7] ex by auto
qed

text \<open>
  C4. No coroutine is forgotten: one that was started and has not finished runs, or waits, through a chain of tasks whose promises
  all know who awaits them, for a coroutine that runs, that another coroutine will wake, or that has exactly one operation in flight.
\<close>
theorem no_coroutine_lost:
  assumes "ex_reachable ex" and "place ex a \<notin> {None, Some At_Start, Some At_End}"
  shows "\<exists>b. (a, b) \<in> {(x, y). place ex x = Some (At_Task y) \<and> caller_of ex y = Some x}\<^sup>* \<and>
     (place ex b \<in> {Some Running, Some At_Other} \<or> place ex b = Some At_Io \<and> count_list (ex_ops ex) (In_Frame b) = 1)"
proof -
  have ok: "ex_ok ex" by (rule ex_ok_reachable [OF assms(1)])
  then have l: "linked (place ex) (caller_of ex) (crt_stack ex)" by (simp add: ex_ok_def coroutines_ok_def)
  have once: "count_list (ex_ops ex) (In_Frame x) = 1" if "place ex x = Some At_Io" for x
    using ok that distinct_count_atmost_1 [of "ex_ops ex"] by (simp add: ex_ok_def in_flight_ok_def waits_ok_def count_mset)
  from linkedD(8) [OF l assms(2)] show ?thesis
  proof (induction rule: settled.induct)
    case (base a)
    then show ?case using once [of a] by (intro exI [of _ a]) auto
  next
    case (chain a b)
    then show ?case using linkedD(3) [OF l chain.hyps(1)] by (auto intro: converse_rtrancl_into_rtrancl)
  qed
qed

theorem no_coroutine_lost_witness:
  "\<exists>ex b. reading = Some ex \<and> place ex 0 = Some (At_Task 1) \<and>
     (0, b) \<in> {(x, y). place ex x = Some (At_Task y) \<and> caller_of ex y = Some x}\<^sup>* \<and>
     (place ex b \<in> {Some Running, Some At_Other} \<or> place ex b = Some At_Io \<and> count_list (ex_ops ex) (In_Frame b) = 1)"
proof -
  obtain ex where ex: "reading = Some ex" "ex_reachable ex" "place ex 0 = Some (At_Task 1)" by (rule reading_state)
  show ?thesis using no_coroutine_lost [OF ex(2), of 0] ex by auto
qed

end
