(* ===== verification/Server.thy ===== *)
theory Server
  imports ServerNode Coordinator Executor
begin

text \<open>
  The server process as a whole (\<open>src/src/main.cpp\<close>): what \<open>main\<close> builds before it enters the event loop, in
  its order, how it ends when a step fails, and what it does with an accepted connection and a signal.

  The parts are those of the other theories: the context and the executor, the buffer pool, the store, the
  node with its member table and ring, the sockets. Results of system calls are collected in \<open>server_env\<close>. A failure is an exception that leaves
  \<open>main\<close>.
\<close>

section \<open>State\<close>

record server_env =
  se_getenv :: "string \<Rightarrow> string option"
  se_argv :: "string list"
  se_is_ip :: "string \<Rightarrow> bool"
  se_lookup :: "string \<Rightarrow> string option"
  se_queue_ret :: int
  se_event_fd :: int
  se_pool_alloc :: bool
  se_pool_register :: bool
  se_mmap_huge :: bool
  se_mmap :: bool
  se_udp_fd :: int
  se_udp_bind :: int
  se_tcp_fd :: int
  se_tcp_bind :: int
  se_tcp_listen :: int
  se_now :: time_point

datatype start_error =
    Not_A_Number
  | Context_Failed context_error
  | Pool_Failed pool_error
  | Store_Failed arena_error
  | Gossip_Failed socket_error
  | Listener_Failed socket_error
  | No_Entry

record 'v server =
  srv_config :: server_config
  srv_ctx :: io_uring_context
  srv_pool :: buffer_pool
  srv_store :: local_store
  srv_node :: server_node
  srv_socket :: udp_socket
  srv_listener :: tcp_listener
  srv_connections :: "task list"
  srv_exec :: "'v executor"

section \<open>Starting\<close>

text \<open>The seed, resolved; nothing without a seed. An exception is \<open>None\<close>.\<close>

definition seed_peer :: "server_env \<Rightarrow> server_config \<Rightarrow> (node_id \<times> u16) option option" where
  "seed_peer e cfg =
     (if sv_seed cfg = [] then Some None
      else map_option (\<lambda>(host, port). Some (\<lparr>node_host = resolve_host (se_is_ip e) (se_lookup e) host, node_port = port\<rparr>, sv_seed_data_port cfg))
             (parse_seed (sv_gossip_port cfg) (sv_seed cfg)))"

text \<open>\<open>SwimProtocol::run\<close>: the three loops are called, then started, and each runs to its first operation. Entries of the submission queue are free.\<close>

definition start_loop :: "coro \<Rightarrow> 'v executor \<Rightarrow> 'v executor option" where
  "start_loop a ex = Option.bind (task_start (Some a) ex) (await_io True True)"

definition start_loops :: "'v executor \<Rightarrow> 'v executor option" where
  "start_loops ex =
     do { ex \<leftarrow> get_return_object 0 ex;
          ex \<leftarrow> get_return_object 1 ex;
          ex \<leftarrow> get_return_object 2 ex;
          ex \<leftarrow> start_loop 0 ex;
          ex \<leftarrow> start_loop 1 ex;
          start_loop 2 ex }"

definition start_server :: "server_env \<Rightarrow> start_error + 'v server" where
  "start_server e =
     (case read_config (se_getenv e) (se_argv e) of
        None \<Rightarrow> Inl Not_A_Number
      | Some cfg \<Rightarrow>
     case new_io_uring_context (se_queue_ret e) (se_event_fd e) of
        Inl (err, _) \<Rightarrow> Inl (Context_Failed err)
      | Inr ctx \<Rightarrow>
     case new_buffer_pool 65536 64 (se_pool_alloc e) (se_pool_register e) of
        Inl err \<Rightarrow> Inl (Pool_Failed err)
      | Inr pool \<Rightarrow>
     case new_local_store (unat (sv_memory_mb cfg * 1024 * 1024)) 16 (se_mmap_huge e) (se_mmap e) of
        Inl err \<Rightarrow> Inl (Store_Failed err)
      | Inr ls \<Rightarrow>
     case seed_peer e cfg of
        None \<Rightarrow> Inl Not_A_Number
      | Some seed \<Rightarrow>
     let self = \<lparr>node_host = resolve_host (se_is_ip e) (se_lookup e) (sv_host cfg), node_port = sv_gossip_port cfg\<rparr>;
         node = start_node self (sv_data_port cfg) seed (se_now e)
     in case new_udp_socket (se_udp_fd e) (se_udp_bind e) of
        Inl (err, _) \<Rightarrow> Inl (Gossip_Failed err)
      | Inr sock \<Rightarrow>
     case new_tcp_listener (se_tcp_fd e) (se_tcp_bind e) (se_tcp_listen e) of
        Inl (err, _) \<Rightarrow> Inl (Listener_Failed err)
      | Inr listener \<Rightarrow>
     case tl_start True True True listener idle_executor of
        None \<Rightarrow> Inl No_Entry
      | Some (listener, ex) \<Rightarrow>
     case start_loops ex of
        None \<Rightarrow> Inl No_Entry
      | Some ex \<Rightarrow>
          Inr \<lparr>srv_config = cfg, srv_ctx = ctx, srv_pool = pool, srv_store = ls, srv_node = node, srv_socket = sock,
               srv_listener = listener, srv_connections = [], srv_exec = ex\<rparr>)"

section \<open>Running\<close>

text \<open>
  The accept callback: the connection gives up its descriptor to the coroutine \<open>a\<close> that serves it, \<open>body\<close>
  is what that does before it first suspends, and finished coroutines are erased. The descriptor is the one the coroutine gets.
\<close>

definition accept_connection ::
  "('v executor \<Rightarrow> 'v executor option) \<Rightarrow> coro \<Rightarrow> tcp_connection \<Rightarrow> 'v server \<Rightarrow> ('v server \<times> tcp_connection \<times> int) option" where
  "accept_connection body a conn srv =
     (case tc_release conn of (conn, f) \<Rightarrow>
        do { ex \<leftarrow> get_return_object a (srv_exec srv);
             (ex, ts) \<leftarrow> spawn_detached body (Some a) (srv_connections srv) ex;
             Some (srv\<lparr>srv_exec := ex, srv_connections := ts\<rparr>, conn, f) })"

text \<open>The handler does nothing before the context is set.\<close>

definition signal_handler :: "bool \<Rightarrow> bool \<times> u64 \<Rightarrow> bool \<times> u64" where
  "signal_handler g_ctx st = (if g_ctx then stop st else st)"

text \<open>After the event loop: \<open>swim.stop()\<close>.\<close>

definition shutdown_server :: "'v server \<Rightarrow> 'v server" where
  "shutdown_server srv = srv\<lparr>srv_node := (srv_node srv)\<lparr>nd_swim := swim_stop (nd_swim (srv_node srv))\<rparr>\<rparr>"

section \<open>The loops of the protocol\<close>

lemma start_loop_eq:
  assumes "place ex a = Some At_Start" and "crt_stack ex = []" and "ex_reachable ex"
  obtains ex' where "start_loop a ex = Some ex'" and "ex_reachable ex'" and "place ex' = (place ex)(a \<mapsto> At_Io)"
    and "ex_ops ex' = ex_ops ex @ [In_Frame a]" and "crt_stack ex' = []"
proof -
  obtain f where f: "crt_frames ex a = Some f" "fr_at f = At_Start" using assms(1) by (auto simp: place_def)
  then obtain ex1 where s: "task_start (Some a) ex = Some ex1" and r: "resume a ex = Some ex1"
    by (auto simp: task_start_def task_done_def resume_def)
  note v = resume_view [OF r]
  have st: "crt_stack ex1 = [a]" using v(4) assms(2) by simp
  have fr: "crt_frames ex1 a \<noteq> None" using v(1) by (metis fun_upd_same option.map_disc_iff option.simps(3) place_def)
  then obtain ex' where i: "await_io True True ex1 = Some ex'"
    using st by (auto simp: await_io_def suspend_def io_await_suspend_def submit_op_def get_sqe_def)
  then obtain ex2 where e2: "suspend At_Io ex1 = Some ex2"
    and e': "ex' = ex2\<lparr>ex_awaitable := (ex_awaitable ex2)(a := from_coroutine a), ex_ops := ex_ops ex2 @ [In_Frame a]\<rparr>"
    using st by (auto simp: await_io_def bind_eq_Some_conv io_await_suspend_def submit_op_Some_iff)
  have v2: "place ex2 = (place ex1)(a \<mapsto> At_Io)" "crt_stack ex2 = []" "coroutines.more ex2 = coroutines.more ex1" using suspend_view [OF e2] st by auto
  have "ex_reachable ex1" by (rule ex_more [OF assms(3) step_start [OF assms(1) s]])
  then have "ex_reachable ex'" by (rule ex_more [OF _ step_await_io [OF i]])
  then show thesis using that [of ex'] s i e' v(1) v2 more_fields [OF v2(3)] more_fields [OF v(5)] by (simp add: start_loop_def)
qed

lemma start_loops_eq:
  assumes "ex_reachable ex" and "crt_stack ex = []" and "\<forall>a \<le> 2. place ex a = None"
  obtains ex' where "start_loops ex = Some ex'" and "ex_reachable ex'" and "ex_ops ex' = ex_ops ex @ [In_Frame 0, In_Frame 1, In_Frame 2]"
    and "crt_stack ex' = []" and "place ex' = (place ex)(0 \<mapsto> At_Io, 1 \<mapsto> At_Io, 2 \<mapsto> At_Io)"
proof -
  have call: "\<exists>ex'. get_return_object a x = Some ex'" if "place x a = None" for a :: coro and x :: "'a executor"
    using that by (simp add: get_return_object_def place_def)
  have n: "place ex 0 = None" "place ex 1 = None" "place ex 2 = None" using assms(3) by simp_all
  obtain e1 where e1: "get_return_object 0 ex = Some e1" using call n(1) by blast
  note v1 = get_return_object_view [OF e1]
  obtain e2 where e2: "get_return_object 1 e1 = Some e2" using call [of e1 1] n(2) v1(2) by auto
  note v2 = get_return_object_view [OF e2]
  obtain e3 where e3: "get_return_object 2 e2 = Some e3" using call [of e2 2] n(3) v1(2) v2(2) by auto
  note v3 = get_return_object_view [OF e3]
  have r3: "ex_reachable e3" using assms(1) by (meson e1 e2 e3 ex_more step_call)
  have p3: "place e3 = (place ex)(0 \<mapsto> At_Start, 1 \<mapsto> At_Start, 2 \<mapsto> At_Start)" "crt_stack e3 = []" "ex_ops e3 = ex_ops ex"
    using v1 v2 v3 assms(2) more_fields(1) [OF v1(6)] more_fields(1) [OF v2(6)] more_fields(1) [OF v3(6)] by simp_all
  obtain e4 where e4: "start_loop 0 e3 = Some e4" "ex_reachable e4" "place e4 = (place e3)(0 \<mapsto> At_Io)" "ex_ops e4 = ex_ops e3 @ [In_Frame 0]" "crt_stack e4 = []"
    by (rule start_loop_eq [of e3 0]) (use p3 r3 in auto)
  obtain e5 where e5: "start_loop 1 e4 = Some e5" "ex_reachable e5" "place e5 = (place e4)(1 \<mapsto> At_Io)" "ex_ops e5 = ex_ops e4 @ [In_Frame 1]" "crt_stack e5 = []"
    by (rule start_loop_eq [of e4 1]) (use p3 e4 in auto)
  obtain e6 where e6: "start_loop 2 e5 = Some e6" "ex_reachable e6" "place e6 = (place e5)(2 \<mapsto> At_Io)" "ex_ops e6 = ex_ops e5 @ [In_Frame 2]" "crt_stack e6 = []"
    by (rule start_loop_eq [of e5 2]) (use p3 e4 e5 in auto)
  show thesis
    by (rule that [of e6]) (use e1 e2 e3 e4 e5 e6 p3 in \<open>auto simp: start_loops_def fun_eq_iff\<close>)
qed

text \<open>What the listener and the loops leave in flight.\<close>

lemma start_exec:
  obtains ex where "tl_start True True True l idle_executor = Some (l\<lparr>tl_on_accept := True\<rparr>, ex)"
    and "\<exists>ex'. start_loops ex = Some ex' \<and> ex_reachable ex' \<and> ex_ops ex' = [In_Listener, In_Frame 0, In_Frame 1, In_Frame 2] \<and>
      crt_stack ex' = [] \<and> place ex' = [0 \<mapsto> At_Io, 1 \<mapsto> At_Io, 2 \<mapsto> At_Io]"
proof -
  obtain ex :: "'a executor" where t: "tl_submit_accept True True idle_executor = Some ex"
    by (simp add: tl_submit_accept_def submit_op_def get_sqe_def)
  then have ex: "crt_stack ex = []" "place ex = (\<lambda>_. None)" "ex_ops ex = [In_Listener]"
    by (auto simp: tl_submit_accept_def submit_op_Some_iff idle_executor_def place_def fun_eq_iff)
  have "ex_reachable ex" by (rule ex_more [OF ex_idle step_listen [OF _ t]]) (simp add: idle_executor_def)
  then have "\<exists>ex'. start_loops ex = Some ex' \<and> ex_reachable ex' \<and> ex_ops ex' = [In_Listener, In_Frame 0, In_Frame 1, In_Frame 2] \<and>
      crt_stack ex' = [] \<and> place ex' = [0 \<mapsto> At_Io, 1 \<mapsto> At_Io, 2 \<mapsto> At_Io]"
    by (rule start_loops_eq) (use ex in auto)
  then show thesis using that [of ex] t by (simp add: tl_start_def)
qed

text \<open>A configuration without a seed, on a system where every call succeeds.\<close>

abbreviation example_env :: server_env where
  "example_env \<equiv>
     \<lparr>se_getenv = (\<lambda>_. None), se_argv = [''pensieve'', ''h'', ''80'', ''9'', ''64''], se_is_ip = (\<lambda>_. True), se_lookup = (\<lambda>_. None), se_queue_ret = 0, se_event_fd = 4,
      se_pool_alloc = True, se_pool_register = True, se_mmap_huge = False, se_mmap = True, se_udp_fd = 5, se_udp_bind = 0,
      se_tcp_fd = 6, se_tcp_bind = 0, se_tcp_listen = 0, se_now = 0\<rparr>"

section \<open>Properties\<close>

text \<open>What starting needs: a readable configuration, memory, and every system call.\<close>

definition can_start :: "server_env \<Rightarrow> server_config \<Rightarrow> bool" where
  "can_start e cfg \<longleftrightarrow>
     read_config (se_getenv e) (se_argv e) = Some cfg \<and> seed_peer e cfg \<noteq> None \<and> 0 \<le> se_queue_ret e \<and> 0 \<le> se_event_fd e \<and>
     se_pool_alloc e \<and> se_pool_register e \<and> sv_memory_mb cfg * 1024 * 1024 \<noteq> 0 \<and> (se_mmap_huge e \<or> se_mmap e) \<and>
     0 \<le> se_udp_fd e \<and> 0 \<le> se_udp_bind e \<and> 0 \<le> se_tcp_fd e \<and> 0 \<le> se_tcp_bind e \<and> 0 \<le> se_tcp_listen e"

lemma new_local_store_cases:
  "(\<exists>ls. new_local_store cap n huge ok = Inr ls) \<longleftrightarrow> cap \<noteq> 0 \<and> (huge \<or> ok)"
  by (auto simp: new_local_store_def new_slab_allocator_def new_arena_def)

lemma start_server_Inr:
  assumes "can_start e cfg"
  obtains srv :: "'v server" where "start_server e = Inr srv" and "srv_config srv = cfg" and "node_reachable (srv_node srv)"
    and "ls_reachable (srv_store srv)" and "pool_reachable 65536 64 (srv_pool srv) {}" and "ex_reachable (srv_exec srv)"
    and "ex_ops (srv_exec srv) = [In_Listener, In_Frame 0, In_Frame 1, In_Frame 2]" and "crt_stack (srv_exec srv) = []"
    and "place (srv_exec srv) = [0 \<mapsto> At_Io, 1 \<mapsto> At_Io, 2 \<mapsto> At_Io]" and "tl_on_accept (srv_listener srv)" and "srv_connections srv = []"
proof -
  obtain seed where seed: "seed_peer e cfg = Some seed" using assms by (auto simp: can_start_def)
  obtain pool where pool: "new_buffer_pool 65536 64 (se_pool_alloc e) (se_pool_register e) = Inr pool"
    using assms by (simp add: can_start_def new_buffer_pool_def)
  have "unat (sv_memory_mb cfg * 1024 * 1024) \<noteq> 0" using assms by (simp add: can_start_def unat_eq_0)
  then obtain ls where ls: "new_local_store (unat (sv_memory_mb cfg * 1024 * 1024)) 16 (se_mmap_huge e) (se_mmap e) = Inr ls"
    using new_local_store_cases [of "unat (sv_memory_mb cfg * 1024 * 1024)" 16 "se_mmap_huge e" "se_mmap e"] assms
    unfolding can_start_def by blast
  then have "new_local_store (unat (sv_memory_mb cfg * 1024 * 1024)) (Suc 15) (se_mmap_huge e) (se_mmap e) = Inr ls" by simp
  then have rl: "ls_reachable ls" by (rule ls_reachable.start)
  let ?l = "\<lparr>tl_fd = se_tcp_fd e, tl_on_accept = False\<rparr>"
  let ?self = "\<lparr>node_host = resolve_host (se_is_ip e) (se_lookup e) (sv_host cfg), node_port = sv_gossip_port cfg\<rparr>"
  obtain ex ex' where x: "tl_start True True True ?l idle_executor = Some (?l\<lparr>tl_on_accept := True\<rparr>, ex)" "start_loops ex = Some (ex' :: 'v executor)"
    "ex_reachable ex'" "ex_ops ex' = [In_Listener, In_Frame 0, In_Frame 1, In_Frame 2]" "crt_stack ex' = []" "place ex' = [0 \<mapsto> At_Io, 1 \<mapsto> At_Io, 2 \<mapsto> At_Io]"
    by (rule start_exec [of ?l]) blast
  let ?srv = "\<lparr>srv_config = cfg, srv_ctx = \<lparr>ctx_stop_fd = se_event_fd e, ctx_running = False\<rparr>, srv_pool = pool, srv_store = ls,
    srv_node = start_node ?self (sv_data_port cfg) seed (se_now e), srv_socket = \<lparr>us_fd = se_udp_fd e\<rparr>,
    srv_listener = ?l\<lparr>tl_on_accept := True\<rparr>, srv_connections = [], srv_exec = ex'\<rparr>"
  have "start_server e = Inr ?srv" using assms seed pool ls x
    by (simp add: start_server_def can_start_def new_io_uring_context_def new_udp_socket_def new_tcp_listener_def Let_def)
  then show thesis using rl x pool_reachable.created [OF pool] node_reachable.start
    by (intro that [of ?srv]) simp_all
qed

text \<open>
  C13. The server starts exactly when its numbers can be read, the memory in bytes, which wraps at 64 bits, is not
  0, and every system call succeeds. Then the store, the buffer pool, the node and the coroutines are in initial states of their life cycles, so that all
  that is shown of them holds, and the listener and the three loops of the protocol wait for the kernel.
\<close>
theorem server_starts_iff:
  "case (start_server e :: start_error + 'v server) of
     Inl err \<Rightarrow> \<not> (\<exists>cfg. can_start e cfg)
   | Inr srv \<Rightarrow> can_start e (srv_config srv) \<and> node_reachable (srv_node srv) \<and> ls_reachable (srv_store srv) \<and>
       pool_reachable 65536 64 (srv_pool srv) {} \<and> ex_reachable (srv_exec srv) \<and>
       ex_ops (srv_exec srv) = [In_Listener, In_Frame 0, In_Frame 1, In_Frame 2] \<and>
       crt_stack (srv_exec srv) = [] \<and> tl_on_accept (srv_listener srv) \<and> srv_connections srv = []"
proof (cases "start_server e :: start_error + 'v server")
  case (Inl err)
  have "\<not> can_start e cfg" for cfg
  proof
    assume "can_start e cfg"
    then show False by (rule start_server_Inr [where 'v = 'v]) (simp add: Inl)
  qed
  then show ?thesis using Inl by simp
next
  case (Inr srv)
  then obtain cfg where cfg: "read_config (se_getenv e) (se_argv e) = Some cfg" by (auto simp: start_server_def split: option.splits)
  have "can_start e cfg"
    using Inr cfg new_local_store_cases [of "unat (sv_memory_mb cfg * 1024 * 1024)" 16 "se_mmap_huge e" "se_mmap e"]
    by (auto simp: start_server_def can_start_def new_io_uring_context_def new_buffer_pool_def new_udp_socket_def new_tcp_listener_def Let_def
        split: option.splits sum.splits if_splits)
  then show ?thesis by (rule start_server_Inr [where 'v = 'v]) (use Inr \<open>can_start e cfg\<close> in auto)
qed

text \<open>
  C36. An accepted connection: the coroutine that serves it gets the descriptor and the connection object, which is destroyed
  next, closes nothing. The coroutine is started and kept as long as it has not finished, and at the same time exactly the finished
  coroutines of earlier connections are destroyed: none while it runs or waits.
\<close>
theorem connection_accepted:
  assumes "get_return_object a (srv_exec srv) = Some ex0" and "task_start (Some a) ex0 = Some ex1" and "body ex1 = Some ex2"
    and "distinct [x \<leftarrow> srv_connections srv @ [Some a]. x \<noteq> None]" and "\<forall>b. Some b \<in> set (srv_connections srv @ [Some a]) \<longrightarrow> crt_frames ex2 b \<noteq> None"
  shows "\<exists>srv' conn'. accept_connection body a conn srv = Some (srv', conn', tc_fd conn) \<and> snd (tc_destroy conn') = None \<and>
    srv_connections srv' = [x \<leftarrow> srv_connections srv @ [Some a]. task_done ex2 x = Some False] \<and>
    (\<forall>b. crt_frames (srv_exec srv') b =
       (if Some b \<in> set (srv_connections srv @ [Some a]) \<and> place ex2 b = Some At_End then None else crt_frames ex2 b))"
proof -
  obtain ex3 where ex3: "spawn_detached body (Some a) (srv_connections srv) ex0 = Some (ex3, [x \<leftarrow> srv_connections srv @ [Some a]. task_done ex2 x = Some False])"
    "\<forall>b. crt_frames ex3 b = (if Some b \<in> set (srv_connections srv @ [Some a]) \<and> place ex2 b = Some At_End then None else crt_frames ex2 b)"
    using spawn_detached_eq [where body = body, OF assms(2-5)] by blast
  then show ?thesis using assms(1)
    by (auto simp: accept_connection_def tc_release_def tc_destroy_def tc_close_def)
qed

theorem connection_accepted_witness:
  "\<exists>srv srv' :: nat server. \<exists>conn'. start_server example_env = Inr srv \<and>
     accept_connection (await_io True True) 3 \<lparr>tc_fd = 9\<rparr> srv = Some (srv', conn', 9) \<and> srv_connections srv' = [Some 3]"
proof -
  have "dec_string 80 = ''80''" "dec_string 9 = ''9''" "dec_string 64 = ''64''" by code_simp+
  then have num: "stoi ''80'' = Some 80" "stoi ''9'' = Some 9" "stoul ''64'' = Some 64" "dec_string 80 = ''80''"
    using stoi_dec_string [of 80] stoi_dec_string [of 9] stoul_dec_string [of 64] by simp_all
  have "\<exists>cfg. can_start example_env cfg"
    by (simp add: can_start_def read_config_def env_or_def arg_or_def num seed_peer_def)
  then obtain cfg where "can_start example_env cfg" ..
  then obtain srv :: "nat server" where srv: "start_server example_env = Inr srv" "crt_stack (srv_exec srv) = []"
    "place (srv_exec srv) = [0 \<mapsto> At_Io, 1 \<mapsto> At_Io, 2 \<mapsto> At_Io]" "srv_connections srv = []" by (rule start_server_Inr)
  have "place (srv_exec srv) 3 = None" unfolding srv(3) by simp
  then have "crt_frames (srv_exec srv) 3 = None" by (simp add: place_def)
  then have "\<exists>ex0 ex1 ex2. get_return_object 3 (srv_exec srv) = Some ex0 \<and> task_start (Some 3) ex0 = Some ex1 \<and> await_io True True ex1 = Some ex2 \<and>
      task_done ex2 (Some 3) = Some False"
    using srv(2) by (simp add: coroutine_defs)
  then obtain ex0 ex1 ex2 where x: "get_return_object 3 (srv_exec srv) = Some ex0" "task_start (Some 3) ex0 = Some ex1" "await_io True True ex1 = Some ex2"
    "task_done ex2 (Some 3) = Some False" by blast
  then have "crt_frames ex2 3 \<noteq> None" by (auto simp: task_done_def)
  then show ?thesis
    using connection_accepted [where body = "await_io True True" and conn = "\<lparr>tc_fd = 9\<rparr>", OF x(1-3)] srv(1,4) x(4) by auto
qed

end
