(* ===== verification/CircuitBreaker.thy ===== *)
theory CircuitBreaker
  imports TopologyManager
begin

text \<open>
  The client's circuit breaker (\<open>src/src/sdk/circuit_breaker.h\<close> and \<open>circuit_breaker.cpp\<close>).

  Reading the steady clock is an argument (in nanoseconds, as a time point); the configured duration
  is in milliseconds as in the code. The failure counter is a mathematical integer: the code's
  \<open>int\<close> would need two billion failures in a row to overflow.
\<close>

section \<open>State and operations\<close>

datatype breaker_state = BreakerClosed | BreakerOpen | BreakerHalfOpen

record breaker_config =
  cfg_failure_threshold :: int
  cfg_open_duration :: int

record breaker_entry =
  be_state :: breaker_state
  be_consecutive_failures :: int
  be_opened_at :: time_point

record circuit_breaker =
  cb_cfg :: breaker_config
  cb_entries :: "((string \<times> u16) \<times> breaker_entry) list"

definition new_circuit_breaker :: "breaker_config \<Rightarrow> circuit_breaker" where
  "new_circuit_breaker cfg = \<lparr>cb_cfg = cfg, cb_entries = []\<rparr>"

definition new_breaker_entry :: breaker_entry where
  "new_breaker_entry = \<lparr>be_state = BreakerClosed, be_consecutive_failures = 0, be_opened_at = 0\<rparr>"

definition peer_key :: "node_endpoint \<Rightarrow> string \<times> u16" where
  "peer_key ep = (ep_host ep, ep_data_port ep)"

definition cb_allow :: "circuit_breaker \<Rightarrow> node_endpoint \<Rightarrow> time_point \<Rightarrow> circuit_breaker \<times> bool" where
  "cb_allow cb ep now =
     (case um_find (peer_key ep) (cb_entries cb) of
        None \<Rightarrow> (cb, True)
      | Some e \<Rightarrow>
          if be_state e = BreakerClosed then (cb, True)
          else if int now - int (be_opened_at e) \<ge> 1000000 * cfg_open_duration (cb_cfg cb)
          then (cb\<lparr>cb_entries := um_set (peer_key ep) (e\<lparr>be_state := BreakerHalfOpen\<rparr>) (cb_entries cb)\<rparr>, True)
          else (cb, False))"

definition cb_record_success :: "circuit_breaker \<Rightarrow> node_endpoint \<Rightarrow> circuit_breaker" where
  "cb_record_success cb ep =
     (case um_find (peer_key ep) (cb_entries cb) of
        None \<Rightarrow> cb
      | Some e \<Rightarrow>
          cb\<lparr>cb_entries := um_set (peer_key ep) (e\<lparr>be_state := BreakerClosed, be_consecutive_failures := 0\<rparr>) (cb_entries cb)\<rparr>)"

definition cb_record_failure :: "circuit_breaker \<Rightarrow> node_endpoint \<Rightarrow> time_point \<Rightarrow> circuit_breaker" where
  "cb_record_failure cb ep now =
     (let e = (case um_find (peer_key ep) (cb_entries cb) of Some e \<Rightarrow> e | None \<Rightarrow> new_breaker_entry);
          e = e\<lparr>be_consecutive_failures := be_consecutive_failures e + 1\<rparr>;
          e = (if be_consecutive_failures e \<ge> cfg_failure_threshold (cb_cfg cb)
               then e\<lparr>be_state := BreakerOpen, be_opened_at := now\<rparr> else e)
      in cb\<lparr>cb_entries := um_set (peer_key ep) e (cb_entries cb)\<rparr>)"

definition cb_open_count :: "circuit_breaker \<Rightarrow> nat" where
  "cb_open_count cb = length (filter (\<lambda>(k, e). be_state e = BreakerOpen) (cb_entries cb))"

section \<open>What a history of calls means\<close>

datatype breaker_event = Allowed node_endpoint time_point | Succeeded node_endpoint | Failed node_endpoint time_point

fun run_event :: "breaker_event \<Rightarrow> circuit_breaker \<Rightarrow> circuit_breaker" where
  "run_event (Allowed ep now) cb = fst (cb_allow cb ep now)"
| "run_event (Succeeded ep) cb = cb_record_success cb ep"
| "run_event (Failed ep now) cb = cb_record_failure cb ep now"

text \<open>Failures of a peer since its last success, and the time of its last failure; the latest event comes first.\<close>

fun failures_in_a_row :: "string \<times> u16 \<Rightarrow> breaker_event list \<Rightarrow> nat" where
  "failures_in_a_row k [] = 0"
| "failures_in_a_row k (Allowed ep now # evs) = failures_in_a_row k evs"
| "failures_in_a_row k (Succeeded ep # evs) = (if peer_key ep = k then 0 else failures_in_a_row k evs)"
| "failures_in_a_row k (Failed ep now # evs) = (if peer_key ep = k then 1 else 0) + failures_in_a_row k evs"

fun last_failure :: "string \<times> u16 \<Rightarrow> breaker_event list \<Rightarrow> time_point" where
  "last_failure k [] = 0"
| "last_failure k (Failed ep now # evs) = (if peer_key ep = k then now else last_failure k evs)"
| "last_failure k (ev # evs) = last_failure k evs"

definition run_events :: "breaker_config \<Rightarrow> breaker_event list \<Rightarrow> circuit_breaker" where
  "run_events cfg evs = foldr run_event evs (new_circuit_breaker cfg)"

definition entry_ok :: "breaker_config \<Rightarrow> (string \<times> u16) \<Rightarrow> breaker_event list \<Rightarrow> breaker_entry option \<Rightarrow> bool" where
  "entry_ok cfg k evs e \<longleftrightarrow>
     (case e of
        None \<Rightarrow> failures_in_a_row k evs = 0
      | Some e \<Rightarrow>
          be_consecutive_failures e = int (failures_in_a_row k evs) \<and>
          (be_state e = BreakerClosed \<longleftrightarrow> int (failures_in_a_row k evs) < cfg_failure_threshold cfg) \<and>
          (be_state e \<noteq> BreakerClosed \<longrightarrow> be_opened_at e = last_failure k evs))"

lemma run_events_ok:
  assumes "1 \<le> cfg_failure_threshold cfg"
  shows "cb_cfg (run_events cfg evs) = cfg \<and> entry_ok cfg k evs (um_find k (cb_entries (run_events cfg evs)))"
proof (induction evs)
  case Nil
  then show ?case by (simp add: run_events_def new_circuit_breaker_def entry_ok_def)
next
  case (Cons ev evs)
  then have cfg: "cb_cfg (run_events cfg evs) = cfg"
    and ok: "entry_ok cfg k evs (um_find k (cb_entries (run_events cfg evs)))" by simp_all
  have r: "run_events cfg (ev # evs) = run_event ev (run_events cfg evs)" by (simp add: run_events_def)
  show ?case
  proof (cases ev)
    case (Allowed ep now)
    then show ?thesis using ok cfg unfolding r
      by (auto simp: cb_allow_def entry_ok_def split: option.splits if_splits)
  next
    case (Succeeded ep)
    then show ?thesis using ok cfg assms unfolding r
      by (auto simp: cb_record_success_def entry_ok_def split: option.splits if_splits)
  next
    case (Failed ep now)
    then show ?thesis using ok cfg assms unfolding r
      by (auto simp: cb_record_failure_def entry_ok_def new_breaker_entry_def Let_def split: option.splits if_splits)
  qed
qed

section \<open>Properties\<close>



end
