(* ===== verification/ConnectionPool.thy ===== *)
theory ConnectionPool
  imports CircuitBreaker
begin

text \<open>
  The client's connection pool (\<open>src/src/sdk/connection_pool.h\<close> and \<open>connection_pool.cpp\<close>). Its
  queues of idle descriptors are those of the server's peer client, with a bound on their length;
  the ownership lemmas of \<open>PeerClient\<close> apply to them through \<open>idle_conns\<close>. The file repeats
  \<open>tcp_connect\<close>, \<open>send_all\<close> and \<open>recv_all\<close> of the topology manager.
\<close>

section \<open>State and operations\<close>

record connection_pool =
  cp_max_idle :: nat
  cp_pool :: "((string \<times> u16) \<times> fd list) list"

definition new_connection_pool :: "nat \<Rightarrow> connection_pool" where
  "new_connection_pool max_idle_per_node = \<lparr>cp_max_idle = max_idle_per_node, cp_pool = []\<rparr>"

definition cp_destroy :: "connection_pool \<Rightarrow> fd list" where
  "cp_destroy cp = concat (map snd (cp_pool cp))"

definition cp_acquire :: "connection_pool \<Rightarrow> node_endpoint \<Rightarrow> tcp_dial \<Rightarrow> connection_pool \<times> fd \<times> fd list" where
  "cp_acquire cp ep d =
     (case um_find (peer_key ep) (cp_pool cp) of
        Some (fd # q) \<Rightarrow> (cp\<lparr>cp_pool := um_set (peer_key ep) q (cp_pool cp)\<rparr>, fd, [])
      | _ \<Rightarrow> (cp, tcp_connect d))"

definition cp_release :: "connection_pool \<Rightarrow> node_endpoint \<Rightarrow> fd \<Rightarrow> connection_pool \<times> fd list" where
  "cp_release cp ep fd =
     (let q = (case um_find (peer_key ep) (cp_pool cp) of Some q \<Rightarrow> q | None \<Rightarrow> [])
      in if length q \<ge> cp_max_idle cp then (cp\<lparr>cp_pool := um_set (peer_key ep) q (cp_pool cp)\<rparr>, [fd])
         else (cp\<lparr>cp_pool := um_set (peer_key ep) (q @ [fd]) (cp_pool cp)\<rparr>, []))"

definition cp_discard :: "fd \<Rightarrow> fd list" where
  "cp_discard fd = [fd]"

definition cp_send_request :: "conn \<Rightarrow> request \<Rightarrow> conn \<times> bool" where
  "cp_send_request c req =
     (let wire = serialize_request req; (rs, out, ok) = send_all (c_wr c) (c_out c) wire
      in (c\<lparr>c_wr := rs, c_out := out\<rparr>, ok))"

definition recv_response :: "conn \<Rightarrow> conn \<times> response option" where
  "recv_response c =
     (case recv_all (c_in c) kHeaderSize of
        (ds, None) \<Rightarrow> (c\<lparr>c_in := ds\<rparr>, None)
      | (ds, Some hb) \<Rightarrow>
          let hdr = response_header_of hb
          in if rsh_value_len hdr > 0
             then case recv_all ds (unat (rsh_value_len hdr)) of
                    (ds, None) \<Rightarrow> (c\<lparr>c_in := ds\<rparr>, None)
                  | (ds, Some v) \<Rightarrow> (c\<lparr>c_in := ds\<rparr>, Some \<lparr>resp_status = rsh_status hdr, resp_value = string_of v\<rparr>)
             else (c\<lparr>c_in := ds\<rparr>, Some \<lparr>resp_status = rsh_status hdr, resp_value = []\<rparr>))"

definition cp_idle_count :: "connection_pool \<Rightarrow> nat" where
  "cp_idle_count cp = sum_list (map (\<lambda>(k, q). length q) (cp_pool cp))"

section \<open>Lemmas\<close>

lemma recv_response_eq: "recv_response c = (case read_response (c_in c) of (ds, r) \<Rightarrow> (c\<lparr>c_in := ds\<rparr>, r))"
  by (auto simp: recv_response_def read_response_def recv_all_def Let_def split: prod.split option.split)

text \<open>The idle connections, seen as those of a peer client; a dial is one that was resolved.\<close>

definition idle_conns :: "connection_pool \<Rightarrow> peer_client" where
  "idle_conns cp = \<lparr>pc_conn_pool = cp_pool cp\<rparr>"

definition as_dial :: "tcp_dial \<Rightarrow> dial" where
  "as_dial d = \<lparr>dial_socket = (if td_resolved d then td_socket d else -1), dial_pton_ok = True, dial_connect = td_connect d\<rparr>"

lemma tcp_connect_dial: "tcp_connect d = open_connection (as_dial d)"
  by (simp add: tcp_connect_def open_connection_def as_dial_def Let_def)

lemma cp_acquire_idle:
  "cp_acquire cp ep d = (cp', fd, closed) \<Longrightarrow>
   pc_acquire (idle_conns cp) (ep_host ep) (ep_data_port ep) (as_dial d) = (idle_conns cp', fd, closed) \<and> cp_max_idle cp' = cp_max_idle cp"
  by (auto simp: cp_acquire_def pc_acquire_def idle_conns_def peer_key_def tcp_connect_dial split: option.splits list.splits)

definition cp_bounded :: "connection_pool \<Rightarrow> bool" where
  "cp_bounded cp \<longleftrightarrow> (\<forall>k q. um_find k (cp_pool cp) = Some q \<longrightarrow> length q \<le> cp_max_idle cp)"

lemma cp_boundedD: "cp_bounded cp \<Longrightarrow> um_find k (cp_pool cp) = Some q \<Longrightarrow> length q \<le> cp_max_idle cp"
  unfolding cp_bounded_def by blast

lemma cp_bounded_set:
  "cp_bounded cp \<Longrightarrow> length q \<le> cp_max_idle cp \<Longrightarrow> cp_bounded (cp\<lparr>cp_pool := um_set k q (cp_pool cp)\<rparr>)"
  by (simp add: cp_bounded_def del: split_paired_All)

definition cp_ok :: "connection_pool \<Rightarrow> fd set \<Rightarrow> fd set \<Rightarrow> bool" where
  "cp_ok cp held opn \<longleftrightarrow> fds_ok (idle_conns cp) held opn \<and> cp_bounded cp"

lemma cp_ok_new: "cp_ok (new_connection_pool n) {} {}"
  by (simp add: cp_ok_def fds_ok_def idle_conns_def new_connection_pool_def pc_destroy_def cp_bounded_def)

lemma cp_ok_acquire:
  assumes ok: "cp_ok cp held opn" and fresh: "dial_fresh (as_dial d) opn" and a: "cp_acquire cp ep d = (cp', fd, closed)"
  shows "if 0 \<le> fd then closed = [] \<and> fd \<notin> held \<and> cp_ok cp' (insert fd held) (insert fd opn)
         else cp' = cp \<and> set closed \<inter> opn = {} \<and> distinct closed"
proof -
  note i = cp_acquire_idle [OF a]
  have b: "cp_bounded cp" using ok by (simp add: cp_ok_def)
  have "cp_bounded cp'" using b a cp_boundedD [OF b, of "peer_key ep"]
    by (auto simp: cp_acquire_def split: option.splits list.splits intro!: cp_bounded_set)
  moreover have "cp' = cp" if "idle_conns cp' = idle_conns cp"
    using that i by (cases cp; cases cp') (simp add: idle_conns_def)
  ultimately show ?thesis using fds_ok_acquire [OF _ fresh, of "idle_conns cp" held] i ok
    by (fastforce simp: cp_ok_def split: if_splits)
qed

lemma fds_ok_same:
  assumes "fds_ok (idle_conns cp) held opn" and "um_ok m" and "concat (map snd m) = concat (map snd (cp_pool cp))"
  shows "fds_ok (idle_conns (cp\<lparr>cp_pool := m\<rparr>)) held opn"
  using assms by (simp add: fds_ok_def idle_conns_def pc_destroy_def)

lemma cp_ok_release:
  assumes ok: "cp_ok cp held opn" and fd: "fd \<in> held" and r: "cp_release cp ep fd = (cp', closed)"
  shows "cp_ok cp' (held - {fd}) (opn - set closed)" and "set closed \<subseteq> {fd}"
proof -
  let ?q = "case um_find (peer_key ep) (cp_pool cp) of Some q \<Rightarrow> q | None \<Rightarrow> []"
  have fok: "fds_ok (idle_conns cp) held opn" and b: "cp_bounded cp" using ok by (simp_all add: cp_ok_def)
  have "length ?q \<le> cp_max_idle cp" using cp_boundedD [OF b, of "peer_key ep"] by (auto split: option.split)
  with b r have b': "cp_bounded cp'"
    by (auto simp: cp_release_def Let_def split: if_splits intro!: cp_bounded_set)
  show "set closed \<subseteq> {fd}" using r by (auto simp: cp_release_def Let_def split: if_splits)
  show "cp_ok cp' (held - {fd}) (opn - set closed)"
  proof (cases "length ?q \<ge> cp_max_idle cp")
    case True
    then have r': "cp' = cp\<lparr>cp_pool := um_set (peer_key ep) ?q (cp_pool cp)\<rparr>" "closed = [fd]"
      using r by (auto simp: cp_release_def Let_def)
    have "concat (map snd (um_set (peer_key ep) ?q (cp_pool cp))) = concat (map snd (cp_pool cp))"
    proof (cases "um_find (peer_key ep) (cp_pool cp)")
      case None
      then show ?thesis by (simp add: um_set_absent)
    next
      case (Some q)
      then show ?thesis using um_set_present [OF Some, of q] by fastforce
    qed
    moreover have "um_ok (um_set (peer_key ep) ?q (cp_pool cp))" using fok by (simp add: fds_ok_def idle_conns_def)
    ultimately have "fds_ok (idle_conns cp') held opn" unfolding r' by (intro fds_ok_same [OF fok])
    then show ?thesis using b' fds_ok_close [of _ held opn fd] fd r'(2) by (simp add: cp_ok_def)
  next
    case False
    then have r': "idle_conns cp' = pc_release (idle_conns cp) (ep_host ep) (ep_data_port ep) fd" "closed = []"
      using r by (auto simp: cp_release_def pc_release_def idle_conns_def peer_key_def Let_def)
    then show ?thesis using b' fds_ok_release [OF fok fd] by (simp add: cp_ok_def)
  qed
qed

text \<open>Histories of the pool: callers acquire, and then release or discard what they hold.\<close>

inductive cp_reachable :: "nat \<Rightarrow> connection_pool \<Rightarrow> fd set \<Rightarrow> fd set \<Rightarrow> bool" for n :: nat where
  start: "cp_reachable n (new_connection_pool n) {} {}"
| acquired: "cp_reachable n cp held opn \<Longrightarrow> dial_fresh (as_dial d) opn \<Longrightarrow> cp_acquire cp ep d = (cp', fd, closed) \<Longrightarrow> 0 \<le> fd \<Longrightarrow>
    cp_reachable n cp' (insert fd held) (insert fd opn)"
| released: "cp_reachable n cp held opn \<Longrightarrow> fd \<in> held \<Longrightarrow> cp_release cp ep fd = (cp', closed) \<Longrightarrow>
    cp_reachable n cp' (held - {fd}) (opn - set closed)"
| discarded: "cp_reachable n cp held opn \<Longrightarrow> fd \<in> held \<Longrightarrow> cp_reachable n cp (held - {fd}) (opn - set (cp_discard fd))"

lemma cp_reachable_ok: "cp_reachable n cp held opn \<Longrightarrow> cp_ok cp held opn \<and> cp_max_idle cp = n"
proof (induction rule: cp_reachable.induct)
  case start
  then show ?case using cp_ok_new by (simp add: new_connection_pool_def)
next
  case (acquired cp held opn d ep cp' fd closed)
  then show ?case using cp_ok_acquire [of cp held opn d ep cp' fd closed] cp_acquire_idle [OF acquired.hyps(3)] by simp
next
  case (released cp held opn fd ep cp' closed)
  then have "cp_max_idle cp' = n" by (auto simp: cp_release_def Let_def split: if_splits)
  then show ?case using released cp_ok_release(1) [of cp held opn fd ep cp' closed] by simp
next
  case (discarded cp held opn fd)
  then show ?case using fds_ok_close [of "idle_conns cp" held opn fd] by (simp add: cp_ok_def cp_discard_def)
qed

section \<open>Properties\<close>

text \<open>
  The client's pool neither leaks nor shares connections, and keeps at most the configured number of
  idle ones per node: every open descriptor is idle in exactly one queue or held by one caller.
\<close>
theorem connection_pool_safe:
  assumes "cp_reachable n cp held opn"
  shows "opn = set (cp_destroy cp) \<union> held \<and> set (cp_destroy cp) \<inter> held = {} \<and> distinct (cp_destroy cp) \<and>
    cp_idle_count cp = length (cp_destroy cp) \<and>
    (\<forall>ep q. um_find (peer_key ep) (cp_pool cp) = Some q \<longrightarrow> length q \<le> n)"
proof -
  note ok = cp_reachable_ok [OF assms]
  have "cp_destroy cp = pc_destroy (idle_conns cp)" by (simp add: cp_destroy_def pc_destroy_def idle_conns_def)
  moreover have "cp_idle_count cp = length (cp_destroy cp)"
    by (simp add: cp_idle_count_def cp_destroy_def length_concat comp_def case_prod_beta')
  moreover have "length q \<le> n" if "um_find (peer_key ep) (cp_pool cp) = Some q" for ep q
    using ok cp_boundedD [of cp, OF _ that] by (simp add: cp_ok_def)
  ultimately show ?thesis using ok by (simp add: cp_ok_def fds_ok_def)
qed

theorem connection_pool_safe_witness:
  "\<exists>cp. cp_idle_count cp = 0 \<and> cp_destroy cp = [] \<and> um_find (peer_key example_endpoint) (cp_pool cp) = Some []"
proof -
  let ?d = "\<lparr>td_resolved = True, td_socket = 5, td_connect = 0\<rparr>"
  let ?cp = "(new_connection_pool 0)\<lparr>cp_pool := [(peer_key example_endpoint, [])]\<rparr>"
  have "cp_acquire (new_connection_pool 0) example_endpoint ?d = (new_connection_pool 0, 5, [])"
    by (simp add: cp_acquire_def new_connection_pool_def tcp_connect_def)
  then have "cp_reachable 0 (new_connection_pool 0) (insert 5 {}) (insert 5 {})"
    by (intro cp_reachable.acquired [OF cp_reachable.start]) (auto simp: dial_fresh_def)
  moreover have "cp_release (new_connection_pool 0) example_endpoint 5 = (?cp, [5])"
    by (simp add: cp_release_def new_connection_pool_def um_set_def)
  ultimately have "cp_reachable 0 ?cp ({5} - {5}) ({5} - set [5])" by (intro cp_reachable.released [where fd = 5]) simp_all
  from connection_pool_safe [OF this] have "cp_destroy ?cp = []" "cp_idle_count ?cp = 0" by auto
  then show ?thesis by (intro exI [of _ ?cp]) (simp add: um_find_def)
qed

end
