(* ===== verification/PensieveClient.thy ===== *)
theory PensieveClient
  imports ConnectionPool
begin

text \<open>
  The client of the cache (\<open>src/src/sdk/pensieve_client.h\<close> and \<open>pensieve_client.cpp\<close>): it sends a
  request to the owner of the key, and to the next nodes of the ring when that fails.

  Per candidate, the readings of the clock, what dialling answers and what the peers answer to a
  refresh are an \<open>attempt\<close>; \<open>env i\<close> is the attempt for the \<open>i\<close>-th candidate, and \<open>net\<close> are the sockets
  behind the descriptors. The counters are 64 bits wide and wrap. \<open>max_retries\<close> is a signed
  integer that the code casts to \<open>size_t\<close> before it adds 1, so \<open>-1\<close> asks for all nodes.
\<close>

section \<open>State and operations\<close>

record client_config =
  cc_seed_host :: string
  cc_seed_port :: u16
  cc_refresh_interval :: int
  cc_max_connections_per_node :: nat
  cc_max_retries :: int
  cc_circuit_break_duration :: int
  cc_circuit_break_threshold :: int

record client_stats =
  cs_requests_total :: u64
  cs_requests_direct :: u64
  cs_requests_retried :: u64
  cs_ring_refreshes :: u64
  cs_circuit_breaks :: u64
  cs_last_latency_us :: u64

record pensieve_client =
  pn_cfg :: client_config
  pn_topo :: topology_manager
  pn_pool :: connection_pool
  pn_breaker :: circuit_breaker
  pn_stats :: client_stats

definition new_pensieve_client :: "client_config \<Rightarrow> pensieve_client" where
  "new_pensieve_client cfg =
     \<lparr>pn_cfg = cfg, pn_topo = new_topology_manager,
      pn_pool = new_connection_pool (cc_max_connections_per_node cfg),
      pn_breaker = new_circuit_breaker \<lparr>cfg_failure_threshold = cc_circuit_break_threshold cfg,
                     cfg_open_duration = cc_circuit_break_duration cfg\<rparr>,
      pn_stats = \<lparr>cs_requests_total = 0, cs_requests_direct = 0, cs_requests_retried = 0,
                  cs_ring_refreshes = 0, cs_circuit_breaks = 0, cs_last_latency_us = 0\<rparr>\<rparr>"

record attempt =
  at_allow :: time_point
  at_dial :: tcp_dial
  at_failed :: time_point
  at_elapsed_us :: u64
  at_peers :: "node_endpoint \<Rightarrow> tcp_dial \<times> conn"

definition on_failure :: "pensieve_client \<Rightarrow> node_endpoint \<Rightarrow> time_point \<Rightarrow> bool \<Rightarrow> pensieve_client \<times> bool" where
  "on_failure cl ep now first_attempt =
     (let cl = cl\<lparr>pn_breaker := cb_record_failure (pn_breaker cl) ep now\<rparr>;
          cl = (if first_attempt
                then cl\<lparr>pn_stats := (pn_stats cl)\<lparr>cs_requests_retried := cs_requests_retried (pn_stats cl) + 1\<rparr>\<rparr>
                else cl)
      in (cl, False))"

text \<open>
  The body of the loop over the candidates: the client, the sockets, the flag, the descriptors that
  are closed, and the response if there is one (\<open>None\<close> is \<open>continue\<close>).
\<close>

definition try_endpoint ::
  "attempt \<Rightarrow> request \<Rightarrow> node_endpoint \<Rightarrow> pensieve_client \<Rightarrow> (fd \<Rightarrow> conn) \<Rightarrow> bool \<Rightarrow>
   pensieve_client \<times> (fd \<Rightarrow> conn) \<times> bool \<times> fd list \<times> response option" where
  "try_endpoint a req ep cl net first_attempt =
     (case cb_allow (pn_breaker cl) ep (at_allow a) of (br, allowed) \<Rightarrow>
        let cl = cl\<lparr>pn_breaker := br\<rparr>
        in if \<not> allowed
           then (cl\<lparr>pn_stats := (pn_stats cl)\<lparr>cs_circuit_breaks := cs_circuit_breaks (pn_stats cl) + 1\<rparr>\<rparr>, net, first_attempt, [], None)
           else
             (case cp_acquire (pn_pool cl) ep (at_dial a) of (pool, fd, closed) \<Rightarrow>
                let cl = cl\<lparr>pn_pool := pool\<rparr>
                in if fd < 0
                   then (case on_failure cl ep (at_failed a) first_attempt of (cl, fa) \<Rightarrow> (cl, net, fa, closed, None))
                   else
                     (case cp_send_request (net fd) req of (c, sent) \<Rightarrow>
                        let net = net(fd := c)
                        in if \<not> sent
                           then (case on_failure cl ep (at_failed a) first_attempt of (cl, fa) \<Rightarrow>
                                   (cl, net, fa, closed @ cp_discard fd, None))
                           else
                             (case recv_response (net fd) of
                                (c, None) \<Rightarrow>
                                  (case on_failure cl ep (at_failed a) first_attempt of (cl, fa) \<Rightarrow>
                                     (cl, net(fd := c), fa, closed @ cp_discard fd, None))
                              | (c, Some resp) \<Rightarrow>
                                  (case cp_release (pn_pool cl) ep fd of (pool, closed') \<Rightarrow>
                                     let cl = cl\<lparr>pn_pool := pool, pn_breaker := cb_record_success (pn_breaker cl) ep\<rparr>;
                                         st = pn_stats cl;
                                         st = (if first_attempt then st\<lparr>cs_requests_direct := cs_requests_direct st + 1\<rparr> else st);
                                         st = st\<lparr>cs_last_latency_us := at_elapsed_us a\<rparr>;
                                         cl = cl\<lparr>pn_stats := st\<rparr>;
                                         cl = (if resp_status resp = Status_Error \<and> resp_value resp = []
                                               then cl\<lparr>pn_topo := fst (refresh (at_peers a) (pn_topo cl)),
                                                       pn_stats := st\<lparr>cs_ring_refreshes := cs_ring_refreshes st + 1\<rparr>\<rparr>
                                               else cl)
                                     in (cl, net(fd := c), first_attempt, closed @ closed', Some resp))))))"

fun execute_loop ::
  "(nat \<Rightarrow> attempt) \<Rightarrow> request \<Rightarrow> nat \<Rightarrow> node_endpoint list \<Rightarrow> pensieve_client \<Rightarrow> (fd \<Rightarrow> conn) \<Rightarrow> bool \<Rightarrow>
   pensieve_client \<times> (fd \<Rightarrow> conn) \<times> fd list \<times> response option" where
  "execute_loop env req i [] cl net first_attempt = (cl, net, [], None)"
| "execute_loop env req i (ep # eps) cl net first_attempt =
     (case try_endpoint (env i) req ep cl net first_attempt of
        (cl, net, first_attempt, closed, Some resp) \<Rightarrow> (cl, net, closed, Some resp)
      | (cl, net, first_attempt, closed, None) \<Rightarrow>
          (case execute_loop env req (Suc i) eps cl net first_attempt of
             (cl, net, closed', r) \<Rightarrow> (cl, net, closed @ closed', r)))"

definition num_targets :: "client_config \<Rightarrow> nat" where
  "num_targets cfg = unat (word_of_int (cc_max_retries cfg) + 1 :: u64)"

text \<open>The outer \<open>None\<close> would be a search for candidates that does not end.\<close>

definition execute ::
  "(nat \<Rightarrow> attempt) \<Rightarrow> opcode \<Rightarrow> string \<Rightarrow> string \<Rightarrow> pensieve_client \<Rightarrow> (fd \<Rightarrow> conn) \<Rightarrow>
   (pensieve_client \<times> (fd \<Rightarrow> conn) \<times> fd list \<times> response option) option" where
  "execute env op key v cl net =
     (let cl = cl\<lparr>pn_stats := (pn_stats cl)\<lparr>cs_requests_total := cs_requests_total (pn_stats cl) + 1\<rparr>\<rparr>
      in case find_successors (pn_topo cl) key (num_targets (pn_cfg cl)) of
           None \<Rightarrow> None
         | Some targets \<Rightarrow>
             if targets = [] then Some (cl, net, [], None)
             else Some (execute_loop env \<lparr>req_opcode = op, req_key = key, req_value = v\<rparr> 0 targets cl net True))"

definition pn_connect :: "pensieve_client \<Rightarrow> tcp_dial \<Rightarrow> conn \<Rightarrow> pensieve_client \<times> bool" where
  "pn_connect cl d c =
     (case bootstrap (pn_topo cl) d c of (topo, ok) \<Rightarrow>
        if \<not> ok then (cl\<lparr>pn_topo := topo\<rparr>, False)
        else (cl\<lparr>pn_topo := fst (start_background_refresh topo (cc_refresh_interval (pn_cfg cl)))\<rparr>, True))"

text \<open>How the public operations read the response.\<close>

definition get_result :: "response option \<Rightarrow> string option" where
  "get_result r = (case r of None \<Rightarrow> None | Some resp \<Rightarrow> if resp_status resp = Status_Ok then Some (resp_value resp) else None)"

definition ok_result :: "response option \<Rightarrow> bool" where
  "ok_result r = (case r of None \<Rightarrow> False | Some resp \<Rightarrow> resp_status resp = Status_Ok)"

definition pn_get where
  "pn_get env key cl net =
     map_option (\<lambda>(cl, net, closed, r). (cl, net, closed, get_result r)) (execute env Opcode_Get key [] cl net)"

definition pn_put where
  "pn_put env key v cl net =
     map_option (\<lambda>(cl, net, closed, r). (cl, net, closed, ok_result r)) (execute env Opcode_Put key v cl net)"

definition pn_del where
  "pn_del env key cl net =
     map_option (\<lambda>(cl, net, closed, r). (cl, net, closed, ok_result r)) (execute env Opcode_Del key [] cl net)"

definition endpoint_line :: "node_endpoint \<Rightarrow> string" where
  "endpoint_line ep =
     ''  '' @ ep_host ep @ '':'' @ dec_string (unat (ep_data_port ep)) @
     '' (gossip '' @ dec_string (unat (ep_gossip_port ep)) @ '')'' @ [char_of (10 :: nat)]"

definition cluster_info :: "pensieve_client \<Rightarrow> string" where
  "cluster_info cl =
     (let endpoints = all_endpoints (pn_topo cl)
      in ''Cluster: '' @ dec_string (length endpoints) @ '' node(s)'' @ [char_of (10 :: nat)] @
         concat (map endpoint_line endpoints))"

definition pn_get_stats :: "pensieve_client \<Rightarrow> client_stats" where
  "pn_get_stats cl = pn_stats cl"

text \<open>Destruction, in the reverse order of the members: the descriptors that the pool closes, and the topology without its thread.\<close>

definition pn_destroy :: "pensieve_client \<Rightarrow> fd list \<times> topology_manager" where
  "pn_destroy cl = (cp_destroy (pn_pool cl), tm_destroy (pn_topo cl))"

section \<open>Outcomes of an attempt\<close>

text \<open>The four ways an attempt can go.\<close>

lemma try_endpoint_cases:
  assumes "try_endpoint a req ep cl net fa = (cl', net', fa', closed, r)"
  obtains (refused) "\<not> snd (cb_allow (pn_breaker cl) ep (at_allow a))"
      "cl' = cl\<lparr>pn_breaker := fst (cb_allow (pn_breaker cl) ep (at_allow a)),
                pn_stats := (pn_stats cl)\<lparr>cs_circuit_breaks := cs_circuit_breaks (pn_stats cl) + 1\<rparr>\<rparr>"
      "net' = net" "fa' = fa" "closed = []" "r = None"
    | (unreachable) pool fd where "snd (cb_allow (pn_breaker cl) ep (at_allow a))"
      "cp_acquire (pn_pool cl) ep (at_dial a) = (pool, fd, closed)" "fd < 0"
      "on_failure (cl\<lparr>pn_breaker := fst (cb_allow (pn_breaker cl) ep (at_allow a)), pn_pool := pool\<rparr>) ep (at_failed a) fa = (cl', fa')"
      "net' = net" "r = None"
    | (broken) pool fd closed' where "snd (cb_allow (pn_breaker cl) ep (at_allow a))"
      "cp_acquire (pn_pool cl) ep (at_dial a) = (pool, fd, closed')" "0 \<le> fd" "closed = closed' @ [fd]"
      "on_failure (cl\<lparr>pn_breaker := fst (cb_allow (pn_breaker cl) ep (at_allow a)), pn_pool := pool\<rparr>) ep (at_failed a) fa = (cl', fa')"
      "\<forall>f. f \<noteq> fd \<longrightarrow> net' f = net f" "r = None"
    | (answered) pool fd closed' pool' closed'' resp where "snd (cb_allow (pn_breaker cl) ep (at_allow a))"
      "cp_acquire (pn_pool cl) ep (at_dial a) = (pool, fd, closed')" "0 \<le> fd"
      "cp_release pool ep fd = (pool', closed'')" "closed = closed' @ closed''" "r = Some resp" "fa' = fa"
      "pn_pool cl' = pool'" "pn_breaker cl' = cb_record_success (fst (cb_allow (pn_breaker cl) ep (at_allow a))) ep"
      "pn_cfg cl' = pn_cfg cl"
      "pn_topo cl' \<in> {pn_topo cl, fst (refresh (at_peers a) (pn_topo cl))}"
      "cs_requests_total (pn_stats cl') = cs_requests_total (pn_stats cl)"
      "cs_requests_retried (pn_stats cl') = cs_requests_retried (pn_stats cl)"
      "cs_requests_direct (pn_stats cl') = cs_requests_direct (pn_stats cl) + (if fa then 1 else 0)"
      "\<forall>f. f \<noteq> fd \<longrightarrow> net' f = net f"
proof -
  obtain br al where br: "cb_allow (pn_breaker cl) ep (at_allow a) = (br, al)" by fastforce
  show thesis
  proof (cases al)
    case False
    then show thesis using assms br refused by (simp add: try_endpoint_def)
  next
    case al: True
    obtain pool fd cl1 where ac: "cp_acquire (pn_pool cl) ep (at_dial a) = (pool, fd, cl1)" by (metis surj_pair)
    let ?cl = "cl\<lparr>pn_breaker := br, pn_pool := pool\<rparr>"
    obtain clf faf where f: "on_failure ?cl ep (at_failed a) fa = (clf, faf)" by fastforce
    show thesis
    proof (cases "fd < 0")
      case True
      then have "cl' = clf" "fa' = faf" "net' = net" "closed = cl1" "r = None"
        using assms br al ac f by (auto simp: try_endpoint_def)
      then show thesis using unreachable [of pool fd] br al ac f True by simp
    next
      case fd: False
      obtain c sent where se: "cp_send_request (net fd) req = (c, sent)" by fastforce
      obtain c2 ro where re: "recv_response c = (c2, ro)" by fastforce
      show thesis
      proof (cases "sent \<and> ro \<noteq> None")
        case False
        then have "cl' = clf" "fa' = faf" "\<forall>f. f \<noteq> fd \<longrightarrow> net' f = net f" "closed = cl1 @ [fd]" "r = None"
          using assms br al ac f fd se re by (auto simp: try_endpoint_def cp_discard_def Let_def split: if_splits)
        then show thesis using broken [of pool fd cl1] br al ac f fd by simp
      next
        case True
        then obtain resp where ro: "ro = Some resp" "sent" by auto
        obtain pool' cl2 where rl: "cp_release pool ep fd = (pool', cl2)" by fastforce
        have "r = Some resp" "fa' = fa" "closed = cl1 @ cl2" "pn_pool cl' = pool'" "pn_cfg cl' = pn_cfg cl"
          "pn_breaker cl' = cb_record_success br ep" "\<forall>f. f \<noteq> fd \<longrightarrow> net' f = net f"
          using assms br al ac fd se re ro rl by (auto simp: try_endpoint_def Let_def split: if_splits)
        moreover have "pn_topo cl' \<in> {pn_topo cl, fst (refresh (at_peers a) (pn_topo cl))}"
          using assms br al ac fd se re ro rl by (auto simp: try_endpoint_def Let_def split: if_splits)
        moreover have "cs_requests_total (pn_stats cl') = cs_requests_total (pn_stats cl) \<and>
            cs_requests_retried (pn_stats cl') = cs_requests_retried (pn_stats cl) \<and>
            cs_requests_direct (pn_stats cl') = cs_requests_direct (pn_stats cl) + (if fa then 1 else 0)"
          using assms br al ac fd se re ro rl by (auto simp: try_endpoint_def Let_def split: if_splits)
        ultimately show thesis using answered [of pool fd cl1 pool' cl2 resp] br al ac fd rl by simp
      qed
    qed
  qed
qed

lemma on_failure_eq:
  "on_failure cl ep now fa = (cl', fa') \<Longrightarrow> fa' = False \<and> pn_pool cl' = pn_pool cl \<and> pn_topo cl' = pn_topo cl \<and>
     pn_cfg cl' = pn_cfg cl \<and> pn_breaker cl' = cb_record_failure (pn_breaker cl) ep now \<and>
     cs_requests_total (pn_stats cl') = cs_requests_total (pn_stats cl) \<and>
     cs_requests_direct (pn_stats cl') = cs_requests_direct (pn_stats cl) \<and>
     cs_requests_retried (pn_stats cl') = cs_requests_retried (pn_stats cl) + (if fa then 1 else 0)"
  by (auto simp: on_failure_def Let_def split: if_splits)

section \<open>Counters\<close>

text \<open>\<open>counted n d r st\<close>: the total, direct and retried requests counted.\<close>

definition counted :: "pensieve_client \<Rightarrow> u64 \<times> u64 \<times> u64" where
  "counted cl = (cs_requests_total (pn_stats cl), cs_requests_direct (pn_stats cl), cs_requests_retried (pn_stats cl))"

lemma try_counted:
  assumes "try_endpoint a req ep cl net fa = (cl', net', fa', closed, r)" and "counted cl = (n, d, t)"
  shows "if \<not> fa then \<not> fa' \<and> counted cl' = (n, d, t)
    else if \<not> fa' then r = None \<and> counted cl' = (n, d, t + 1)
    else counted cl' = (if r = None then (n, d, t) else (n, d + 1, t))"
  using assms(1)
proof (cases rule: try_endpoint_cases)
  case refused
  then show ?thesis using assms(2) by (simp add: counted_def)
next
  case (unreachable pool fd)
  then show ?thesis using assms(2) on_failure_eq [OF unreachable(4)] by (simp add: counted_def)
next
  case (broken pool fd closed')
  then show ?thesis using assms(2) on_failure_eq [OF broken(5)] by (simp add: counted_def)
next
  case (answered pool fd closed' pool' closed'' resp)
  then show ?thesis using assms(2) by (simp add: counted_def)
qed

lemma execute_loop_counted:
  assumes "execute_loop env req i eps cl net fa = (cl', net', closed, r)" and "counted cl = (n, d, t)"
  shows "counted cl' \<in> (if fa then {(n, d, t), (n, d + 1, t), (n, d, t + 1)} else {(n, d, t)})"
  using assms
proof (induction eps arbitrary: i cl net fa cl' net' closed r d t)
  case Nil
  then show ?case by simp
next
  case (Cons ep eps)
  obtain cl1 net1 fa1 c1 r1 where te: "try_endpoint (env i) req ep cl net fa = (cl1, net1, fa1, c1, r1)" by (metis surj_pair)
  note tc = try_counted [OF te Cons.prems(2)]
  show ?case
  proof (cases r1)
    case (Some resp)
    then show ?thesis using Cons.prems(1) te tc by (auto split: if_splits)
  next
    case None
    obtain c2 where ex: "execute_loop env req (Suc i) eps cl1 net1 fa1 = (cl', net', c2, r)"
      using Cons.prems(1) te None by (auto split: prod.splits)
    show ?thesis
    proof (cases fa1)
      case True
      with tc None have "counted cl1 = (n, d, t)" "fa" by (auto split: if_splits)
      then show ?thesis using Cons.IH [OF ex] True by simp
    next
      case False
      then have "counted cl1 = (if fa then (n, d, t + 1) else (n, d, t))" using tc by (auto split: if_splits)
      then show ?thesis using Cons.IH [OF ex] False by (cases fa) auto
    qed
  qed
qed

lemma refresh_from_ok: "tm_ok tm \<Longrightarrow> tm_ok (fst (refresh_from peers eps tm))"
  by (induction eps) (auto simp: tm_ok_rebuild split: prod.split)

lemma refresh_ok: "tm_ok tm \<Longrightarrow> tm_ok (fst (refresh peers tm))"
  by (simp add: refresh_def refresh_from_ok)

lemma try_topo:
  assumes "try_endpoint a req ep cl net fa = (cl', net', fa', closed, r)" and "tm_ok (pn_topo cl)"
  shows "tm_ok (pn_topo cl') \<and> pn_cfg cl' = pn_cfg cl"
  using assms(1)
proof (cases rule: try_endpoint_cases)
  case refused
  then show ?thesis using assms(2) by simp
next
  case (unreachable pool fd)
  then show ?thesis using assms(2) on_failure_eq [OF unreachable(4)] by simp
next
  case (broken pool fd closed')
  then show ?thesis using assms(2) on_failure_eq [OF broken(5)] by simp
next
  case (answered pool fd closed' pool' closed'' resp)
  then show ?thesis using assms(2) refresh_ok [OF assms(2)] by auto
qed

lemma execute_loop_topo:
  assumes "execute_loop env req i eps cl net fa = (cl', net', closed, r)" and "tm_ok (pn_topo cl)"
  shows "tm_ok (pn_topo cl') \<and> pn_cfg cl' = pn_cfg cl"
  using assms
proof (induction eps arbitrary: i cl net fa cl' net' closed r)
  case (Cons ep eps)
  obtain cl1 net1 fa1 c1 r1 where te: "try_endpoint (env i) req ep cl net fa = (cl1, net1, fa1, c1, r1)" by (metis surj_pair)
  note tt = try_topo [OF te Cons.prems(2)]
  show ?case
  proof (cases r1)
    case (Some resp)
    then show ?thesis using Cons.prems(1) te tt by simp
  next
    case None
    obtain c2 where ex: "execute_loop env req (Suc i) eps cl1 net1 fa1 = (cl', net', c2, r)"
      using Cons.prems(1) te None by (auto split: prod.splits)
    then show ?thesis using Cons.IH [OF ex] tt by simp
  qed
qed simp

text \<open>The life of a client: connecting, requests, and refreshes by the background thread.\<close>

inductive client_history :: "client_config \<Rightarrow> nat \<Rightarrow> pensieve_client \<Rightarrow> bool" for cfg :: client_config where
  created: "client_history cfg 0 (new_pensieve_client cfg)"
| connected: "client_history cfg k cl \<Longrightarrow> pn_connect cl d c = (cl', ok) \<Longrightarrow> client_history cfg k cl'"
| refreshed: "client_history cfg k cl \<Longrightarrow> client_history cfg k (cl\<lparr>pn_topo := fst (refresh peers (pn_topo cl))\<rparr>)"
| requested: "client_history cfg k cl \<Longrightarrow> execute env op key v cl net = Some (cl', net', closed, r) \<Longrightarrow> client_history cfg (Suc k) cl'"

lemma execute_total:
  assumes "tm_ok (pn_topo cl)"
  shows "execute env op key v cl net \<noteq> None"
proof -
  let ?cl = "cl\<lparr>pn_stats := (pn_stats cl)\<lparr>cs_requests_total := cs_requests_total (pn_stats cl) + 1\<rparr>\<rparr>"
  obtain ts where "find_successors (pn_topo cl) key (num_targets (pn_cfg cl)) = Some ts"
  proof (cases "tm_ring (pn_topo cl) = []")
    case True
    then show ?thesis using that by (simp add: find_successors_def)
  next
    case False
    then show ?thesis using that n_nodes_loop_clockwise [OF False, of "hash_key key" "num_targets (pn_cfg cl)"]
      by (simp add: find_successors_def Let_def)
  qed
  then show ?thesis by (simp add: execute_def Let_def del: not_None_eq)
qed

lemma execute_counted:
  assumes "execute env op key v cl net = Some (cl', net', closed, r)" and "counted cl = (n, d, t)"
  shows "counted cl' \<in> {(n + 1, d, t), (n + 1, d + 1, t), (n + 1, d, t + 1)}"
proof -
  let ?cl = "cl\<lparr>pn_stats := (pn_stats cl)\<lparr>cs_requests_total := cs_requests_total (pn_stats cl) + 1\<rparr>\<rparr>"
  have c: "counted ?cl = (n + 1, d, t)" using assms(2) by (simp add: counted_def)
  obtain ts where ts: "find_successors (pn_topo cl) key (num_targets (pn_cfg cl)) = Some ts"
    using assms(1) by (auto simp: execute_def Let_def split: option.splits)
  show ?thesis
  proof (cases "ts = []")
    case True
    then show ?thesis using assms(1) ts c by (simp add: execute_def Let_def)
  next
    case False
    then have "execute_loop env \<lparr>req_opcode = op, req_key = key, req_value = v\<rparr> 0 ts ?cl net True = (cl', net', closed, r)"
      using assms(1) ts by (simp add: execute_def Let_def)
    from execute_loop_counted [OF this c] show ?thesis by simp
  qed
qed

lemma execute_topo:
  assumes "execute env op key v cl net = Some (cl', net', closed, r)" and "tm_ok (pn_topo cl)"
  shows "tm_ok (pn_topo cl') \<and> pn_cfg cl' = pn_cfg cl"
proof -
  let ?cl = "cl\<lparr>pn_stats := (pn_stats cl)\<lparr>cs_requests_total := cs_requests_total (pn_stats cl) + 1\<rparr>\<rparr>"
  obtain ts where ts: "find_successors (pn_topo cl) key (num_targets (pn_cfg cl)) = Some ts"
    using assms(1) by (auto simp: execute_def Let_def split: option.splits)
  show ?thesis
  proof (cases "ts = []")
    case True
    then show ?thesis using assms ts by (auto simp: execute_def Let_def)
  next
    case False
    then have "execute_loop env \<lparr>req_opcode = op, req_key = key, req_value = v\<rparr> 0 ts ?cl net True = (cl', net', closed, r)"
      using assms(1) ts by (simp add: execute_def Let_def)
    from execute_loop_topo [OF this] assms(2) show ?thesis by simp
  qed
qed

lemma tm_ok_running [simp]: "tm_ok (tm\<lparr>tm_running := b\<rparr>) \<longleftrightarrow> tm_ok tm"
  by (simp add: tm_ok_def)

lemma pn_connect_ok:
  assumes "pn_connect cl d c = (cl', ok)" and "tm_ok (pn_topo cl)"
  shows "tm_ok (pn_topo cl') \<and> counted cl' = counted cl"
  using assms
  by (auto simp: pn_connect_def bootstrap_def start_background_refresh_def counted_def tm_ok_rebuild split: prod.splits if_splits)

lemma client_history_ok:
  assumes "client_history cfg k cl"
  shows "tm_ok (pn_topo cl) \<and> (k < 2 ^ 64 \<longrightarrow> (\<exists>d t. counted cl = (word_of_nat k, word_of_nat d, word_of_nat t) \<and> d + t \<le> k))"
  using assms
proof (induction rule: client_history.induct)
  case created
  then show ?case by (auto simp: new_pensieve_client_def counted_def tm_ok_new intro!: exI [of _ 0])
next
  case (connected k cl d c cl' ok)
  then show ?case using pn_connect_ok [OF connected.hyps(2)] by simp
next
  case (refreshed k cl peers)
  then show ?case by (simp add: refresh_ok counted_def)
next
  case (requested k cl env op key v net cl' net' closed r)
  have "\<exists>d t. counted cl' = (word_of_nat (Suc k), word_of_nat d, word_of_nat t) \<and> d + t \<le> Suc k" if less: "Suc k < 2 ^ 64"
  proof -
    obtain d t where dt: "counted cl = (word_of_nat k, word_of_nat d, word_of_nat t)" "d + t \<le> k"
      using requested.IH less by auto
    from execute_counted [OF requested.hyps(2) dt(1)] consider
      "counted cl' = (word_of_nat k + 1, word_of_nat d, word_of_nat t)"
      | "counted cl' = (word_of_nat k + 1, word_of_nat d + 1, word_of_nat t)"
      | "counted cl' = (word_of_nat k + 1, word_of_nat d, word_of_nat t + 1)" by auto
    then show ?thesis
    proof cases
      case 1 then show ?thesis using dt(2) by (intro exI [of _ d] exI [of _ t]) (simp add: add.commute)
    next
      case 2 then show ?thesis using dt(2) by (intro exI [of _ "Suc d"] exI [of _ t]) (simp add: add.commute)
    next
      case 3 then show ?thesis using dt(2) by (intro exI [of _ d] exI [of _ "Suc t"]) (simp add: add.commute)
    qed
  qed
  then show ?case using execute_topo [OF requested.hyps(2)] requested.IH by blast
qed

section \<open>Failing over\<close>

lemma um_find_other: "k \<noteq> j \<Longrightarrow> um_find k (um_set j v m) = um_find k m"
  by simp

lemma cb_allow_local:
  "um_find k (cb_entries (fst (cb_allow cb ep now))) = um_find k (cb_entries cb) \<and> cb_cfg (fst (cb_allow cb ep now)) = cb_cfg cb"
  if "k \<noteq> peer_key ep"
  using that by (auto simp: cb_allow_def um_find_other split: option.splits)

lemma cb_failure_local:
  "um_find k (cb_entries (cb_record_failure cb ep now)) = um_find k (cb_entries cb) \<and> cb_cfg (cb_record_failure cb ep now) = cb_cfg cb"
  if "k \<noteq> peer_key ep"
  using that by (auto simp: cb_record_failure_def um_find_other Let_def)

lemma cb_allow_cong:
  "um_find (peer_key ep) (cb_entries cb) = um_find (peer_key ep) (cb_entries cb') \<Longrightarrow> cb_cfg cb = cb_cfg cb' \<Longrightarrow>
   snd (cb_allow cb ep now) = snd (cb_allow cb' ep now)"
  by (auto simp: cb_allow_def split: option.splits)

text \<open>A candidate that cannot be reached: it has no idle connection and cannot be dialled.\<close>

definition down :: "connection_pool \<Rightarrow> node_endpoint \<Rightarrow> attempt \<Rightarrow> bool" where
  "down cp ep a \<longleftrightarrow> um_find (peer_key ep) (cp_pool cp) \<in> {None, Some []} \<and> fst (tcp_connect (at_dial a)) < 0"

lemma try_down:
  assumes d: "down (pn_pool cl) ep a" and te: "try_endpoint a req ep cl net fa = (cl', net', fa', closed, r)"
  shows "r = None \<and> net' = net \<and> pn_pool cl' = pn_pool cl \<and>
    (\<forall>k. k \<noteq> peer_key ep \<longrightarrow> um_find k (cb_entries (pn_breaker cl')) = um_find k (cb_entries (pn_breaker cl))) \<and>
    cb_cfg (pn_breaker cl') = cb_cfg (pn_breaker cl)"
proof -
  have ac: "cp_acquire (pn_pool cl) ep (at_dial a) = (pn_pool cl, tcp_connect (at_dial a))"
    using d by (auto simp: down_def cp_acquire_def)
  have cfg: "cb_cfg (fst (cb_allow (pn_breaker cl) ep (at_allow a))) = cb_cfg (pn_breaker cl)"
    by (auto simp: cb_allow_def split: option.splits)
  show ?thesis using te
  proof (cases rule: try_endpoint_cases)
    case refused
    then show ?thesis using cb_allow_local cfg by (simp del: split_paired_All)
  next
    case (unreachable pool fd)
    then show ?thesis using on_failure_eq [OF unreachable(4)] ac cb_allow_local cb_failure_local cfg
      by (simp add: cb_record_failure_def Let_def del: split_paired_All)
  next
    case (broken pool fd closed')
    then show ?thesis using ac d by (auto simp: down_def)
  next
    case (answered pool fd closed' pool' closed'' resp)
    then show ?thesis using ac d by (auto simp: down_def)
  qed
qed

lemma try_healthy:
  assumes al: "snd (cb_allow (pn_breaker cl) ep (at_allow a))"
    and ac: "cp_acquire (pn_pool cl) ep (at_dial a) = (pool, fd, closed')" "0 \<le> fd"
    and w: "length (serialize_request req) \<le> sum_list (takeWhile (\<lambda>r. r \<noteq> 0) (c_wr (net fd)))"
    and p: "parse_response (avail (c_in (net fd))) = Some resp"
    and te: "try_endpoint a req ep cl net fa = (cl', net', fa', closed, r)"
  shows "r = Some resp \<and> c_out (net' fd) = c_out (net fd) @ serialize_request req \<and> (\<forall>f. f \<noteq> fd \<longrightarrow> net' f = net f)"
proof -
  obtain rs where rs: "write_all (c_wr (net fd)) (c_out (net fd)) (serialize_request req) = (rs, c_out (net fd) @ serialize_request req, True)"
    using write_all_complete [OF w] by blast
  obtain ds where ds: "read_response (c_in (net fd)) = (ds, Some resp)"
    using read_response_parse [of "c_in (net fd)"] p by (metis prod.collapse)
  obtain br where br: "cb_allow (pn_breaker cl) ep (at_allow a) = (br, True)" using al by (metis prod.collapse)
  obtain pool' cl2 where rl: "cp_release pool ep fd = (pool', cl2)" by fastforce
  show ?thesis using te br ac rs ds rl
    by (auto simp: try_endpoint_def cp_send_request_def recv_response_eq send_all_def Let_def split: if_splits)
qed

lemma execute_loop_failover:
  assumes "\<forall>j < length pre. down (pn_pool cl) (pre ! j) (env (i + j))" and "\<forall>p \<in> set pre. peer_key p \<noteq> peer_key ep"
    and "snd (cb_allow (pn_breaker cl) ep (at_allow (env (i + length pre))))"
    and "cp_acquire (pn_pool cl) ep (at_dial (env (i + length pre))) = (pool, fd, closed')" and "0 \<le> fd"
    and "length (serialize_request req) \<le> sum_list (takeWhile (\<lambda>r. r \<noteq> 0) (c_wr (net fd)))"
    and "parse_response (avail (c_in (net fd))) = Some resp"
    and "execute_loop env req i (pre @ ep # post) cl net fa = (cl', net', closed, r)"
  shows "r = Some resp \<and> c_out (net' fd) = c_out (net fd) @ serialize_request req \<and> (\<forall>f. f \<noteq> fd \<longrightarrow> net' f = net f)"
  using assms
proof (induction pre arbitrary: i cl fa closed)
  case Nil
  obtain cl1 net1 fa1 c1 r1 where te: "try_endpoint (env i) req ep cl net fa = (cl1, net1, fa1, c1, r1)" by (metis surj_pair)
  have h: "r1 = Some resp \<and> c_out (net1 fd) = c_out (net fd) @ serialize_request req \<and> (\<forall>f. f \<noteq> fd \<longrightarrow> net1 f = net f)"
    by (rule try_healthy [OF _ _ Nil.prems(5-7) te]) (use Nil.prems(3,4) in simp_all)
  then show ?case using Nil.prems(8) te by auto
next
  case (Cons p pre)
  obtain cl1 net1 fa1 c1 r1 where te: "try_endpoint (env i) req p cl net fa = (cl1, net1, fa1, c1, r1)" by (metis surj_pair)
  have "down (pn_pool cl) p (env i)" using Cons.prems(1) by (metis add_0_right length_greater_0_conv list.distinct(1) nth_Cons_0)
  note td = try_down [OF this te]
  obtain c2 where ex: "execute_loop env req (Suc i) (pre @ ep # post) cl1 net fa1 = (cl', net', c2, r)"
    using Cons.prems(8) te td by (auto split: prod.splits)
  have "peer_key ep \<noteq> peer_key p" using Cons.prems(2) by auto
  with td have al: "um_find (peer_key ep) (cb_entries (pn_breaker cl1)) = um_find (peer_key ep) (cb_entries (pn_breaker cl))"
    "cb_cfg (pn_breaker cl1) = cb_cfg (pn_breaker cl)" by blast+
  show ?case
  proof (rule Cons.IH [OF _ _ _ _ Cons.prems(5-7) ex])
    show "\<forall>j < length pre. down (pn_pool cl1) (pre ! j) (env (Suc i + j))"
    proof (intro allI impI)
      fix j assume "j < length pre"
      then have "down (pn_pool cl) ((p # pre) ! Suc j) (env (i + Suc j))" using Cons.prems(1) by (metis Suc_less_eq length_Cons)
      then show "down (pn_pool cl1) (pre ! j) (env (Suc i + j))" using td by simp
    qed
    show "snd (cb_allow (pn_breaker cl1) ep (at_allow (env (Suc i + length pre))))"
      using Cons.prems(3) cb_allow_cong [OF al] by simp
    show "cp_acquire (pn_pool cl1) ep (at_dial (env (Suc i + length pre))) = (pool, fd, closed')" using Cons.prems(4) td by simp
  qed (use Cons.prems(2) in simp)
qed

section \<open>An example\<close>

abbreviation example_config :: client_config where
  "example_config \<equiv> \<lparr>cc_seed_host = ''b'', cc_seed_port = 2, cc_refresh_interval = 10, cc_max_connections_per_node = 4,
     cc_max_retries = 2, cc_circuit_break_duration = 5000, cc_circuit_break_threshold = 3\<rparr>"

abbreviation example_client :: pensieve_client where
  "example_client \<equiv> (new_pensieve_client example_config)\<lparr>pn_topo := example_topology\<rparr>"

abbreviation example_attempt :: attempt where
  "example_attempt \<equiv> \<lparr>at_allow = 1, at_dial = \<lparr>td_resolved = True, td_socket = 5, td_connect = 0\<rparr>, at_failed = 2,
     at_elapsed_us = 3, at_peers = (\<lambda>_. (\<lparr>td_resolved = False, td_socket = 0, td_connect = 0\<rparr>, example_conn))\<rparr>"

lemma single_target:
  assumes ok: "tm_ok tm" and nodes: "tm_nodes tm = [ep]"
  shows "find_successors tm key n = Some [ep]"
proof -
  obtain idx where idx: "find_successors tm key n = Some (map (\<lambda>i. tm_nodes tm ! i) idx)"
    "distinct idx" "\<forall>i \<in> set idx. i < 1" "idx \<noteq> []"
    using find_successors_walk [OF ok, of key n] unfolding nodes by auto
  then obtain i js where i: "idx = i # js" by (cases idx) auto
  then have "i = 0" "js = []" using idx(2,3) by (simp, cases js) auto
  then show ?thesis using idx(1) i nodes by simp
qed

lemma example_targets: "find_successors example_topology ''k'' 3 = Some ([] @ example_endpoint # [])"
  using single_target [of example_topology example_endpoint] by (simp add: tm_ok_rebuild rebuild_nodes)

section \<open>Descriptors\<close>

text \<open>The descriptor that the system opens in an attempt: one if the pool has none and the name resolves, even if connecting fails then.\<close>

definition dial_opens :: "tcp_dial \<Rightarrow> fd set" where
  "dial_opens d = (if td_resolved d \<and> 0 \<le> td_socket d then {td_socket d} else {})"

definition dialed :: "connection_pool \<Rightarrow> node_endpoint \<Rightarrow> tcp_dial \<Rightarrow> fd set" where
  "dialed cp ep d =
     (case um_find (peer_key ep) (cp_pool cp) of
        Some (fd # q) \<Rightarrow> {}
      | _ \<Rightarrow> dial_opens d)"

definition attempt_dialed :: "attempt \<Rightarrow> node_endpoint \<Rightarrow> pensieve_client \<Rightarrow> fd set" where
  "attempt_dialed a ep cl = (if snd (cb_allow (pn_breaker cl) ep (at_allow a)) then dialed (pn_pool cl) ep (at_dial a) else {})"

lemma acquire_dialed:
  assumes ok: "cp_ok cp held opn" and fresh: "dial_fresh (as_dial d) opn" and a: "cp_acquire cp ep d = (cp', fd, closed)"
  shows "if 0 \<le> fd then opn \<union> dialed cp ep d = insert fd opn else (opn \<union> dialed cp ep d) - set closed = opn"
proof (cases "\<exists>f q. um_find (peer_key ep) (cp_pool cp) = Some (f # q)")
  case True
  then obtain f q where q: "um_find (peer_key ep) (cp_pool cp) = Some (f # q)" by blast
  then have "f \<in> set (pc_destroy (idle_conns cp))" using um_find_SomeD [OF q] by (force simp: pc_destroy_def idle_conns_def)
  then have "f \<in> opn" "0 \<le> f" using ok by (auto simp: cp_ok_def fds_ok_def)
  then show ?thesis using q a by (auto simp: cp_acquire_def dialed_def)
next
  case False
  then have "tcp_connect d = (fd, closed)" "dialed cp ep d = dial_opens d"
    using a by (auto simp: cp_acquire_def dialed_def split: option.splits list.splits)
  then show ?thesis using fresh by (auto simp: tcp_connect_def dial_opens_def dial_fresh_def as_dial_def Let_def split: if_splits)
qed

text \<open>Fetching the topology closes what it opens, on every path.\<close>

lemma fetch_topology_closes: "fetch_topology d c out = (c', closed, out', ok) \<Longrightarrow> set closed = dial_opens d \<and> length closed \<le> 1"
  by (auto simp: fetch_topology_def tcp_connect_def dial_opens_def Let_def split: if_splits prod.splits option.splits)

text \<open>After an attempt the open descriptors are again exactly the idle ones.\<close>

lemma attempt_descriptors:
  assumes ok: "cp_ok (pn_pool cl) {} opn" and fresh: "dial_fresh (as_dial (at_dial a)) opn"
    and te: "try_endpoint a req ep cl net fa = (cl', net', fa', closed, r)"
  shows "cp_ok (pn_pool cl') {} ((opn \<union> attempt_dialed a ep cl) - set closed)"
  using te
proof (cases rule: try_endpoint_cases)
  case refused
  then show ?thesis using ok by (simp add: attempt_dialed_def)
next
  case (unreachable pool fd)
  then show ?thesis using ok on_failure_eq [OF unreachable(4)] acquire_dialed [OF ok fresh unreachable(2)] cp_ok_acquire [OF ok fresh unreachable(2)]
    by (simp add: attempt_dialed_def)
next
  case (broken pool fd closed')
  have c: "closed' = []" and p: "cp_ok pool {fd} (insert fd opn)" using cp_ok_acquire [OF ok fresh broken(2)] broken(3) by simp_all
  have "cp_ok pool ({fd} - {fd}) (insert fd opn - {fd})" using p fds_ok_close [of "idle_conns pool" "{fd}" "insert fd opn" fd] by (simp add: cp_ok_def)
  moreover have "opn \<union> dialed (pn_pool cl) ep (at_dial a) = insert fd opn" using acquire_dialed [OF ok fresh broken(2)] broken(3) by simp
  ultimately show ?thesis using on_failure_eq [OF broken(5)] broken(1,4) c by (simp add: attempt_dialed_def)
next
  case (answered pool fd closed' pool' closed'' resp)
  have c: "closed' = []" and p: "cp_ok pool {fd} (insert fd opn)" using cp_ok_acquire [OF ok fresh answered(2)] answered(3) by simp_all
  have "cp_ok pool' ({fd} - {fd}) (insert fd opn - set closed'')" by (rule cp_ok_release(1) [OF p _ answered(4)]) simp
  moreover have "opn \<union> dialed (pn_pool cl) ep (at_dial a) = insert fd opn" using acquire_dialed [OF ok fresh answered(2)] answered(3) by simp
  ultimately show ?thesis using answered(1,5,8) c by (simp add: attempt_dialed_def)
qed

text \<open>
  The open descriptors in the course of a request, next to whether every descriptor that the system
  opened was new at that time.
\<close>

fun descriptors ::
  "(nat \<Rightarrow> attempt) \<Rightarrow> request \<Rightarrow> nat \<Rightarrow> node_endpoint list \<Rightarrow> pensieve_client \<Rightarrow> (fd \<Rightarrow> conn) \<Rightarrow> bool \<Rightarrow> fd set \<Rightarrow> bool \<times> fd set" where
  "descriptors env req i [] cl net fa opn = (True, opn)"
| "descriptors env req i (ep # eps) cl net fa opn =
     (case try_endpoint (env i) req ep cl net fa of (cl', net', fa', closed, r) \<Rightarrow>
        let fresh = dial_fresh (as_dial (at_dial (env i))) opn;
            opn' = (opn \<union> attempt_dialed (env i) ep cl) - set closed
        in case r of
             Some _ \<Rightarrow> (fresh, opn')
           | None \<Rightarrow> (case descriptors env req (Suc i) eps cl' net' fa' opn' of (f, opn'') \<Rightarrow> (fresh \<and> f, opn'')))"

lemma execute_loop_descriptors:
  assumes "cp_ok (pn_pool cl) {} opn" and "execute_loop env req i eps cl net fa = (cl', net', closed, r)"
    and "descriptors env req i eps cl net fa opn = (True, opn')"
  shows "cp_ok (pn_pool cl') {} opn'"
  using assms
proof (induction eps arbitrary: i cl net fa opn closed)
  case (Cons ep eps)
  obtain cl1 net1 fa1 c1 r1 where te: "try_endpoint (env i) req ep cl net fa = (cl1, net1, fa1, c1, r1)" by (metis surj_pair)
  let ?opn = "(opn \<union> attempt_dialed (env i) ep cl) - set c1"
  have fresh: "dial_fresh (as_dial (at_dial (env i))) opn" using Cons.prems(3) te by (auto simp: Let_def split: option.splits prod.splits)
  note ok = attempt_descriptors [OF Cons.prems(1) fresh te]
  show ?case
  proof (cases r1)
    case (Some resp)
    then show ?thesis using Cons.prems(2,3) te ok by (auto simp: Let_def)
  next
    case None
    obtain c2 where ex: "execute_loop env req (Suc i) eps cl1 net1 fa1 = (cl', net', c2, r)" using Cons.prems(2) te None by (auto split: prod.splits)
    have "descriptors env req (Suc i) eps cl1 net1 fa1 ?opn = (True, opn')" using Cons.prems(3) te None by (auto simp: Let_def split: prod.splits)
    then show ?thesis by (rule Cons.IH [OF ok ex])
  qed
qed simp

text \<open>The life of a client with the open descriptors of its requests.\<close>

inductive client_life :: "client_config \<Rightarrow> pensieve_client \<Rightarrow> fd set \<Rightarrow> bool" for cfg :: client_config where
  life_created: "client_life cfg (new_pensieve_client cfg) {}"
| life_connected: "client_life cfg cl opn \<Longrightarrow> pn_connect cl d c = (cl', ok) \<Longrightarrow> client_life cfg cl' opn"
| life_refreshed: "client_life cfg cl opn \<Longrightarrow> client_life cfg (cl\<lparr>pn_topo := fst (refresh peers (pn_topo cl))\<rparr>) opn"
| life_requested: "client_life cfg cl opn \<Longrightarrow> execute env op key v cl net = Some (cl', net', closed, r) \<Longrightarrow>
    find_successors (pn_topo cl) key (num_targets (pn_cfg cl)) = Some targets \<Longrightarrow>
    descriptors env \<lparr>req_opcode = op, req_key = key, req_value = v\<rparr> 0 targets
      (cl\<lparr>pn_stats := (pn_stats cl)\<lparr>cs_requests_total := cs_requests_total (pn_stats cl) + 1\<rparr>\<rparr>) net True opn = (True, opn') \<Longrightarrow>
    client_life cfg cl' opn'"

lemma client_life_ok: "client_life cfg cl opn \<Longrightarrow> cp_ok (pn_pool cl) {} opn"
proof (induction rule: client_life.induct)
  case life_created
  then show ?case by (simp add: new_pensieve_client_def cp_ok_new)
next
  case (life_connected cl opn d c cl' ok)
  then show ?case by (auto simp: pn_connect_def split: prod.splits if_splits)
next
  case (life_requested cl opn env op key v net cl' net' closed r targets opn')
  show ?case
  proof (cases "targets = []")
    case True
    then show ?thesis using life_requested by (auto simp: execute_def Let_def)
  next
    case False
    then have "execute_loop env \<lparr>req_opcode = op, req_key = key, req_value = v\<rparr> 0 targets
        (cl\<lparr>pn_stats := (pn_stats cl)\<lparr>cs_requests_total := cs_requests_total (pn_stats cl) + 1\<rparr>\<rparr>) net True = (cl', net', closed, r)"
      using life_requested.hyps(2,3) by (simp add: execute_def Let_def)
    from execute_loop_descriptors [OF _ this life_requested.hyps(4)] show ?thesis using life_requested.IH by simp
  qed
qed simp

section \<open>Properties\<close>

text \<open>A seed that answers, whatever the configuration.\<close>

abbreviation example_dial :: tcp_dial where
  "example_dial \<equiv> \<lparr>td_resolved = True, td_socket = 4, td_connect = 0\<rparr>"

abbreviation example_seed :: conn where
  "example_seed \<equiv>
     \<lparr>c_in = [Data (serialize_response (serve_cluster_info
        \<lparr>ml_nodes = [(example_peer, (default_node_info example_peer 0)\<lparr>info_data_port := 2\<rparr>)], ml_on_change = False\<rparr>))],
      c_wr = [8], c_out = []\<rparr>"

lemma example_connect:
  "snd (pn_connect (new_pensieve_client cfg) example_dial example_seed)"
  "tm_nodes (pn_topo (fst (pn_connect (new_pensieve_client cfg) example_dial example_seed))) = [example_endpoint]"
proof -
  let ?ml = "\<lparr>ml_nodes = [(example_peer, (default_node_info example_peer 0)\<lparr>info_data_port := 2\<rparr>)], ml_on_change = False\<rparr>"
  have "tcp_connect example_dial = (4, [])" by (simp add: tcp_connect_def)
  moreover have "avail (c_in example_seed) = serialize_response (serve_cluster_info ?ml) @ []" using serialize_response_nonempty by simp
  moreover have "response_fits (serve_cluster_info ?ml)"
    by (simp add: response_fits_def serve_cluster_info_def Let_def memcpy_to_def default_node_info_def)
  moreover have al: "alive_endpoints ?ml = [example_endpoint]" by (simp add: alive_endpoints_def default_node_info_def)
  ultimately have "\<exists>tm'. bootstrap new_topology_manager example_dial example_seed = (tm', True) \<and> tm_nodes tm' = alive_endpoints ?ml \<and> tm_ok tm'"
    by (intro bootstrap_alive [where fd = 4 and closed = "[]" and rest = "[]"]) (simp_all add: al)
  then obtain tm' where b: "bootstrap new_topology_manager example_dial example_seed = (tm', True)" and n: "tm_nodes tm' = [example_endpoint]"
    unfolding al by blast
  have t: "pn_topo (new_pensieve_client cfg) = new_topology_manager" by (simp add: new_pensieve_client_def)
  show "snd (pn_connect (new_pensieve_client cfg) example_dial example_seed)" unfolding pn_connect_def t by (simp only: b prod.case) simp
  show "tm_nodes (pn_topo (fst (pn_connect (new_pensieve_client cfg) example_dial example_seed))) = [example_endpoint]"
    unfolding pn_connect_def t by (simp only: b prod.case) (simp add: n start_background_refresh_def)
qed

lemma connected_execute:
  assumes "tm_ok (pn_topo cl)"
  obtains cl' net' closed r where "execute env op key v cl net = Some (cl', net', closed, r)" and "tm_ok (pn_topo cl')"
proof -
  obtain cl' net' closed r where ex: "execute env op key v cl net = Some (cl', net', closed, r)"
    using execute_total [OF assms, of env op key v net] by fastforce
  then show thesis using execute_topo [OF ex assms] that by blast
qed

lemma connect_topo: "pn_connect (new_pensieve_client cfg) d c = (cl, ok) \<Longrightarrow> tm_ok (pn_topo cl)"
  using client_history_ok [OF client_history.connected [OF client_history.created]] by blast

text \<open>
  A request always comes to an end, and the client's counters mean what they say: after \<open>k\<close> requests
  the total is \<open>k\<close>, and no request is counted both as answered at the first attempt and as retried
  (as long as the 64-bit counters have not wrapped).
\<close>
theorem client_counters:
  assumes "client_history cfg k cl"
  shows "execute env op key v cl net \<noteq> None \<and>
    (k < 2 ^ 64 \<longrightarrow> unat (cs_requests_total (pn_stats cl)) = k \<and>
       unat (cs_requests_direct (pn_stats cl)) + unat (cs_requests_retried (pn_stats cl)) \<le> k)"
proof -
  note ok = client_history_ok [OF assms]
  have "unat (cs_requests_total (pn_stats cl)) = k \<and>
       unat (cs_requests_direct (pn_stats cl)) + unat (cs_requests_retried (pn_stats cl)) \<le> k" if k: "k < 2 ^ 64"
  proof -
    obtain d t where dt: "counted cl = (word_of_nat k, word_of_nat d, word_of_nat t)" "d + t \<le> k" using ok k by blast
    then have "d < 2 ^ 64" "t < 2 ^ 64" using k by simp_all
    then show ?thesis using dt k by (simp add: counted_def unat_of_nat)
  qed
  then show ?thesis using execute_total ok by blast
qed

theorem client_counters_witness:
  "\<exists>cfg cl. client_history cfg 0 cl \<and> unat (cs_requests_total (pn_stats cl)) = 0"
proof -
  have "client_history cfg 0 (new_pensieve_client cfg)" for cfg by (rule client_history.created)
  moreover from client_counters [OF this] have "unat (cs_requests_total (pn_stats (new_pensieve_client cfg))) = 0" for cfg by simp
  ultimately show ?thesis by blast
qed



text \<open>
  No attempt leaks a connection: whatever the outcome, afterwards the callers hold what they held
  before, and what the attempt opened is idle in the pool or closed.
\<close>
theorem attempt_keeps_descriptors:
  assumes "cp_ok (pn_pool cl) held opn" and "dial_fresh (as_dial (at_dial a)) opn"
    and "try_endpoint a req ep cl net fa = (cl', net', fa', closed, r)"
  shows "\<exists>opn'. cp_ok (pn_pool cl') held opn' \<and> opn - set closed \<subseteq> opn' \<and> set closed \<inter> held = {}"
  using assms(3)
proof (cases rule: try_endpoint_cases)
  case refused
  then show ?thesis using assms(1) by (intro exI [of _ opn]) simp
next
  case (unreachable pool fd)
  note on = on_failure_eq [OF unreachable(4)] and ac = cp_ok_acquire [OF assms(1,2) unreachable(2)]
  have "held \<subseteq> opn" using assms(1) by (auto simp: cp_ok_def fds_ok_def)
  then show ?thesis using on ac unreachable(3) assms(1) by (intro exI [of _ opn]) auto
next
  case (broken pool fd closed')
  note on = on_failure_eq [OF broken(5)] and ac = cp_ok_acquire [OF assms(1,2) broken(2)]
  have fd: "fd \<notin> held" "closed' = []" and ok: "cp_ok pool (insert fd held) (insert fd opn)" using ac broken(3) by simp_all
  then have "cp_ok pool (insert fd held - {fd}) (insert fd opn - {fd})"
    using fds_ok_close [of "idle_conns pool" "insert fd held" "insert fd opn" fd] by (simp add: cp_ok_def)
  moreover have "insert fd held - {fd} = held" using fd(1) by blast
  ultimately show ?thesis using on broken(4) fd by (intro exI [of _ "insert fd opn - {fd}"]) auto
next
  case (answered pool fd closed' pool' closed'' resp)
  note ac = cp_ok_acquire [OF assms(1,2) answered(2)]
  have fd: "fd \<notin> held" "closed' = []" and ok: "cp_ok pool (insert fd held) (insert fd opn)" using ac answered(3) by simp_all
  note rl = cp_ok_release [OF ok _ answered(4)]
  have "insert fd held - {fd} = held" using fd(1) by blast
  then show ?thesis using rl answered(5,8) fd by (intro exI [of _ "insert fd opn - set closed''"]) auto
qed

theorem attempt_keeps_descriptors_witness:
  "\<exists>net cl' net' fa' closed r opn'. try_endpoint example_attempt example_request example_endpoint example_client net True = (cl', net', fa', closed, r) \<and>
     cp_ok (pn_pool cl') {} opn'"
proof -
  obtain cl' net' fa' closed r where te: "try_endpoint example_attempt example_request example_endpoint example_client (\<lambda>_. example_conn) True =
      (cl', net', fa', closed, r)" by (metis surj_pair)
  have "cp_ok (pn_pool example_client) {} {}" by (simp add: new_pensieve_client_def cp_ok_new)
  moreover have "dial_fresh (as_dial (at_dial example_attempt)) {}" by (simp add: dial_fresh_def)
  ultimately show ?thesis using attempt_keeps_descriptors [OF _ _ te] te by blast
qed

text \<open>
  C31. A client leaks no connection and closes none twice: at any time between two requests the open
  descriptors are those that its destructor closes, each once, and no node has more idle connections
  than the pool allows. This holds whatever the nodes answered and however the requests failed over,
  as long as the system hands out new descriptors. A descriptor for fetching the topology is closed by the
  fetch that opened it. The destructor stops the refresh thread too.
\<close>
theorem client_leaks_nothing:
  assumes "client_life cfg cl opn"
  shows "set (fst (pn_destroy cl)) = opn \<and> distinct (fst (pn_destroy cl)) \<and> (\<forall>fd. fd \<in> opn \<longrightarrow> 0 \<le> fd) \<and>
    (\<forall>ep q. um_find (peer_key ep) (cp_pool (pn_pool cl)) = Some q \<longrightarrow> length q \<le> cp_max_idle (pn_pool cl)) \<and>
    set (fst (snd (fetch_topology d c out))) = dial_opens d \<and> length (fst (snd (fetch_topology d c out))) \<le> 1 \<and>
    \<not> tm_running (snd (pn_destroy cl))"
proof -
  note ok = client_life_ok [OF assms]
  have "fst (pn_destroy cl) = pc_destroy (idle_conns (pn_pool cl))" by (simp add: pn_destroy_def cp_destroy_def pc_destroy_def idle_conns_def)
  moreover have "length q \<le> cp_max_idle (pn_pool cl)" if "um_find (peer_key ep) (cp_pool (pn_pool cl)) = Some q" for ep q
    using ok cp_boundedD [OF _ that] by (simp add: cp_ok_def)
  moreover have "\<not> tm_running (snd (pn_destroy cl))" by (simp add: pn_destroy_def tm_destroy_def stop_background_refresh_def)
  moreover have "set (fst (snd (fetch_topology d c out))) = dial_opens d \<and> length (fst (snd (fetch_topology d c out))) \<le> 1"
    using fetch_topology_closes by (metis prod.collapse)
  ultimately show ?thesis using ok by (auto simp: cp_ok_def fds_ok_def)
qed

theorem client_leaks_nothing_witness:
  "\<exists>cl cl' net' closed r opn. execute (\<lambda>_. example_attempt) Opcode_Get ''k'' [] cl (\<lambda>_. example_conn) = Some (cl', net', closed, r) \<and>
     client_life example_config cl' opn \<and> set (fst (pn_destroy cl')) = opn \<and> distinct (fst (pn_destroy cl'))"
proof -
  let ?env = "\<lambda>_ :: nat. example_attempt" and ?net = "\<lambda>_ :: fd. example_conn"
  obtain cl ok where cn: "pn_connect (new_pensieve_client example_config) example_dial example_seed = (cl, ok)" by (metis surj_pair)
  then have life: "client_life example_config cl {}" by (rule life_connected [OF life_created])
  have tm: "tm_ok (pn_topo cl)" by (rule connect_topo [OF cn])
  obtain cl' net' closed r where ex: "execute ?env Opcode_Get ''k'' [] cl ?net = Some (cl', net', closed, r)"
    by (rule connected_execute [OF tm])
  have "tm_nodes (pn_topo cl) = [example_endpoint]" using example_connect(2) [of example_config] cn by simp
  then have t: "find_successors (pn_topo cl) ''k'' (num_targets (pn_cfg cl)) = Some [example_endpoint]" by (rule single_target [OF tm])
  have "fst (descriptors ?env req 0 [example_endpoint] c ?net True {})" for req c
    by (auto simp: Let_def dial_fresh_def split: prod.splits option.splits)
  then obtain opn where "descriptors ?env \<lparr>req_opcode = Opcode_Get, req_key = ''k'', req_value = []\<rparr> 0 [example_endpoint]
      (cl\<lparr>pn_stats := (pn_stats cl)\<lparr>cs_requests_total := cs_requests_total (pn_stats cl) + 1\<rparr>\<rparr>) ?net True {} = (True, opn)"
    by (metis (full_types) prod.collapse)
  then have "client_life example_config cl' opn" by (rule life_requested [OF life ex t])
  with client_leaks_nothing [OF this] ex show ?thesis by blast
qed

end
