(* ===== verification/Cli.thy ===== *)
theory Cli
  imports PensieveClient StdString
begin

text \<open>
  The command-line client (\<open>src/src/sdk/cli.cpp\<close>): it reads its arguments, connects a client to the seed,
  and runs one command.

  What is printed to the standard output and to the standard error are strings, the result is the exit
  code. \<open>None\<close> is an exception that nobody catches. The dial and the socket for the bootstrap, and the environment of the
  request are arguments, as in \<open>PensieveClient\<close>.
\<close>

section \<open>Arguments\<close>

abbreviation newline :: string where
  "newline \<equiv> [CHR 0x0A]"

definition usage :: "string \<Rightarrow> string" where
  "usage prog =
     ''Usage: '' @ prog @ '' --seed HOST:PORT <command> [args...]'' @ newline @
     newline @ ''Commands:'' @ newline @
     ''  get KEY            Retrieve value for KEY'' @ newline @
     ''  put KEY VALUE      Store VALUE under KEY'' @ newline @
     ''  del KEY            Delete KEY'' @ newline @
     ''  info               Print cluster topology'' @ newline @
     ''  stats              Print client statistics'' @ newline"

definition cli_parse_seed :: "string \<Rightarrow> (string \<times> u16) option" where
  "cli_parse_seed seed =
     (case rsplit_colon seed of
        None \<Rightarrow> Some (seed, 11211)
      | Some (host, port) \<Rightarrow> map_option (\<lambda>p. (host, word_of_int p)) (stoi port))"

text \<open>The loop over the arguments: the seed and the index after it, from the last \<open>--seed\<close> that has a successor.\<close>

fun scan_args :: "nat \<Rightarrow> string list \<Rightarrow> string \<times> nat \<Rightarrow> string \<times> nat" where
  "scan_args i (arg # v # rest) (seed_str, cmd_start) =
     (if arg = ''--seed'' then scan_args (i + 2) rest (v, i + 2)
      else scan_args (i + 1) (v # rest) (seed_str, cmd_start))"
| "scan_args i _ st = st"

section \<open>Commands\<close>

text \<open>A command yields the client, the sockets, the descriptors closed, both outputs and the exit code.\<close>

type_synonym cmd_result = "(pensieve_client \<times> (fd \<Rightarrow> conn) \<times> fd list \<times> string \<times> string \<times> int) option"

type_synonym cmd_handler = "(nat \<Rightarrow> attempt) \<Rightarrow> string list \<Rightarrow> nat \<Rightarrow> pensieve_client \<Rightarrow> (fd \<Rightarrow> conn) \<Rightarrow> cmd_result"

definition cmd_get :: cmd_handler where
  "cmd_get env argv cmd_start cl net =
     (if cmd_start + 1 \<ge> length argv then Some (cl, net, [], [], ''error: get requires KEY'' @ newline, 1)
      else map_option (\<lambda>(cl, net, closed, val).
             case val of
               Some v \<Rightarrow> (cl, net, closed, ''OK: '' @ v @ newline, [], 0)
             | None \<Rightarrow> (cl, net, closed, ''NOT_FOUND'' @ newline, [], 0))
             (pn_get env (argv ! (cmd_start + 1)) cl net))"

definition cmd_put :: cmd_handler where
  "cmd_put env argv cmd_start cl net =
     (if cmd_start + 2 \<ge> length argv then Some (cl, net, [], [], ''error: put requires KEY VALUE'' @ newline, 1)
      else map_option (\<lambda>(cl, net, closed, ok). (cl, net, closed, (if ok then ''OK'' else ''ERROR'') @ newline, [], if ok then 0 else 1))
             (pn_put env (argv ! (cmd_start + 1)) (argv ! (cmd_start + 2)) cl net))"

definition cmd_del :: cmd_handler where
  "cmd_del env argv cmd_start cl net =
     (if cmd_start + 1 \<ge> length argv then Some (cl, net, [], [], ''error: del requires KEY'' @ newline, 1)
      else map_option (\<lambda>(cl, net, closed, ok). (cl, net, closed, (if ok then ''OK'' else ''NOT_FOUND'') @ newline, [], if ok then 0 else 1))
             (pn_del env (argv ! (cmd_start + 1)) cl net))"

definition cmd_info :: cmd_handler where
  "cmd_info env argv cmd_start cl net = Some (cl, net, [], cluster_info cl, [], 0)"

definition cmd_stats :: cmd_handler where
  "cmd_stats env argv cmd_start cl net =
     (let s = pn_get_stats cl; num = (\<lambda>n. dec_string (unat n) @ newline)
      in Some (cl, net, [],
           ''requests_total:   '' @ num (cs_requests_total s) @
           ''requests_direct:  '' @ num (cs_requests_direct s) @
           ''requests_retried: '' @ num (cs_requests_retried s) @
           ''ring_refreshes:   '' @ num (cs_ring_refreshes s) @
           ''circuit_breaks:   '' @ num (cs_circuit_breaks s) @
           ''last_latency_us:  '' @ num (cs_last_latency_us s), [], 0))"

definition commands :: "(string \<times> cmd_handler) list" where
  "commands = [(''get'', cmd_get), (''put'', cmd_put), (''del'', cmd_del), (''info'', cmd_info), (''stats'', cmd_stats)]"

section \<open>The program\<close>

definition cli_config :: "string \<Rightarrow> u16 \<Rightarrow> client_config" where
  "cli_config host port =
     \<lparr>cc_seed_host = host, cc_seed_port = port, cc_refresh_interval = 0, cc_max_connections_per_node = 4,
      cc_max_retries = 2, cc_circuit_break_duration = 5000, cc_circuit_break_threshold = 3\<rparr>"

text \<open>Both outputs and the exit code.\<close>

definition cli_main :: "(nat \<Rightarrow> attempt) \<Rightarrow> tcp_dial \<Rightarrow> conn \<Rightarrow> (fd \<Rightarrow> conn) \<Rightarrow> string list \<Rightarrow> (string \<times> string \<times> int) option" where
  "cli_main env d c net argv =
     (let prog = argv ! 0
      in if length argv < 4 then Some ([], usage prog, 1)
         else
           case scan_args 1 (tl argv) ([], 1) of (seed_str, cmd_start) \<Rightarrow>
             if seed_str = [] then Some ([], ''error: --seed is required'' @ newline @ usage prog, 1)
             else if cmd_start \<ge> length argv then Some ([], usage prog, 1)
             else
               case cli_parse_seed seed_str of
                 None \<Rightarrow> None
               | Some (host, port) \<Rightarrow>
                   (case pn_connect (new_pensieve_client (cli_config host port)) d c of (cl, connected) \<Rightarrow>
                      if \<not> connected then Some ([], ''error: could not connect to seed '' @ seed_str @ newline, 1)
                      else
                        case map_of commands (argv ! cmd_start) of
                          None \<Rightarrow>
                            Some ([], ''error: unknown command '' @ [CHR 0x27] @ argv ! cmd_start @ [CHR 0x27] @ newline @ usage prog, 1)
                        | Some handler \<Rightarrow>
                            map_option (\<lambda>(cl, net, closed, out, err, code). (out, err, code)) (handler env argv cmd_start cl net)))"

section \<open>Properties\<close>

lemma cli_parse_seed_host_port: "cli_parse_seed (host @ '':'' @ dec_string (unat (port :: u16))) = Some (host, port)"
  unfolding cli_parse_seed_def rsplit_colon_host_port by (simp add: stoi_u16)

lemma cli_main_command:
  assumes "pn_connect (new_pensieve_client (cli_config host port)) d c = (cl, True)" and "args = [] \<or> butlast args = [] \<or> ''--seed'' \<notin> set (butlast args)"
    and "map_of commands cmd = Some handler" and "length args \<le> 2"
  shows "cli_main env d c net (prog # ''--seed'' # (host @ '':'' @ dec_string (unat port)) # cmd # args) =
    map_option (\<lambda>(cl, net, closed, out, err, code). (out, err, code))
      (handler env (prog # ''--seed'' # (host @ '':'' @ dec_string (unat port)) # cmd # args) 3 cl net)"
proof -
  have cmd: "cmd \<noteq> ''--seed''" using assms(3) by (auto simp: commands_def)
  have "scan_args 3 (cmd # args) (host @ '':'' @ dec_string (unat port), 3) = (host @ '':'' @ dec_string (unat port), 3)"
    using cmd assms(2,4) by (cases args; cases "tl args") (auto split: if_splits)
  then show ?thesis using assms(1,3) cli_parse_seed_host_port [of host port] by (simp add: cli_main_def Let_def numeral_3_eq_3)
qed



end
