(* ===== verification/Benchmark.thy ===== *)
theory Benchmark
  imports PensieveClient StdString
begin

text \<open>
  The benchmark client (\<open>src/src/sdk/benchmark.cpp\<close>): it puts and then gets random keys from several
  threads and reports the latencies.

  Floating-point arithmetic and formatting, the clock and the random generator are arguments; elapsed
  seconds have the type \<open>'d\<close>. Every thread has a client, a range of keys and a result of its own and shares only
  constants with the others, so the threads are run one after another. \<open>None\<close> is an exception, a division by zero or an index
  out of range. The banner and progress lines that \<open>main\<close> prints are left out.
\<close>

section \<open>Configuration\<close>

record bench_config =
  bc_seed_host :: string
  bc_seed_port :: u16
  bc_num_keys :: u64
  bc_value_size :: u64
  bc_wait_secs :: int
  bc_threads :: int
  bc_output_file :: string

definition default_bench_config :: bench_config where
  "default_bench_config =
     \<lparr>bc_seed_host = [], bc_seed_port = 11211, bc_num_keys = 10000, bc_value_size = 128, bc_wait_secs = 0,
      bc_threads = 1, bc_output_file = []\<rparr>"

definition bench_parse_seed :: "string \<Rightarrow> (string \<times> u16) option" where
  "bench_parse_seed s =
     (case rsplit_colon s of
        None \<Rightarrow> Some (s, 11211)
      | Some (host, port) \<Rightarrow> map_option (\<lambda>p. (host, word_of_int p)) (stoi port))"

fun parse_args :: "string list \<Rightarrow> bench_config \<Rightarrow> bench_config option" where
  "parse_args (arg # v # rest) cfg =
     (if arg = ''--seed'' then
        Option.bind (bench_parse_seed v) (\<lambda>(host, port). parse_args rest (cfg\<lparr>bc_seed_host := host, bc_seed_port := port\<rparr>))
      else if arg = ''--num-keys'' then Option.bind (stoul v) (\<lambda>n. parse_args rest (cfg\<lparr>bc_num_keys := n\<rparr>))
      else if arg = ''--value-size'' then Option.bind (stoul v) (\<lambda>n. parse_args rest (cfg\<lparr>bc_value_size := n\<rparr>))
      else if arg = ''--wait'' then Option.bind (stoi v) (\<lambda>n. parse_args rest (cfg\<lparr>bc_wait_secs := n\<rparr>))
      else if arg = ''--threads'' then Option.bind (stoi v) (\<lambda>n. parse_args rest (cfg\<lparr>bc_threads := n\<rparr>))
      else if arg = ''--output'' then parse_args rest (cfg\<lparr>bc_output_file := v\<rparr>)
      else parse_args (v # rest) cfg)"
| "parse_args _ cfg = Some cfg"

section \<open>Statistics\<close>

record 'd latency_report =
  lr_label :: string
  lr_total_ops :: nat
  lr_errors :: nat
  lr_elapsed_secs :: 'd
  lr_latencies_us :: "int list"

text \<open>
  \<open>fl_index p n\<close> is \<open>p / 100\<close> times \<open>n\<close>, truncated; the others print seconds with 3 and 6
  digits, the throughput with none and one, and a share as a percentage.
\<close>

record 'd floats =
  fl_index :: "nat \<Rightarrow> nat \<Rightarrow> nat"
  fl_secs3 :: "'d \<Rightarrow> string"
  fl_secs6 :: "'d \<Rightarrow> string"
  fl_throughput0 :: "nat \<Rightarrow> 'd \<Rightarrow> string"
  fl_throughput1 :: "nat \<Rightarrow> 'd \<Rightarrow> string"
  fl_pct :: "nat \<Rightarrow> nat \<Rightarrow> string"

definition kBucketCeils :: "int list" where
  "kBucketCeils = [50, 100, 250, 500, 1000, 5000, 10000, 50000, 100000]"

definition kNumBuckets :: nat where
  "kNumBuckets = 10"

definition kBucketLabels :: "string list" where
  "kBucketLabels =
     [''  < 50us '', ''  < 100us'', ''  < 250us'', ''  < 500us'', ''  <   1ms'', ''  <   5ms'', ''  <  10ms'', ''  <  50ms'',
      ''  < 100ms'', ''  >= 100ms'']"

definition percentile :: "'d floats \<Rightarrow> int list \<Rightarrow> nat \<Rightarrow> int option" where
  "percentile fl xs p =
     (if xs = [] then Some 0
      else let idx = fl_index fl p (length xs - 1)
           in if idx < length xs then Some (xs ! idx) else None)"

text \<open>The inner loop over the ceilings, from index \<open>i\<close> on.\<close>

fun find_bucket :: "int list \<Rightarrow> nat \<Rightarrow> int \<Rightarrow> nat" where
  "find_bucket [] i us = kNumBuckets - 1"
| "find_bucket (c # cs) i us = (if us < c then i else find_bucket cs (i + 1) us)"

definition bump :: "nat \<Rightarrow> nat list \<Rightarrow> nat list" where
  "bump b out = out[b := out ! b + 1]"

definition compute_buckets :: "int list \<Rightarrow> nat list" where
  "compute_buckets latencies = fold (\<lambda>us. bump (find_bucket kBucketCeils 0 us)) latencies (replicate kNumBuckets 0)"

definition bar_width :: nat where
  "bar_width = 40"

definition print_histogram :: "'d floats \<Rightarrow> int list \<Rightarrow> string" where
  "print_histogram fl latencies =
     (let buckets = compute_buckets latencies; max_count = Max (set buckets)
      in [CHR 0x0A] @ ''  Latency distribution:'' @ [CHR 0x0A] @
         concat (map (\<lambda>i.
           let bw = (if max_count > 0 then buckets ! i * bar_width div max_count else 0)
           in ''    '' @ kBucketLabels ! i @ '' |'' @ replicate bw CHR ''#'' @ '' '' @ dec_string (buckets ! i) @
              '' ('' @ fl_pct fl (buckets ! i) (length latencies) @ ''%)'' @ [CHR 0x0A])
           [0..<kNumBuckets]))"

text \<open>An integer as the streams print it.\<close>

definition int_string :: "int \<Rightarrow> string" where
  "int_string k = (if k < 0 then ''-'' else []) @ dec_string (nat \<bar>k\<bar>)"

text \<open>Both reports sort the latencies in place.\<close>

definition sort_latencies :: "'d latency_report \<Rightarrow> 'd latency_report" where
  "sort_latencies report = report\<lparr>lr_latencies_us := sort (lr_latencies_us report)\<rparr>"

definition print_report :: "'d floats \<Rightarrow> 'd latency_report \<Rightarrow> ('d latency_report \<times> string) option" where
  "print_report fl report =
     (let report = sort_latencies report; ls = lr_latencies_us report;
          head = [CHR 0x0A] @ ''===== '' @ lr_label report @ '' ====='' @ [CHR 0x0A] @
            ''  Total ops:    '' @ dec_string (lr_total_ops report) @ [CHR 0x0A] @
            ''  Errors:       '' @ dec_string (lr_errors report) @ [CHR 0x0A] @
            ''  Elapsed:      '' @ fl_secs3 fl (lr_elapsed_secs report) @ '' s'' @ [CHR 0x0A] @
            ''  Throughput:   '' @ fl_throughput0 fl (lr_total_ops report) (lr_elapsed_secs report) @ '' ops/sec'' @ [CHR 0x0A]
      in if ls = [] then Some (report, head)
         else do { p50 \<leftarrow> percentile fl ls 50;
                   p95 \<leftarrow> percentile fl ls 95;
                   p99 \<leftarrow> percentile fl ls 99;
                   Some (report, head @
                     ''  p50:          '' @ int_string p50 @ '' us'' @ [CHR 0x0A] @
                     ''  p95:          '' @ int_string p95 @ '' us'' @ [CHR 0x0A] @
                     ''  p99:          '' @ int_string p99 @ '' us'' @ [CHR 0x0A] @
                     ''  min:          '' @ int_string (hd ls) @ '' us'' @ [CHR 0x0A] @
                     ''  max:          '' @ int_string (last ls) @ '' us'' @ [CHR 0x0A] @
                     print_histogram fl ls) })"

text \<open>Joining with commas, as the loop over the buckets does.\<close>

fun comma_list :: "string list \<Rightarrow> string" where
  "comma_list [] = []"
| "comma_list [s] = s"
| "comma_list (s # ss) = s @ '','' @ comma_list ss"

definition json_field :: "string \<Rightarrow> string \<Rightarrow> string" where
  "json_field name v = [CHR 0x22] @ name @ [CHR 0x22] @ '':'' @ v"

definition report_to_json :: "'d floats \<Rightarrow> 'd latency_report \<Rightarrow> ('d latency_report \<times> string) option" where
  "report_to_json fl report =
     (let report = sort_latencies report; ls = lr_latencies_us report; buckets = compute_buckets ls
      in do { p50 \<leftarrow> percentile fl ls 50;
              p95 \<leftarrow> percentile fl ls 95;
              p99 \<leftarrow> percentile fl ls 99;
              Some (report, ''{'' @ comma_list
                [json_field ''total_ops'' (dec_string (lr_total_ops report)),
                 json_field ''errors'' (dec_string (lr_errors report)),
                 json_field ''elapsed_secs'' (fl_secs6 fl (lr_elapsed_secs report)),
                 json_field ''throughput'' (fl_throughput1 fl (lr_total_ops report) (lr_elapsed_secs report)),
                 json_field ''p50'' (int_string p50), json_field ''p95'' (int_string p95), json_field ''p99'' (int_string p99),
                 json_field ''min'' (int_string (if ls = [] then 0 else hd ls)),
                 json_field ''max'' (int_string (if ls = [] then 0 else last ls)),
                 json_field ''buckets'' (''['' @ comma_list (map dec_string buckets) @ '']'')] @ ''}'') })"

text \<open>The text written to the file.\<close>

definition write_json_output :: "'d floats \<Rightarrow> 'd latency_report \<Rightarrow> 'd latency_report \<Rightarrow> bench_config \<Rightarrow> string option" where
  "write_json_output fl put_report get_report cfg =
     do { (put_report, puts) \<leftarrow> report_to_json fl put_report;
          (get_report, gets) \<leftarrow> report_to_json fl get_report;
          Some (''{'' @ comma_list
            [json_field ''threads'' (int_string (bc_threads cfg)),
             json_field ''num_keys'' (dec_string (unat (bc_num_keys cfg))),
             json_field ''value_size'' (dec_string (unat (bc_value_size cfg))),
             json_field ''put'' puts, json_field ''get'' gets] @ ''}'' @ [CHR 0x0A]) }"

definition print_sdk_stats :: "pensieve_client \<Rightarrow> string" where
  "print_sdk_stats client =
     (let s = pn_get_stats client; num = (\<lambda>n. dec_string (unat n) @ [CHR 0x0A])
      in [CHR 0x0A] @ ''===== SDK Stats ====='' @ [CHR 0x0A] @
         ''  requests_total:   '' @ num (cs_requests_total s) @
         ''  requests_direct:  '' @ num (cs_requests_direct s) @
         ''  requests_retried: '' @ num (cs_requests_retried s) @
         ''  ring_refreshes:   '' @ num (cs_ring_refreshes s) @
         ''  circuit_breaks:   '' @ num (cs_circuit_breaks s))"

section \<open>Workers\<close>

text \<open>A client, with the sockets behind its descriptors.\<close>

type_synonym worker_client = "pensieve_client \<times> (fd \<Rightarrow> conn)"

record thread_result =
  tr_latencies :: "int list"
  tr_errors :: nat

text \<open>The loop of both workers over the indices of its range; \<open>request\<close> performs the request for a key and says whether it succeeded.\<close>

fun worker_loop ::
  "(nat \<Rightarrow> string \<Rightarrow> worker_client \<Rightarrow> (worker_client \<times> bool) option) \<Rightarrow> (nat \<Rightarrow> int) \<Rightarrow> string list \<Rightarrow> nat list \<Rightarrow>
   worker_client \<Rightarrow> thread_result \<Rightarrow> (worker_client \<times> thread_result) option" where
  "worker_loop request elapsed keys [] c out = Some (c, out)"
| "worker_loop request elapsed keys (i # is) c out =
     (if i < length keys
      then case request i (keys ! i) c of
             None \<Rightarrow> None
           | Some (c, ok) \<Rightarrow>
               worker_loop request elapsed keys is c
                 (out\<lparr>tr_latencies := tr_latencies out @ [elapsed i], tr_errors := (if \<not> ok then tr_errors out + 1 else tr_errors out)\<rparr>)
      else None)"

definition put_request :: "(nat \<Rightarrow> nat \<Rightarrow> attempt) \<Rightarrow> string \<Rightarrow> nat \<Rightarrow> string \<Rightarrow> worker_client \<Rightarrow> (worker_client \<times> bool) option" where
  "put_request env v i key c = (case c of (cl, net) \<Rightarrow> map_option (\<lambda>(cl, net, closed, ok). ((cl, net), ok)) (pn_put (env i) key v cl net))"

definition get_request :: "(nat \<Rightarrow> nat \<Rightarrow> attempt) \<Rightarrow> nat \<Rightarrow> string \<Rightarrow> worker_client \<Rightarrow> (worker_client \<times> bool) option" where
  "get_request env i key c = (case c of (cl, net) \<Rightarrow> map_option (\<lambda>(cl, net, closed, val). ((cl, net), val \<noteq> None)) (pn_get (env i) key cl net))"

definition worker_put where
  "worker_put env elapsed c keys v lo hi out = worker_loop (put_request env v) elapsed keys [lo..<hi] c out"

definition worker_get where
  "worker_get env elapsed c keys lo hi out = worker_loop (get_request env) elapsed keys [lo..<hi] c out"

definition bench_client_config :: "bench_config \<Rightarrow> client_config" where
  "bench_client_config cfg =
     \<lparr>cc_seed_host = bc_seed_host cfg, cc_seed_port = bc_seed_port cfg, cc_refresh_interval = 30, cc_max_connections_per_node = 4,
      cc_max_retries = 2, cc_circuit_break_duration = 5000, cc_circuit_break_threshold = 3\<rparr>"

text \<open>\<open>dials i\<close> is what the \<open>i\<close>-th connection answers and its socket; a negative count makes \<open>reserve\<close> throw.\<close>

fun make_loop :: "bench_config \<Rightarrow> (nat \<Rightarrow> tcp_dial \<times> conn) \<Rightarrow> nat list \<Rightarrow> pensieve_client list \<Rightarrow> pensieve_client list" where
  "make_loop cfg dials [] clients = clients"
| "make_loop cfg dials (i # is) clients =
     (case dials i of (d, c) \<Rightarrow>
        case pn_connect (new_pensieve_client (bench_client_config cfg)) d c of
          (cl, False) \<Rightarrow> []
        | (cl, True) \<Rightarrow> make_loop cfg dials is (clients @ [cl]))"

definition make_clients :: "bench_config \<Rightarrow> int \<Rightarrow> (nat \<Rightarrow> tcp_dial \<times> conn) \<Rightarrow> pensieve_client list option" where
  "make_clients cfg n dials = (if n < 0 then None else Some (make_loop cfg dials [0..<nat n] []))"

text \<open>The range of thread \<open>t\<close> of \<open>n\<close>.\<close>

definition thread_range :: "nat \<Rightarrow> nat \<Rightarrow> nat \<Rightarrow> nat \<times> nat" where
  "thread_range n len t =
     (let per = len div n; lo = t * per; hi = (if t + 1 = n then len else lo + per)
      in (lo, hi))"

fun run_workers ::
  "(nat \<Rightarrow> worker_client \<Rightarrow> (worker_client \<times> thread_result) option) \<Rightarrow> nat \<Rightarrow> worker_client list \<Rightarrow>
   (worker_client list \<times> thread_result list) option" where
  "run_workers work t [] = Some ([], [])"
| "run_workers work t (c # cs) =
     do { (c, r) \<leftarrow> work t c;
          (cs, rs) \<leftarrow> run_workers work (Suc t) cs;
          Some (c # cs, r # rs) }"

definition merge_results :: "string \<Rightarrow> 'd \<Rightarrow> thread_result list \<Rightarrow> 'd latency_report" where
  "merge_results label wall results =
     (let report = \<lparr>lr_label = label, lr_total_ops = 0, lr_errors = 0, lr_elapsed_secs = wall, lr_latencies_us = []\<rparr>;
          report = fold (\<lambda>r report. report\<lparr>lr_errors := lr_errors report + tr_errors r,
                                         lr_latencies_us := lr_latencies_us report @ tr_latencies r\<rparr>) results report
      in report\<lparr>lr_total_ops := length (lr_latencies_us report)\<rparr>)"

definition run_threaded ::
  "(worker_client \<Rightarrow> nat \<Rightarrow> nat \<Rightarrow> thread_result \<Rightarrow> (worker_client \<times> thread_result) option) \<Rightarrow> string \<Rightarrow> 'd \<Rightarrow> nat \<Rightarrow> worker_client list \<Rightarrow>
   (worker_client list \<times> 'd latency_report) option" where
  "run_threaded worker label wall len clients =
     (let n = length clients
      in if n = 0 then None
         else map_option (\<lambda>(cs, results). (cs, merge_results label wall results))
                (run_workers (\<lambda>t c. case thread_range n len t of
                                      (lo, hi) \<Rightarrow> worker c lo hi \<lparr>tr_latencies = [], tr_errors = 0\<rparr>) 0 clients))"

definition run_threaded_puts where
  "run_threaded_puts env elapsed wall clients keys v =
     run_threaded (\<lambda>c. worker_put env elapsed c keys v) ''PUT'' wall (length keys) clients"

definition run_threaded_gets where
  "run_threaded_gets env elapsed wall clients keys =
     run_threaded (\<lambda>c. worker_get env elapsed c keys) ''GET'' wall (length keys) clients"

section \<open>The program\<close>

text \<open>A draw of the distribution over 0 to 15 is a 4-bit word.\<close>

fun random_hex :: "('g \<Rightarrow> 4 word \<times> 'g) \<Rightarrow> nat \<Rightarrow> 'g \<Rightarrow> string \<times> 'g" where
  "random_hex dist 0 rng = ([], rng)"
| "random_hex dist (Suc len) rng =
     (case dist rng of (d, rng) \<Rightarrow>
        case random_hex dist len rng of (out, rng) \<Rightarrow> (''0123456789abcdef'' ! unat d # out, rng))"

fun random_keys :: "('g \<Rightarrow> 4 word \<times> 'g) \<Rightarrow> nat \<Rightarrow> 'g \<Rightarrow> string list \<times> 'g" where
  "random_keys dist 0 rng = ([], rng)"
| "random_keys dist (Suc n) rng =
     (case random_hex dist 16 rng of (k, rng) \<Rightarrow>
        case random_keys dist n rng of (ks, rng) \<Rightarrow> ((''bench:'' @ k) # ks, rng))"

text \<open>\<open>dials\<close> are the answers to the attempts, one after another, as many as \<open>max_retries\<close> at most.\<close>

fun connect_with_retries :: "(tcp_dial \<times> conn) list \<Rightarrow> pensieve_client \<Rightarrow> pensieve_client \<times> bool" where
  "connect_with_retries [] client = (client, False)"
| "connect_with_retries ((d, c) # dials) client =
     (case pn_connect client d c of
        (client, True) \<Rightarrow> (client, True)
      | (client, False) \<Rightarrow> connect_with_retries dials client)"

text \<open>What \<open>main\<close> depends on: connections, attempts of the requests, clock, floating-point functions and the random generator.\<close>

record ('d, 'g) bench_env =
  be_dial :: "nat \<Rightarrow> tcp_dial \<times> conn"
  be_worker_dial :: "nat \<Rightarrow> tcp_dial \<times> conn"
  be_net :: "fd \<Rightarrow> conn"
  be_put :: "nat \<Rightarrow> nat \<Rightarrow> attempt"
  be_get :: "nat \<Rightarrow> nat \<Rightarrow> attempt"
  be_put_us :: "nat \<Rightarrow> int"
  be_get_us :: "nat \<Rightarrow> int"
  be_put_secs :: 'd
  be_get_secs :: 'd
  be_floats :: "'d floats"
  be_dist :: "'g \<Rightarrow> 4 word \<times> 'g"
  be_rng :: 'g

text \<open>The exit code; when it is 0, also both reports and the text written to the output file, if one is asked for.\<close>

definition bench_main ::
  "('d, 'g) bench_env \<Rightarrow> string list \<Rightarrow> (int \<times> ('d latency_report \<times> 'd latency_report \<times> string option) option) option" where
  "bench_main e argv =
     do { cfg \<leftarrow> parse_args (tl argv) default_bench_config;
          if bc_seed_host cfg = [] then Some (1, None)
          else
            case connect_with_retries (map (be_dial e) [0..<5]) (new_pensieve_client (bench_client_config cfg)) of
              (client, False) \<Rightarrow> Some (1, None)
            | (client, True) \<Rightarrow>
                (case random_keys (be_dist e) (unat (bc_num_keys cfg)) (be_rng e) of (keys, rng) \<Rightarrow>
                   case random_hex (be_dist e) (unat (bc_value_size cfg)) rng of (v, rng) \<Rightarrow>
                     do { clients \<leftarrow> make_clients cfg (bc_threads cfg) (be_worker_dial e);
                          if clients = [] then Some (1, None)
                          else do { (cs, put_report) \<leftarrow> run_threaded_puts (be_put e) (be_put_us e) (be_put_secs e)
                                                          (map (\<lambda>cl. (cl, be_net e)) clients) keys v;
                                    (put_report, out) \<leftarrow> print_report (be_floats e) put_report;
                                    (cs, get_report) \<leftarrow> run_threaded_gets (be_get e) (be_get_us e) (be_get_secs e) cs keys;
                                    (get_report, out) \<leftarrow> print_report (be_floats e) get_report;
                                    if bc_output_file cfg \<noteq> []
                                    then map_option (\<lambda>js. (0, Some (put_report, get_report, Some js)))
                                           (write_json_output (be_floats e) put_report get_report cfg)
                                    else Some (0, Some (put_report, get_report, None)) } }) }"

section \<open>Ranges of the threads\<close>

text \<open>The ranges are consecutive slices that cover all keys.\<close>

lemma ranges_prefix:
  assumes "k < n"
  shows "concat (map (\<lambda>t. case thread_range n len t of (lo, hi) \<Rightarrow> [lo..<hi]) [0..<k]) = [0..<k * (len div n)]"
  using assms
proof (induction k)
  case (Suc k)
  then have "[0..<k * (len div n)] @ [k * (len div n)..<k * (len div n) + len div n] = [0..<Suc k * (len div n)]"
    by (metis add.commute mult_Suc upt_add_eq_append zero_le)
  then show ?case using Suc by (simp add: thread_range_def Let_def)
qed simp

lemma ranges_cover:
  assumes "0 < n"
  shows "concat (map (\<lambda>t. case thread_range n len t of (lo, hi) \<Rightarrow> [lo..<hi]) [0..<n]) = [0..<len]"
proof -
  obtain k where k: "n = Suc k" using assms by (cases n) auto
  have "k * (len div n) \<le> len" by (metis div_times_less_eq_dividend k le_add2 mult.commute mult_le_mono1 order_trans plus_1_eq_Suc)
  then have "[0..<k * (len div n)] @ [k * (len div n)..<len] = [0..<len]" by (metis le_add_diff_inverse upt_add_eq_append zero_le)
  then show ?thesis using ranges_prefix [of k n len] k by (simp add: thread_range_def Let_def)
qed

lemma range_in_keys:
  assumes "t < n" and "thread_range n len t = (lo, hi)" and "i \<in> set [lo..<hi]"
  shows "i < len"
proof -
  have "i \<in> set (concat (map (\<lambda>t. case thread_range n len t of (lo, hi) \<Rightarrow> [lo..<hi]) [0..<n]))" using assms by force
  then show ?thesis using ranges_cover [of n len] assms(1) by simp
qed

section \<open>Workers\<close>

text \<open>A client whose topology is well-formed answers every request and stays so.\<close>

definition ready :: "worker_client \<Rightarrow> bool" where
  "ready c \<longleftrightarrow> tm_ok (pn_topo (fst c))"

definition answers :: "(nat \<Rightarrow> string \<Rightarrow> worker_client \<Rightarrow> (worker_client \<times> bool) option) \<Rightarrow> bool" where
  "answers request \<longleftrightarrow> (\<forall>i key c. ready c \<longrightarrow> (\<exists>c' ok. request i key c = Some (c', ok) \<and> ready c'))"

lemma answers_put: "answers (put_request env v)"
  unfolding answers_def ready_def
proof (intro allI impI)
  fix i key and c :: worker_client assume "tm_ok (pn_topo (fst c))"
  then show "\<exists>c' ok. put_request env v i key c = Some (c', ok) \<and> tm_ok (pn_topo (fst c'))"
    by (rule connected_execute [where env = "env i" and op = Opcode_Put and key = key and v = v and net = "snd c"])
      (auto simp: put_request_def pn_put_def split: prod.split)
qed

lemma answers_get: "answers (get_request env)"
  unfolding answers_def ready_def
proof (intro allI impI)
  fix i key and c :: worker_client assume "tm_ok (pn_topo (fst c))"
  then show "\<exists>c' ok. get_request env i key c = Some (c', ok) \<and> tm_ok (pn_topo (fst c'))"
    by (rule connected_execute [where env = "env i" and op = Opcode_Get and key = key and v = "[]" and net = "snd c"])
      (auto simp: get_request_def pn_get_def split: prod.split)
qed

lemma worker_loop_total:
  assumes "answers request" and "ready c" and "\<forall>i \<in> set is. i < length keys"
  shows "\<exists>c' out'. worker_loop request elapsed keys is c out = Some (c', out') \<and> ready c' \<and>
    tr_latencies out' = tr_latencies out @ map elapsed is \<and> tr_errors out' \<le> tr_errors out + length is"
  using assms(2,3)
proof (induction "is" arbitrary: c out)
  case (Cons i "is")
  obtain c1 ok where r: "request i (keys ! i) c = Some (c1, ok)" "ready c1"
    using assms(1) Cons.prems(1) unfolding answers_def by blast
  let ?out = "out\<lparr>tr_latencies := tr_latencies out @ [elapsed i], tr_errors := (if \<not> ok then tr_errors out + 1 else tr_errors out)\<rparr>"
  obtain c' out' where "worker_loop request elapsed keys is c1 ?out = Some (c', out')" "ready c'"
    "tr_latencies out' = tr_latencies ?out @ map elapsed is" "tr_errors out' \<le> tr_errors ?out + length is"
    using Cons.IH [OF r(2), of ?out] Cons.prems(2) by auto
  then show ?case using r Cons.prems(2) by (intro exI [of _ c'] exI [of _ out']) (auto split: if_splits)
qed simp

lemma run_workers_total:
  assumes "\<And>t c. ready c \<Longrightarrow> t < s + length cs \<Longrightarrow>
      \<exists>c' r. work t c = Some (c', r) \<and> ready c' \<and> tr_latencies r = L t \<and> tr_errors r \<le> length (L t)"
    and "\<forall>c \<in> set cs. ready c"
  shows "\<exists>cs' rs. run_workers work s cs = Some (cs', rs) \<and> (\<forall>c \<in> set cs'. ready c) \<and> length cs' = length cs \<and>
    map tr_latencies rs = map L [s..<s + length cs] \<and> sum_list (map tr_errors rs) \<le> sum_list (map (length \<circ> L) [s..<s + length cs])"
  using assms
proof (induction cs arbitrary: s)
  case (Cons c cs)
  obtain c' r where w: "work s c = Some (c', r)" "ready c'" "tr_latencies r = L s" "tr_errors r \<le> length (L s)"
    using Cons.prems(1) [of c s] Cons.prems(2) by auto
  have "\<exists>cs' rs. run_workers work (Suc s) cs = Some (cs', rs) \<and> (\<forall>c \<in> set cs'. ready c) \<and> length cs' = length cs \<and>
      map tr_latencies rs = map L [Suc s..<Suc s + length cs] \<and> sum_list (map tr_errors rs) \<le> sum_list (map (length \<circ> L) [Suc s..<Suc s + length cs])"
    by (rule Cons.IH) (use Cons.prems in simp_all)
  then obtain cs' rs where "run_workers work (Suc s) cs = Some (cs', rs)" "\<forall>c \<in> set cs'. ready c" "length cs' = length cs"
    "map tr_latencies rs = map L [Suc s..<Suc s + length cs]" "sum_list (map tr_errors rs) \<le> sum_list (map (length \<circ> L) [Suc s..<Suc s + length cs])"
    by blast
  moreover have u: "[s..<s + length (c # cs)] = s # [Suc s..<Suc s + length cs]" by (simp add: upt_conv_Cons del: upt_Suc)
  ultimately show ?case unfolding u using w by (intro exI [of _ "c' # cs'"] exI [of _ "r # rs"]) (simp add: comp_def del: upt_Suc)
qed simp

lemma merge_fold:
  "lr_latencies_us (fold (\<lambda>r report. report\<lparr>lr_errors := lr_errors report + tr_errors r, lr_latencies_us := lr_latencies_us report @ tr_latencies r\<rparr>) rs rep) =
     lr_latencies_us rep @ concat (map tr_latencies rs) \<and>
   lr_errors (fold (\<lambda>r report. report\<lparr>lr_errors := lr_errors report + tr_errors r, lr_latencies_us := lr_latencies_us report @ tr_latencies r\<rparr>) rs rep) =
     lr_errors rep + sum_list (map tr_errors rs)"
  by (induction rs arbitrary: rep) simp_all

lemma merge_results_fields:
  "lr_latencies_us (merge_results l w rs) = concat (map tr_latencies rs)" "lr_errors (merge_results l w rs) = sum_list (map tr_errors rs)"
  "lr_total_ops (merge_results l w rs) = length (concat (map tr_latencies rs))"
  by (simp_all add: merge_results_def Let_def merge_fold)

text \<open>A phase of the benchmark measures every key once, in the order of the keys.\<close>

lemma run_threaded_total:
  assumes "answers request" and "cs \<noteq> []" and "\<forall>c \<in> set cs. ready c"
    and work: "\<And>c lo hi out. worker c lo hi out = worker_loop request elapsed keys [lo..<hi] c out"
  shows "\<exists>cs' report. run_threaded worker label wall (length keys) cs = Some (cs', report) \<and> (\<forall>c \<in> set cs'. ready c) \<and> length cs' = length cs \<and>
    lr_latencies_us report = map elapsed [0..<length keys] \<and> lr_total_ops report = length keys \<and> lr_errors report \<le> length keys"
proof -
  let ?range = "\<lambda>t. case thread_range (length cs) (length keys) t of (lo, hi) \<Rightarrow> [lo..<hi]"
  let ?work = "\<lambda>t c. case thread_range (length cs) (length keys) t of (lo, hi) \<Rightarrow> worker c lo hi \<lparr>tr_latencies = [], tr_errors = 0\<rparr>"
  have w: "\<exists>c' r. ?work t c = Some (c', r) \<and> ready c' \<and> tr_latencies r = map elapsed (?range t) \<and> tr_errors r \<le> length (map elapsed (?range t))"
    if "ready c" "t < 0 + length cs" for t c
    using worker_loop_total [OF assms(1) that(1), of "?range t" keys elapsed "\<lparr>tr_latencies = [], tr_errors = 0\<rparr>"] range_in_keys [of t "length cs" "length keys"] that(2)
    by (auto simp: work split: prod.splits)
  have "\<exists>cs' rs. run_workers ?work 0 cs = Some (cs', rs) \<and> (\<forall>c \<in> set cs'. ready c) \<and> length cs' = length cs \<and>
      map tr_latencies rs = map (\<lambda>t. map elapsed (?range t)) [0..<0 + length cs] \<and>
      sum_list (map tr_errors rs) \<le> sum_list (map (length \<circ> (\<lambda>t. map elapsed (?range t))) [0..<0 + length cs])"
    by (rule run_workers_total [OF w assms(3)])
  then obtain cs' rs where rs: "run_workers ?work 0 cs = Some (cs', rs)" "\<forall>c \<in> set cs'. ready c"
    "length cs' = length cs" "map tr_latencies rs = map (\<lambda>t. map elapsed (?range t)) [0..<length cs]"
    "sum_list (map tr_errors rs) \<le> sum_list (map (length \<circ> (\<lambda>t. map elapsed (?range t))) [0..<length cs])" by (metis add_0)
  have "concat (map tr_latencies rs) = map elapsed (concat (map ?range [0..<length cs]))" unfolding rs(4) by (simp add: map_concat comp_def)
  then have l: "concat (map tr_latencies rs) = map elapsed [0..<length keys]" using ranges_cover [of "length cs"] assms(2) by simp
  have "sum_list (map tr_errors rs) \<le> length (concat (map tr_latencies rs))" using rs(5) unfolding rs(4) by (simp add: length_concat comp_def)
  then show ?thesis using rs(1-3) l assms(2)
    by (intro exI [of _ cs'] exI [of _ "merge_results label wall rs"]) (simp add: run_threaded_def merge_results_fields)
qed

lemma run_puts_total:
  assumes "cs \<noteq> []" and "\<forall>c \<in> set cs. ready c"
  shows "\<exists>cs' report. run_threaded_puts env elapsed wall cs keys v = Some (cs', report) \<and> (\<forall>c \<in> set cs'. ready c) \<and> length cs' = length cs \<and>
    lr_latencies_us report = map elapsed [0..<length keys] \<and> lr_total_ops report = length keys \<and> lr_errors report \<le> length keys"
  unfolding run_threaded_puts_def by (rule run_threaded_total [OF answers_put assms worker_put_def])

lemma run_gets_total:
  assumes "cs \<noteq> []" and "\<forall>c \<in> set cs. ready c"
  shows "\<exists>cs' report. run_threaded_gets env elapsed wall cs keys = Some (cs', report) \<and> (\<forall>c \<in> set cs'. ready c) \<and> length cs' = length cs \<and>
    lr_latencies_us report = map elapsed [0..<length keys] \<and> lr_total_ops report = length keys \<and> lr_errors report \<le> length keys"
  unfolding run_threaded_gets_def by (rule run_threaded_total [OF answers_get assms worker_get_def])

lemma make_loop_ready:
  assumes "\<forall>i \<in> set is. case dials i of (d, c) \<Rightarrow> snd (pn_connect (new_pensieve_client (bench_client_config cfg)) d c)"
  shows "length (make_loop cfg dials is cls) = length cls + length is \<and>
    ((\<forall>cl \<in> set cls. tm_ok (pn_topo cl)) \<longrightarrow> (\<forall>cl \<in> set (make_loop cfg dials is cls). tm_ok (pn_topo cl)))"
  using assms
proof (induction "is" arbitrary: cls)
  case (Cons i "is")
  obtain d c where d: "dials i = (d, c)" by fastforce
  then obtain cl where cl: "pn_connect (new_pensieve_client (bench_client_config cfg)) d c = (cl, True)"
    using Cons.prems by (metis (mono_tags, lifting) case_prod_conv list.set_intros(1) prod.collapse)
  show ?case using Cons.IH [of "cls @ [cl]"] Cons.prems d cl connect_topo [OF cl] by simp
qed simp

section \<open>Statistics\<close>

lemma percentile_total:
  assumes "\<forall>p n. p \<le> 100 \<longrightarrow> fl_index fl p n \<le> n" and "p \<le> 100"
  shows "percentile fl xs p \<noteq> None"
proof (cases "xs = []")
  case False
  then have "fl_index fl p (length xs - 1) < length xs" using assms by (metis One_nat_def Suc_pred le_imp_less_Suc length_greater_0_conv)
  then show ?thesis using False by (simp add: percentile_def Let_def)
qed (simp add: percentile_def)

lemma report_total:
  assumes "\<forall>p n. p \<le> 100 \<longrightarrow> fl_index fl p n \<le> n"
  obtains out js where "print_report fl report = Some (sort_latencies report, out)" and "report_to_json fl report = Some (sort_latencies report, js)"
proof -
  let ?ls = "lr_latencies_us (sort_latencies report)"
  obtain p50 p95 p99 where p: "percentile fl ?ls 50 = Some p50" "percentile fl ?ls 95 = Some p95" "percentile fl ?ls 99 = Some p99"
    using percentile_total [OF assms, of 50 ?ls] percentile_total [OF assms, of 95 ?ls] percentile_total [OF assms, of 99 ?ls] by auto
  have "\<exists>out. print_report fl report = Some (sort_latencies report, out)"
    using p by (cases "?ls = []") (simp_all add: print_report_def Let_def)
  moreover have "\<exists>js. report_to_json fl report = Some (sort_latencies report, js)" using p by (simp add: report_to_json_def Let_def)
  ultimately show thesis using that by blast
qed

lemma find_bucket_eq:
  "find_bucket kBucketCeils 0 us = b \<longleftrightarrow> b < kNumBuckets \<and> (b = 0 \<or> kBucketCeils ! (b - 1) \<le> us) \<and> (b = 9 \<or> us < kBucketCeils ! b)"
  by (auto simp: kBucketCeils_def kNumBuckets_def less_Suc_eq numeral_eq_Suc)

lemma compute_buckets_fold:
  assumes "\<And>us. f us < length out"
  shows "length (fold (\<lambda>us. bump (f us)) ls out) = length out \<and>
    (\<forall>b < length out. fold (\<lambda>us. bump (f us)) ls out ! b = out ! b + length (filter (\<lambda>us. f us = b) ls))"
  using assms
proof (induction ls arbitrary: out)
  case (Cons us ls)
  then show ?case using Cons.IH [of "bump (f us) out"] by (auto simp: bump_def nth_list_update)
qed simp

lemma random_keys_length: "length (fst (random_keys dist n rng)) = n"
  by (induction n arbitrary: rng) (simp_all split: prod.split, metis fst_conv)

lemma write_json_total:
  "report_to_json fl puts = Some (puts', j1) \<Longrightarrow> report_to_json fl gets = Some (gets', j2) \<Longrightarrow> \<exists>js. write_json_output fl puts gets cfg = Some js"
  by (simp add: write_json_output_def)

lemma sort_nonempty: "ls \<noteq> [] \<Longrightarrow> sort ls \<noteq> []"
  by (metis length_0_conv length_sort)

text \<open>Counting a list by the values of a function.\<close>

lemma sum_filter_length:
  assumes "\<And>x. f x \<in> A" and "finite A"
  shows "(\<Sum>b \<in> A. length (filter (\<lambda>x. f x = b) xs)) = length xs"
proof (induction xs)
  case (Cons x xs)
  have "(\<Sum>b \<in> A. length (filter (\<lambda>x. f x = b) (x # xs))) = (\<Sum>b \<in> A. (if f x = b then 1 else 0) + length (filter (\<lambda>x. f x = b) xs))"
    by (intro sum.cong) auto
  then show ?case using Cons assms by (simp add: sum.distrib)
qed simp

text \<open>The rank of the element at an index of the sorted list.\<close>

lemma sort_rank:
  fixes ls :: "'a :: linorder list"
  assumes "i < length ls"
  shows "length (filter (\<lambda>y. y < sort ls ! i) ls) \<le> i \<and> i < length (filter (\<lambda>y. y \<le> sort ls ! i) ls) \<and> sort ls ! i \<in> set ls"
proof -
  let ?x = "sort ls ! i"
  have mono: "sort ls ! j \<le> sort ls ! k" if "j \<le> k" "k < length ls" for j k using that by (intro sorted_nth_mono) simp_all
  have flt: "length (filter P ls) = card {j. j < length ls \<and> P (sort ls ! j)}" for P
  proof -
    have "mset (filter P (sort ls)) = mset (filter P ls)" by simp
    then have "length (filter P ls) = length (filter P (sort ls))" by (metis size_mset)
    then show ?thesis by (simp add: length_filter_conv_card)
  qed
  have "{j. j < length ls \<and> sort ls ! j < ?x} \<subseteq> {..<i}"
  proof
    fix j assume "j \<in> {j. j < length ls \<and> sort ls ! j < ?x}"
    then show "j \<in> {..<i}" using mono [of i j] by (cases "i \<le> j") auto
  qed
  from card_mono [OF _ this] have "card {j. j < length ls \<and> sort ls ! j < ?x} \<le> i" by simp
  moreover have "{..i} \<subseteq> {j. j < length ls \<and> sort ls ! j \<le> ?x}" using mono assms by auto
  from card_mono [OF _ this] have "Suc i \<le> card {j. j < length ls \<and> sort ls ! j \<le> ?x}" by simp
  moreover have "?x \<in> set (sort ls)" by (rule nth_mem) (simp add: assms)
  ultimately show ?thesis by (simp add: flt)
qed

section \<open>Properties\<close>



text \<open>
  The statistics: for latencies \<open>ls\<close>, a percentile of the sorted list is one of them, more of them than the
  index are no larger and at most as many are smaller, so that minimum, p50, p95, p99 and maximum are in order. The buckets count every latency
  once, each in the bucket whose bounds enclose it. The products of floating point only have to stay in range and to be monotone.
\<close>
theorem report_statistics:
  assumes "\<forall>p n. p \<le> 100 \<longrightarrow> fl_index fl p n \<le> n" and "\<forall>p q n. p \<le> q \<longrightarrow> fl_index fl p n \<le> fl_index fl q n" and "ls \<noteq> []"
  shows "(\<forall>p \<le> 100. \<exists>x. percentile fl (sort ls) p = Some x \<and> x \<in> set ls \<and>
        length (filter (\<lambda>y. y < x) ls) \<le> fl_index fl p (length ls - 1) \<and> fl_index fl p (length ls - 1) < length (filter (\<lambda>y. y \<le> x) ls)) \<and>
     (\<exists>p50 p95 p99. percentile fl (sort ls) 50 = Some p50 \<and> percentile fl (sort ls) 95 = Some p95 \<and> percentile fl (sort ls) 99 = Some p99 \<and>
        hd (sort ls) \<le> p50 \<and> p50 \<le> p95 \<and> p95 \<le> p99 \<and> p99 \<le> last (sort ls)) \<and>
     sum_list (compute_buckets ls) = length ls \<and>
     (\<forall>b < kNumBuckets. compute_buckets ls ! b =
        length (filter (\<lambda>us. (b = 0 \<or> kBucketCeils ! (b - 1) \<le> us) \<and> (b = 9 \<or> us < kBucketCeils ! b)) ls))"
proof -
  have b: "length (compute_buckets ls) = kNumBuckets"
    "\<forall>b < kNumBuckets. compute_buckets ls ! b = length (filter (\<lambda>us. find_bucket kBucketCeils 0 us = b) ls)"
    using compute_buckets_fold [of "find_bucket kBucketCeils 0" "replicate kNumBuckets 0" ls] find_bucket_eq
    by (auto simp: compute_buckets_def)
  have f: "find_bucket kBucketCeils 0 us < kNumBuckets" for us using find_bucket_eq by blast
  have "sum_list (compute_buckets ls) = (\<Sum>b = 0..<kNumBuckets. length (filter (\<lambda>us. find_bucket kBucketCeils 0 us = b) ls))"
    using b by (simp add: sum_list_sum_nth)
  also have "\<dots> = length ls" using f by (intro sum_filter_length) auto
  finally have s: "sum_list (compute_buckets ls) = length ls" .
  have p: "percentile fl (sort ls) p = Some (sort ls ! fl_index fl p (length ls - 1))" "fl_index fl p (length ls - 1) < length ls" if "p \<le> 100" for p
    using percentile_total [OF assms(1) that, of "sort ls"] sort_nonempty [OF assms(3)] by (auto simp: percentile_def Let_def split: if_splits)
  have m: "sort ls ! fl_index fl p (length ls - 1) \<le> sort ls ! fl_index fl q (length ls - 1)" if "p \<le> q" "q \<le> 100" for p q
    using sorted_nth_mono [of "sort ls"] assms(2) p(2) [OF that(2)] that(1) by simp
  have h: "hd (sort ls) \<le> sort ls ! i" "sort ls ! i \<le> last (sort ls)" if "i < length ls" for i
    using sorted_nth_mono [of "sort ls" 0 i] sorted_nth_mono [of "sort ls" i "length ls - 1"] that assms(3)
    by (auto simp: hd_conv_nth last_conv_nth sort_nonempty)
  have "\<forall>p \<le> 100. \<exists>x. percentile fl (sort ls) p = Some x \<and> x \<in> set ls \<and>
      length (filter (\<lambda>y. y < x) ls) \<le> fl_index fl p (length ls - 1) \<and> fl_index fl p (length ls - 1) < length (filter (\<lambda>y. y \<le> x) ls)"
    using p sort_rank [OF p(2)] by blast
  moreover have "hd (sort ls) \<le> sort ls ! fl_index fl 50 (length ls - 1)" "sort ls ! fl_index fl 99 (length ls - 1) \<le> last (sort ls)"
    by (rule h, rule p, simp)+
  then have "\<exists>p50 p95 p99. percentile fl (sort ls) 50 = Some p50 \<and> percentile fl (sort ls) 95 = Some p95 \<and> percentile fl (sort ls) 99 = Some p99 \<and>
      hd (sort ls) \<le> p50 \<and> p50 \<le> p95 \<and> p95 \<le> p99 \<and> p99 \<le> last (sort ls)"
    using p(1) [of 50] p(1) [of 95] p(1) [of 99] m [of 50 95] m [of 95 99] by simp
  moreover have "\<forall>b < kNumBuckets. compute_buckets ls ! b =
      length (filter (\<lambda>us. (b = 0 \<or> kBucketCeils ! (b - 1) \<le> us) \<and> (b = 9 \<or> us < kBucketCeils ! b)) ls)"
    using b(2) by (simp add: find_bucket_eq)
  ultimately show ?thesis using s by blast
qed

theorem report_statistics_witness:
  "\<exists>fl :: unit floats. \<exists>p50 p95 p99. percentile fl (sort [7, 3, 120000]) 50 = Some p50 \<and> percentile fl (sort [7, 3, 120000]) 95 = Some p95 \<and>
     percentile fl (sort [7, 3, 120000]) 99 = Some p99 \<and> 3 \<le> p50 \<and> p50 \<le> p95 \<and> p95 \<le> p99 \<and> p99 \<le> 120000 \<and>
     sum_list (compute_buckets [7, 3, 120000]) = 3"
proof -
  let ?fl = "\<lparr>fl_index = (\<lambda>p n. p * n div 100), fl_secs3 = (\<lambda>_. ''0''), fl_secs6 = (\<lambda>_. ''0''), fl_throughput0 = (\<lambda>_ _. ''0''),
    fl_throughput1 = (\<lambda>_ _. ''0''), fl_pct = (\<lambda>_ _. ''0'')\<rparr> :: unit floats"
  have "p * n div 100 \<le> n" if "p \<le> 100" for p n :: nat using mult_le_mono1 [OF that, of n] by linarith
  moreover have "p * n div 100 \<le> q * n div 100" if "p \<le> q" for p q n :: nat using that by (intro div_le_mono mult_le_mono1)
  ultimately show ?thesis using report_statistics [of ?fl "[7, 3, 120000]"] by (intro exI [of _ ?fl]) auto
qed

end
