(* ===== verification/Spec2Isabelle.thy ===== *)
theory Spec2Isabelle
  imports Migration Cluster Server Cli Benchmark
begin

text \<open>
  Pensieve is a distributed in-memory cache written in C++20. Servers keep the pairs whose keys they own on a
  consistent-hash ring, learn about each other by a gossip protocol, and forward requests for keys of
  others; clients know the ring and send requests to the owner. This development models the code under
  \<open>src/src\<close> and proves what makes its parts correct.

  \<^bold>\<open>The parts and how they interact.\<close>

  A server (\<open>main.cpp\<close>) runs one event loop over io_uring (\<open>io/\<close>) on which coroutines serve connections
  (\<open>coordinator/\<close>) and run the gossip protocol (\<open>membership/\<close>). The member table calls a listener that keeps the
  ring; the ring (over \<open>hash/\<close>) tells the coordinator who owns a key; keys of its own go to the
  sharded store (\<open>storage/\<close>), others to a peer over a pooled connection, and concurrent requests for one
  key share one fetch. Requests and responses are framed by \<open>protocol/\<close>. The client library (\<open>sdk/\<close>)
  fetches the member list from a server, builds the same ring, and fails over to the next nodes; two
  programs use it, a command-line client and a benchmark.

  \<^bold>\<open>Theories and sources.\<close>

  \<^item> \<open>Prelude\<close>: words, bytes, strings, unordered maps as association lists, and the lemmas all theories
    share. \<open>StdMap\<close> and \<open>StdString\<close>: what the code uses of \<open>std::map\<close>, \<open>stoi\<close>, \<open>stoul\<close> and \<open>rfind\<close>.
  \<^item> \<open>Murmur\<close>, \<open>Hasher\<close>: \<open>hash/murmurhash3.cpp\<close>, \<open>hash/hasher.h\<close>.
  \<^item> \<open>Node\<close>, \<open>Ring\<close>, \<open>Migration\<close>: \<open>membership/node_info.h\<close>, \<open>ring_store.cpp\<close>, \<open>ring_migration.cpp\<close>.
  \<^item> \<open>SwimMessage\<close>, \<open>MemberList\<close>, \<open>Disseminator\<close>, \<open>SwimProtocol\<close>: the files of the same names in
    \<open>membership/\<close>.
  \<^item> \<open>SlabAllocator\<close>, \<open>SlabEntry\<close>, \<open>ClockEvictor\<close>, \<open>LocalStore\<close>: the files of the same names in \<open>storage/\<close>.
  \<^item> \<open>Protocol\<close>: \<open>protocol/message.h\<close>. \<open>Streams\<close>: \<open>io/stream_utils.h\<close>. \<open>BufferPool\<close>: \<open>io/buffer_pool.cpp\<close>.
  \<^item> \<open>WaitGroup\<close>, \<open>PeerClient\<close>, \<open>Coordinator\<close>: the files of the same names in \<open>coordinator/\<close>.
  \<^item> \<open>Task\<close>: \<open>io/task.h\<close>. \<open>IoContext\<close>: \<open>io/io_uring_context.cpp\<close> and \<open>io/awaitable.h\<close>. \<open>Sockets\<close>:
    \<open>io/tcp_connection.cpp\<close>, \<open>tcp_listener.cpp\<close>, \<open>udp_socket.cpp\<close>. \<open>Executor\<close>: these together.
  \<^item> \<open>ServerNode\<close>: the configuration and the membership part of \<open>main.cpp\<close>, and the life of one node.
    \<open>Cluster\<close>: many nodes and a network that loses, repeats and reorders. \<open>Server\<close>: all of \<open>main.cpp\<close>.
  \<^item> \<open>TopologyManager\<close>, \<open>CircuitBreaker\<close>, \<open>ConnectionPool\<close>, \<open>PensieveClient\<close>, \<open>Cli\<close>, \<open>Benchmark\<close>: the files of
    \<open>sdk/\<close>.

  \<^bold>\<open>How the code is translated.\<close>

  A class is a record, a method a function on it that returns the new state with its result; an enum is
  a datatype; integers keep their width where arithmetic may wrap. An exception is \<open>Inl\<close> or \<open>None\<close>, and so
  is undefined behaviour: a read out of bounds, a use of freed memory, a resumption of a dead coroutine.
  The arena, the heap of coroutine frames and the callbacks are explicit stores. Sockets are scripts
  of deliveries and of the sizes that writes accept. Random choices, the clock, sorting and shuffling, floating-point
  arithmetic, name resolution, memory mapping and the other system calls are arguments; where a proof
  relies on them, their documented behaviour is a hypothesis.

  Concurrency is a step relation whose steps are the stretches between two awaits or the critical
  sections of a mutex: \<open>WaitGroup\<close>, \<open>Coordinator\<close>, \<open>ServerNode\<close> (with the datagrams as labels), \<open>Cluster\<close> and
  \<open>Executor\<close>. The relations are closed under every order, and invariants are shown by rule induction.

  \<^bold>\<open>Interfaces.\<close>

  \<open>clockwise_ring\<close> (the owner of a position is the next token clockwise) is interpreted by the ring of
  the servers and by that of the client, from which it follows that they agree. \<open>wire_codec\<close> is shared by
  the parts of gossip messages, \<open>precedence\<close> by the merges of the member table and of the gossip queue, \<open>slot_allocator\<close> by what
  the store needs of the allocator, and \<open>unique_owner\<close> by the objects that own a descriptor.

  \<^bold>\<open>What the lemmas show.\<close>

  \<^item> Hashing and ring: the 32-bit hash is its reference definition; a lookup finds the nearest token; joins and leaves move
    no other positions; the migration plan is exact.
  \<^item> Storage: on every reachable store the operations implement a map that may forget entries, and
    no operation touches memory that is not the live entry it means.
  \<^item> Messages: decoding accepts exactly the images of messages, and framing does not depend on how a
    stream is cut into pieces.
  \<^item> Membership: tables converge whatever the order of reports; the ring follows the table; silent nodes are removed;
    a node that hears of its suspicion prevails; no one invents incarnations.
  \<^item> Requests: every connection gets the answers to its requests in order, joined fetches are answered,
    local requests act as on a map, and no connection leaks.
  \<^item> Coroutines: completions, callbacks and frames are used exactly while they are alive, and no coroutine is forgotten.
  \<^item> The server starts exactly when its configuration and the system allow it, with every component in an initial
    state of its life cycle, so that the theorems about reachable states apply.
  \<^item> The client: it learns the alive nodes, sends to the owner, fails over, leaks no connection, and both
    programs do with it what they say.

  \<^bold>\<open>Loops and bounds.\<close>

  Recursion is structural or has a termination proof. The counters of bounded loops are those of the code: ten attempts
  in \<open>LocalStore::put\<close>, twice the ring in \<open>ClockEvictor::evict_one\<close>, which is shown to be enough to find an entry, five
  connection attempts of the benchmark. Two loops could run forever and are partial functions into
  \<open>option\<close>: the search for further nodes on the ring, which is shown to return, and the destruction of a chain of frames, which is shown to
  return for a coroutine that has finished, the only ones the code destroys while it runs. There is no fuel. Loops that only end with
  their input (connections, the event loop) recurse over the script of what they receive. The widths of length
  fields appear as hypotheses: keys below \<open>2 ^ 16\<close> and values below \<open>2 ^ 32\<close> bytes.

  \<^bold>\<open>Not modelled.\<close>

  The kernel and liburing, beyond the operations in flight and their results; log and progress output; the
  memory order of atomics and data races below the level of critical sections (a race in \<open>await_ready\<close> of the wait group is a
  finding); the thread that refreshes the client's topology, whose effect may occur between any two requests; values of
  socket options and addresses; destruction of the objects of \<open>main\<close> after the event loop; \<open>common/types.h\<close> and \<open>common/result.h\<close>, which
  only name types.
\<close>

end
